(* ===== verification/Prelude.thy ===== *)
theory Prelude
  imports Main "HOL-Library.Word"
begin

text \<open>
  Shared vocabulary of the development: the fixed-width integers of the C code, the
  result type of a C computation that may trap (\<open>fault + 'a\<close>), the array accesses with
  their bounds check written out, the \<open>size_t\<close> arithmetic with its wrap-around, the errno
  values, and the collections of rewrite rules (\<open>cres\<close>, \<open>size_arith\<close>) that carry the
  component proofs.
\<close>

section \<open>Integers\<close>

type_synonym u8 = "8 word"
type_synonym u32 = "32 word"
type_synonym u64 = "64 word"

text \<open>
  \<open>size_t\<close> is unsigned and 64 bits wide; it is a \<open>nat\<close> below \<open>2 ^ 64\<close> whose
  operations reduce modulo \<open>2 ^ 64\<close>.  \<open>ssize_t\<close>, \<open>long\<close> and \<open>off_t\<close> are \<open>int\<close>;
  the cast from \<open>size_t\<close> is \<open>to_ssize\<close>.
\<close>

named_theorems size_arith \<open>definitions of the size_t operations\<close>

definition size_max :: nat where
  "size_max = 2 ^ 64"

definition size_add :: "nat \<Rightarrow> nat \<Rightarrow> nat" where
  [size_arith]: "size_add a b = (a + b) mod 2 ^ 64"

definition size_sub :: "nat \<Rightarrow> nat \<Rightarrow> nat" where
  [size_arith]: "size_sub a b = (a + (2 ^ 64 - b mod 2 ^ 64)) mod 2 ^ 64"

definition size_mul :: "nat \<Rightarrow> nat \<Rightarrow> nat" where
  [size_arith]: "size_mul a b = (a * b) mod 2 ^ 64"

definition to_ssize :: "nat \<Rightarrow> int" where
  [size_arith]: "to_ssize n = (let m = n mod 2 ^ 64 in
      if m < 2 ^ 63 then int m else int m - 2 ^ 64)"

definition to_size :: "int \<Rightarrow> nat" where
  [size_arith]: "to_size i = nat (i mod 2 ^ 64)"

lemma to_ssize_small [simp]: "n < 2 ^ 63 \<Longrightarrow> to_ssize n = int n"
  by (simp add: to_ssize_def)

lemma to_size_nonneg [simp]: "0 \<le> i \<Longrightarrow> i < 2 ^ 64 \<Longrightarrow> to_size i = nat i"
  by (simp add: to_size_def)

lemma to_size_int [simp]: "n < 2 ^ 64 \<Longrightarrow> to_size (int n) = n"
  by (simp add: to_size_def)

lemma size_add_small [simp]: "a + b < 2 ^ 64 \<Longrightarrow> size_add a b = a + b"
  by (simp add: size_add_def)

lemma size_sub_small [simp]:
  assumes "b \<le> a" and "a < 2 ^ 64"
  shows "size_sub a b = a - b"
proof -
  have "a + (2 ^ 64 - b) = (a - b) + 2 ^ 64"
    using assms by simp
  then have "(a + (2 ^ 64 - b)) mod 2 ^ 64 = (a - b) mod 2 ^ 64"
    by (simp only: mod_add_self2)
  then show ?thesis
    using assms by (simp add: size_sub_def del: add_diff_assoc)
qed

lemma size_mul_small [simp]: "a * b < 2 ^ 64 \<Longrightarrow> size_mul a b = a * b"
  by (simp add: size_mul_def)

lemma nat_int_plus [simp]:
  "nat (int n + 1) = n + 1" "nat (1 + int n) = n + 1"
  "nat (int n + numeral k) = n + numeral k" "nat (numeral k + int n) = n + numeral k"
  by (simp_all add: nat_add_distrib)

section \<open>Traps and results\<close>

text \<open>
  What the C code does instead of returning: a failed \<open>assert\<close>, an access outside an
  object, a null or dangling pointer, a call of \<open>abort\<close>.
\<close>

datatype fault = AssertFailed | OutOfBounds | BadPointer | Aborted

type_synonym 'a cresult = "fault + 'a"

definition cbind :: "'e + 'a \<Rightarrow> ('a \<Rightarrow> 'e + 'b) \<Rightarrow> 'e + 'b" where
  "cbind m f = (case m of Inl e \<Rightarrow> Inl e | Inr x \<Rightarrow> f x)"

definition cassert :: "bool \<Rightarrow> unit cresult" where
  "cassert b = (if b then Inr () else Inl AssertFailed)"

named_theorems cres \<open>inversion and evaluation of trapping computations\<close>

lemma cbind_Inl [simp]: "cbind (Inl e) f = Inl e"
  by (simp add: cbind_def)

lemma cbind_Inr [simp]: "cbind (Inr x) f = f x"
  by (simp add: cbind_def)

lemma cbind_eq_Inr [cres]: "cbind m f = Inr y \<longleftrightarrow> (\<exists>x. m = Inr x \<and> f x = Inr y)"
  by (cases m) auto

lemma cbind_eq_Inl [cres]:
  "cbind m f = Inl e \<longleftrightarrow> m = Inl e \<or> (\<exists>x. m = Inr x \<and> f x = Inl e)"
  by (cases m) auto

lemma cassert_simps [simp]: "cassert True = Inr ()" "cassert False = Inl AssertFailed"
  by (simp_all add: cassert_def)

lemma cassert_eq_Inr [cres]: "cassert b = Inr u \<longleftrightarrow> b"
  by (simp add: cassert_def)

lemma cassert_eq_Inl [cres]: "cassert b = Inl e \<longleftrightarrow> \<not> b \<and> e = AssertFailed"
  by (auto simp: cassert_def)

lemma cbind_cong [fundef_cong]:
  "m = m' \<Longrightarrow> (\<And>x. m' = Inr x \<Longrightarrow> f x = g x) \<Longrightarrow> cbind m f = cbind m' g"
  by (cases m') auto

section \<open>Arrays\<close>

text \<open>
  An array object is a list.  An access takes a signed index and traps outside the object.
\<close>

definition aget :: "'a list \<Rightarrow> int \<Rightarrow> 'a cresult" where
  "aget xs i = (if 0 \<le> i \<and> nat i < length xs then Inr (xs ! nat i) else Inl OutOfBounds)"

definition aset :: "'a list \<Rightarrow> int \<Rightarrow> 'a \<Rightarrow> 'a list cresult" where
  "aset xs i v = (if 0 \<le> i \<and> nat i < length xs then Inr (xs[nat i := v]) else Inl OutOfBounds)"

lemma aget_in [simp]: "0 \<le> i \<Longrightarrow> nat i < length xs \<Longrightarrow> aget xs i = Inr (xs ! nat i)"
  by (simp add: aget_def)

lemma aset_in [simp]: "0 \<le> i \<Longrightarrow> nat i < length xs \<Longrightarrow> aset xs i v = Inr (xs[nat i := v])"
  by (simp add: aset_def)

lemma aget_eq_Inr [cres]:
  "aget xs i = Inr v \<longleftrightarrow> 0 \<le> i \<and> nat i < length xs \<and> v = xs ! nat i"
  by (auto simp: aget_def)

lemma aset_eq_Inr [cres]:
  "aset xs i v = Inr ys \<longleftrightarrow> 0 \<le> i \<and> nat i < length xs \<and> ys = xs[nat i := v]"
  by (auto simp: aset_def)

text \<open>
  A C string is an object that holds a NUL; \<open>cstrlen\<close> runs off an object that holds none.
\<close>

definition cstrlen :: "u8 list \<Rightarrow> nat cresult" where
  "cstrlen p = (if 0 \<in> set p then Inr (length (takeWhile (\<lambda>c. c \<noteq> 0) p)) else Inl OutOfBounds)"

lemma cstrlen_append [simp]: "0 \<notin> set s \<Longrightarrow> cstrlen (s @ 0 # r) = Inr (length s)"
  by (subgoal_tac "takeWhile (\<lambda>c. c \<noteq> 0) (s @ 0 # r) = s")
     (auto simp: cstrlen_def takeWhile_tail)

section \<open>errno\<close>

text \<open>The errno values the code names, with their Linux numbers.\<close>

abbreviation (input) ENOENT :: int where "ENOENT \<equiv> 2"
abbreviation (input) EINTR :: int where "EINTR \<equiv> 4"
abbreviation (input) EIO :: int where "EIO \<equiv> 5"
abbreviation (input) EAGAIN :: int where "EAGAIN \<equiv> 11"
abbreviation (input) ENOMEM :: int where "ENOMEM \<equiv> 12"
abbreviation (input) EINVAL :: int where "EINVAL \<equiv> 22"
abbreviation (input) EPIPE :: int where "EPIPE \<equiv> 32"
abbreviation (input) ERANGE :: int where "ERANGE \<equiv> 34"
abbreviation (input) EOVERFLOW :: int where "EOVERFLOW \<equiv> 75"
abbreviation (input) EMSGSIZE :: int where "EMSGSIZE \<equiv> 90"
abbreviation (input) EALREADY :: int where "EALREADY \<equiv> 114"

section \<open>Lists\<close>

lemma take_Suc_snoc: "n < length xs \<Longrightarrow> take (Suc n) xs = take n xs @ [xs ! n]"
  by (rule take_Suc_conv_app_nth)

lemma nth_list_update_other: "j \<noteq> i \<Longrightarrow> xs[i := v] ! j = xs ! j"
  by simp

end
