(* ===== verification/Pqueue.thy ===== *)
theory Pqueue
  imports Prelude
begin

text \<open>
  The pointer FIFO of queue/queue.c and queue/queue.h, and the command loop of its test
  application queue/testq.c.  A \<open>struct pqueue\<close> is the record \<open>pqueue\<close>; a handle of type
  \<open>queue_t\<close> is the address of such a struct in \<open>qheap\<close>.  The ring buffer is proved to
  implement a bounded FIFO list (locale \<open>bounded_fifo\<close>), and the client loop is reasoned
  about once, over that interface.
\<close>

section \<open>Data\<close>

record pqueue =
  pq_data :: "u64 list"
  pq_max_count :: nat
  pq_count :: nat
  pq_head :: int
  pq_tail :: int

text \<open>The heap of queues by address, and the global \<open>errno\<close>.\<close>

record qheap =
  pq_at :: "int \<Rightarrow> pqueue option"
  q_errno :: int

text \<open>
  \<open>calloc(n, sz)\<close> answers NULL when the allocator refuses (\<open>ok = False\<close>) and whenever the
  object would be larger than \<open>PTRDIFF_MAX\<close>.
\<close>

definition calloc_ok :: "bool \<Rightarrow> nat \<Rightarrow> nat \<Rightarrow> bool" where
  "calloc_ok ok n sz \<longleftrightarrow> ok \<and> n * sz < 2 ^ 63"

section \<open>Operations on the struct\<close>

definition pqueue_new :: "nat \<Rightarrow> pqueue" where
  "pqueue_new capacity = \<lparr>pq_data = replicate capacity 0, pq_max_count = capacity,
     pq_count = 0, pq_head = -1, pq_tail = -1\<rparr>"

text \<open>\<open>pqueue_get\<close>: the value returned, \<open>errno\<close> afterwards, the queue afterwards.\<close>

definition pqueue_get :: "int \<Rightarrow> pqueue \<Rightarrow> (u64 \<times> int \<times> pqueue) cresult" where
  "pqueue_get e pq =
     (if pq_count pq = 0 then Inr (-1, ENOENT, pq)
      else
        cbind (cassert (0 \<le> pq_head pq \<and> pq_head pq < to_ssize (pq_max_count pq))) (\<lambda>_.
        cbind (aget (pq_data pq) (pq_head pq)) (\<lambda>val.
        let n = size_sub (pq_count pq) 1; h = pq_head pq + 1 in
        Inr (val, e,
          if n = 0 then pq\<lparr>pq_count := n, pq_head := -1, pq_tail := -1\<rparr>
          else pq\<lparr>pq_count := n,
                  pq_head := (if h \<ge> to_ssize (pq_max_count pq) then 0 else h)\<rparr>))))"

text \<open>\<open>pqueue_put\<close>: the return code, \<open>errno\<close> afterwards, the queue afterwards.\<close>

definition pqueue_put :: "u64 \<Rightarrow> int \<Rightarrow> pqueue \<Rightarrow> (int \<times> int \<times> pqueue) cresult" where
  "pqueue_put val e pq =
     (if pq_count pq \<ge> pq_max_count pq then Inr (-1, ENOMEM, pq)
      else
        (let n = size_add (pq_count pq) 1;
             h = (if n = 1 then 0 else pq_head pq);
             t0 = pq_tail pq + 1;
             t = (if n = 1 then 0 else if t0 \<ge> to_ssize (pq_max_count pq) then 0 else t0)
         in cbind (cassert (0 \<le> t \<and> t < to_ssize (pq_max_count pq))) (\<lambda>_.
            cbind (aset (pq_data pq) t val) (\<lambda>d.
            Inr (0, e, pq\<lparr>pq_data := d, pq_count := n, pq_head := h, pq_tail := t\<rparr>)))))"

definition pqueue_is_empty :: "pqueue \<Rightarrow> int" where
  "pqueue_is_empty pq = (if 0 = pq_count pq then 1 else 0)"

text \<open>
  \<open>pqueue_dump\<close>: the four header values it prints, then the elements its loop visits from
  loop counter \<open>n\<close> and index \<open>i\<close> on.
\<close>

function dump_loop :: "pqueue \<Rightarrow> nat \<Rightarrow> int \<Rightarrow> u64 list cresult" where
  "dump_loop pq n i =
     (if n < pq_count pq then
        (let j = (if i \<ge> to_ssize (pq_max_count pq) then 0 else i) in
         cbind (aget (pq_data pq) j) (\<lambda>v.
         cbind (dump_loop pq (n + 1) (j + 1)) (\<lambda>vs. Inr (v # vs))))
      else Inr [])"
  by pat_completeness auto
termination
  by (relation "measure (\<lambda>(pq, n, i). pq_count pq - n)") auto

declare dump_loop.simps [simp del]

definition pqueue_dump :: "pqueue \<Rightarrow> ((nat \<times> nat \<times> int \<times> int) \<times> u64 list) cresult" where
  "pqueue_dump pq = cbind (dump_loop pq 0 (pq_head pq)) (\<lambda>vs.
     Inr ((pq_count pq, pq_max_count pq, pq_head pq, pq_tail pq), vs))"

section \<open>Operations on handles\<close>

text \<open>
  \<open>pqueue_create\<close>: \<open>c1\<close> is the answer of the first \<open>calloc\<close> (\<open>None\<close> for NULL, which also
  sets \<open>errno\<close>), \<open>c2\<close> the allocator's answer to the second one.
\<close>

definition pqueue_create :: "int option \<Rightarrow> bool \<Rightarrow> nat \<Rightarrow> qheap \<Rightarrow> int \<times> qheap" where
  "pqueue_create c1 c2 capacity h =
     (case c1 of
        None \<Rightarrow> (-1, h\<lparr>q_errno := ENOMEM\<rparr>)
      | Some p \<Rightarrow>
          (if \<not> calloc_ok c2 capacity 8 then (-1, h\<lparr>q_errno := ENOMEM\<rparr>)
           else (p, h\<lparr>pq_at := (pq_at h)(p := Some (pqueue_new capacity))\<rparr>)))"

definition pqueue_free :: "int \<Rightarrow> qheap \<Rightarrow> qheap cresult" where
  "pqueue_free q h =
     (if q = 0 then Inr h
      else case pq_at h q of
        None \<Rightarrow> Inl BadPointer
      | Some _ \<Rightarrow> Inr (h\<lparr>pq_at := (pq_at h)(q := None)\<rparr>))"

definition hget :: "int \<Rightarrow> qheap \<Rightarrow> (u64 \<times> qheap) cresult" where
  "hget q h =
     (case pq_at h q of
        None \<Rightarrow> Inl BadPointer
      | Some pq \<Rightarrow> cbind (pqueue_get (q_errno h) pq) (\<lambda>(v, e, pq').
          Inr (v, h\<lparr>pq_at := (pq_at h)(q := Some pq'), q_errno := e\<rparr>)))"

definition hput :: "int \<Rightarrow> u64 \<Rightarrow> qheap \<Rightarrow> (int \<times> qheap) cresult" where
  "hput q v h =
     (case pq_at h q of
        None \<Rightarrow> Inl BadPointer
      | Some pq \<Rightarrow> cbind (pqueue_put v (q_errno h) pq) (\<lambda>(rc, e, pq').
          Inr (rc, h\<lparr>pq_at := (pq_at h)(q := Some pq'), q_errno := e\<rparr>)))"

definition hcount :: "int \<Rightarrow> qheap \<Rightarrow> nat cresult" where
  "hcount q h = (case pq_at h q of None \<Rightarrow> Inl BadPointer | Some pq \<Rightarrow> Inr (pq_count pq))"

text \<open>The casting helpers of queue.h: an \<open>int\<close> is sign extended to a pointer and truncated back.\<close>

definition pqueue_iput :: "int \<Rightarrow> u32 \<Rightarrow> qheap \<Rightarrow> (int \<times> qheap) cresult" where
  "pqueue_iput q val h = hput q (scast val) h"

definition pqueue_iget :: "int \<Rightarrow> qheap \<Rightarrow> (u32 \<times> qheap) cresult" where
  "pqueue_iget q h = cbind (hget q h) (\<lambda>(v, h'). Inr (ucast v, h'))"

section \<open>The interface of a bounded FIFO\<close>

text \<open>
  What a client of the queue may rely on: the contents are a list of at most \<open>cap\<close> values,
  a put appends or reports \<open>ENOMEM\<close>, a get removes the oldest value or reports \<open>ENOENT\<close>,
  and no call traps.
\<close>

locale bounded_fifo =
  fixes put :: "u64 \<Rightarrow> int \<Rightarrow> 'q \<Rightarrow> (int \<times> int \<times> 'q) cresult"
    and get :: "int \<Rightarrow> 'q \<Rightarrow> (u64 \<times> int \<times> 'q) cresult"
    and dump :: "'q \<Rightarrow> u64 list cresult"
    and invar :: "'q \<Rightarrow> bool"
    and contents :: "'q \<Rightarrow> u64 list"
    and cap :: "'q \<Rightarrow> nat"
  assumes bounded: "invar q \<Longrightarrow> length (contents q) \<le> cap q"
    and put_full: "invar q \<Longrightarrow> length (contents q) = cap q \<Longrightarrow> put v e q = Inr (-1, ENOMEM, q)"
    and put_room: "invar q \<Longrightarrow> length (contents q) < cap q \<Longrightarrow>
      \<exists>q'. put v e q = Inr (0, e, q') \<and> invar q' \<and> cap q' = cap q
         \<and> contents q' = contents q @ [v]"
    and get_empty: "invar q \<Longrightarrow> contents q = [] \<Longrightarrow> get e q = Inr (-1, ENOENT, q)"
    and get_front: "invar q \<Longrightarrow> contents q = x # xs \<Longrightarrow>
      \<exists>q'. get e q = Inr (x, e, q') \<and> invar q' \<and> cap q' = cap q \<and> contents q' = xs"
    and dump_all: "invar q \<Longrightarrow> dump q = Inr (contents q)"

section \<open>The command loop of testq.c\<close>

datatype qcmd = CmdGet | CmdDump | CmdPut u64 | CmdInvalid

datatype qout = Got u64 | GetError int | Stored u64 | PutError int | Dumped "u64 list" | Rejected

text \<open>
  One input line of the loop in \<open>main\<close>, over the queue operations it calls.  The state is
  the variable \<open>rc\<close> and the queue; \<open>errno\<close> is reset before a get, as the code does.
\<close>

fun testq_step ::
  "(u64 \<Rightarrow> int \<Rightarrow> 'q \<Rightarrow> (int \<times> int \<times> 'q) cresult) \<Rightarrow> (int \<Rightarrow> 'q \<Rightarrow> (u64 \<times> int \<times> 'q) cresult) \<Rightarrow>
   ('q \<Rightarrow> u64 list cresult) \<Rightarrow> qcmd \<Rightarrow> int \<times> int \<times> 'q \<Rightarrow> (qout \<times> int \<times> int \<times> 'q) cresult"
where
  "testq_step put get dump CmdGet (rc, e, q) =
     cbind (get 0 q) (\<lambda>(v, e', q').
       Inr (if v = -1 \<and> e' \<noteq> 0 then GetError e' else Got v, rc, e', q'))"
| "testq_step put get dump CmdDump (rc, e, q) =
     cbind (dump q) (\<lambda>vs. Inr (Dumped vs, rc, e, q))"
| "testq_step put get dump (CmdPut v) (rc, e, q) =
     cbind (put v e q) (\<lambda>(rc', e', q').
       Inr (if rc' \<noteq> 0 then PutError e' else Stored v, rc', e', q'))"
| "testq_step put get dump CmdInvalid (rc, e, q) = Inr (Rejected, rc, e, q)"

fun testq_loop ::
  "(u64 \<Rightarrow> int \<Rightarrow> 'q \<Rightarrow> (int \<times> int \<times> 'q) cresult) \<Rightarrow> (int \<Rightarrow> 'q \<Rightarrow> (u64 \<times> int \<times> 'q) cresult) \<Rightarrow>
   ('q \<Rightarrow> u64 list cresult) \<Rightarrow> qcmd list \<Rightarrow> int \<times> int \<times> 'q \<Rightarrow>
   (qout list \<times> int \<times> int \<times> 'q) cresult"
where
  "testq_loop put get dump [] s = Inr ([], s)"
| "testq_loop put get dump (c # cs) s =
     cbind (testq_step put get dump c s) (\<lambda>(x, s').
     cbind (testq_loop put get dump cs s') (\<lambda>(xs, s''). Inr (x # xs, s'')))"

text \<open>What went in and what came out, read off the output of a run.\<close>

fun stored_of :: "qout list \<Rightarrow> u64 list" where
  "stored_of [] = []"
| "stored_of (Stored v # xs) = v # stored_of xs"
| "stored_of (_ # xs) = stored_of xs"

fun got_of :: "qout list \<Rightarrow> u64 list" where
  "got_of [] = []"
| "got_of (Got v # xs) = v # got_of xs"
| "got_of (_ # xs) = got_of xs"

text \<open>The specification of a run: the same commands on a list of at most \<open>c\<close> values.\<close>

fun fifo_spec :: "nat \<Rightarrow> qcmd list \<Rightarrow> u64 list \<Rightarrow> qout list \<times> u64 list" where
  "fifo_spec c [] l = ([], l)"
| "fifo_spec c (CmdGet # cs) l =
     (case l of
        [] \<Rightarrow> (let (xs, l') = fifo_spec c cs [] in (GetError ENOENT # xs, l'))
      | v # r \<Rightarrow> (let (xs, l') = fifo_spec c cs r in (Got v # xs, l')))"
| "fifo_spec c (CmdDump # cs) l =
     (let (xs, l') = fifo_spec c cs l in (Dumped l # xs, l'))"
| "fifo_spec c (CmdPut v # cs) l =
     (if length l < c then (let (xs, l') = fifo_spec c cs (l @ [v]) in (Stored v # xs, l'))
      else (let (xs, l') = fifo_spec c cs l in (PutError ENOMEM # xs, l')))"
| "fifo_spec c (CmdInvalid # cs) l =
     (let (xs, l') = fifo_spec c cs l in (Rejected # xs, l'))"

text \<open>The variable \<open>rc\<close> of \<open>main\<close> is the result of the last put.\<close>

fun put_rc :: "qout \<Rightarrow> int \<Rightarrow> int" where
  "put_rc (Stored v) rc = 0"
| "put_rc (PutError e) rc = -1"
| "put_rc _ rc = rc"

lemma fifo_spec_conserves:
  "fifo_spec c cs l = (xs, l') \<Longrightarrow> l @ stored_of xs = got_of xs @ l'"
  by (induction c cs l arbitrary: xs l' rule: fifo_spec.induct)
     (fastforce split: list.splits if_splits prod.splits)+

lemma fifo_spec_bounded:
  "fifo_spec c cs l = (xs, l') \<Longrightarrow> length l \<le> c \<Longrightarrow> length l' \<le> c"
  by (induction c cs l arbitrary: xs l' rule: fifo_spec.induct)
     (auto split: list.splits if_splits prod.splits)

context bounded_fifo
begin

text \<open>One command on the implementation and on the list agree, and keep the invariant.\<close>

lemma step_refines:
  assumes "invar q" and "fifo_spec (cap q) (c # cs) (contents q) = (x # xs, l')"
  shows "\<exists>e' q'. testq_step put get dump c (rc, e, q) = Inr (x, put_rc x rc, e', q')
     \<and> invar q' \<and> cap q' = cap q \<and> fifo_spec (cap q) cs (contents q') = (xs, l')"
proof (cases c)
  case CmdGet
  show ?thesis
  proof (cases "contents q")
    case Nil
    then show ?thesis
      using assms CmdGet get_empty[OF assms(1) Nil, of 0] by (auto split: prod.splits)
  next
    case (Cons v r)
    then show ?thesis
      using assms CmdGet get_front[OF assms(1) Cons, of 0] by (auto split: prod.splits)
  qed
next
  case CmdDump
  then show ?thesis using assms dump_all[OF assms(1)] by (auto split: prod.splits)
next
  case (CmdPut v)
  show ?thesis
  proof (cases "length (contents q) < cap q")
    case True
    then show ?thesis
      using assms CmdPut put_room[OF assms(1) True, of v e] by (auto split: prod.splits)
  next
    case False
    with bounded[OF assms(1)] have "length (contents q) = cap q" by simp
    then show ?thesis
      using assms CmdPut put_full[OF assms(1), of v e] by (auto split: prod.splits)
  qed
next
  case CmdInvalid
  then show ?thesis using assms by (auto split: prod.splits)
qed

lemma spec_Cons: "\<exists>x xs l'. fifo_spec n (c # cs) l = (x # xs, l')"
  by (cases c) (auto split: list.splits prod.splits)

lemma run_refines:
  assumes "invar q"
  shows "\<exists>e' q'. testq_loop put get dump cs (rc, e, q)
           = Inr (fst (fifo_spec (cap q) cs (contents q)), fold put_rc (fst (fifo_spec (cap q) cs (contents q))) rc, e', q')
       \<and> invar q' \<and> cap q' = cap q
       \<and> contents q' = snd (fifo_spec (cap q) cs (contents q))"
  using assms
proof (induction cs arbitrary: rc e q)
  case Nil
  then show ?case by simp
next
  case (Cons c cs)
  obtain x xs l' where spec: "fifo_spec (cap q) (c # cs) (contents q) = (x # xs, l')"
    using spec_Cons by blast
  obtain e1 q1 where step: "testq_step put get dump c (rc, e, q) = Inr (x, put_rc x rc, e1, q1)"
    and q1: "invar q1" "cap q1 = cap q" "fifo_spec (cap q) cs (contents q1) = (xs, l')"
    using step_refines[OF Cons.prems spec] by blast
  show ?case
    using Cons.IH[OF q1(1), of "put_rc x rc" e1] step spec q1 by auto
qed

end

section \<open>The ring buffer implements the interface\<close>

definition pq_inv :: "pqueue \<Rightarrow> bool" where
  "pq_inv pq \<longleftrightarrow>
     length (pq_data pq) = pq_max_count pq \<and> pq_max_count pq < 2 ^ 63
   \<and> pq_count pq \<le> pq_max_count pq
   \<and> (if pq_count pq = 0 then pq_head pq = -1 \<and> pq_tail pq = -1
      else 0 \<le> pq_head pq \<and> pq_head pq < int (pq_max_count pq)
         \<and> pq_tail pq = int ((nat (pq_head pq) + (pq_count pq - 1)) mod pq_max_count pq))"

text \<open>The queued values, oldest first.\<close>

definition pq_list :: "pqueue \<Rightarrow> u64 list" where
  "pq_list pq = map (\<lambda>k. pq_data pq ! ((nat (pq_head pq) + k) mod pq_max_count pq))
                    [0..<pq_count pq]"

lemma length_pq_list [simp]: "length (pq_list pq) = pq_count pq"
  by (simp add: pq_list_def)

lemma pq_list_Nil_iff [simp]: "pq_list pq = [] \<longleftrightarrow> pq_count pq = 0"
  by (simp add: pq_list_def)

lemma ring_distinct:
  fixes h k c m :: nat
  assumes "k < c" and "c < m"
  shows "(h + k) mod m \<noteq> (h + c) mod m"
proof
  assume "(h + k) mod m = (h + c) mod m"
  then have "m dvd (h + c) - (h + k)"
    using assms mod_eq_dvd_iff_nat[of "h + k" "h + c" m] by simp
  then have "m dvd c - k" by simp
  then show False using assms by (meson dvd_imp_le less_imp_diff_less not_le zero_less_diff)
qed

lemma ring_next:
  fixes a m :: nat
  assumes "0 < m"
  shows "(a + 1) mod m = (if a mod m + 1 \<ge> m then 0 else a mod m + 1)"
  using assms mod_less_divisor[OF assms, of a] by (auto simp: mod_Suc)

lemma pq_put_full: "pq_count pq = pq_max_count pq \<Longrightarrow> pqueue_put v e pq = Inr (-1, ENOMEM, pq)"
  by (simp add: pqueue_put_def)

lemma pq_get_empty: "pq_count pq = 0 \<Longrightarrow> pqueue_get e pq = Inr (-1, ENOENT, pq)"
  by (simp add: pqueue_get_def)

text \<open>The slot a put writes, seen from the head of the queue.\<close>

lemma pq_put_room:
  assumes inv: "pq_inv pq" and room: "pq_count pq < pq_max_count pq"
  defines "h \<equiv> (if pq_count pq = 0 then 0 else pq_head pq)"
  defines "t \<equiv> (nat h + pq_count pq) mod pq_max_count pq"
  shows "pqueue_put v e pq = Inr (0, e, pq\<lparr>pq_data := (pq_data pq)[t := v],
     pq_count := pq_count pq + 1, pq_head := h, pq_tail := int t\<rparr>)"
proof (cases "pq_count pq = 0")
  case True
  then show ?thesis
    using assms by (simp add: pqueue_put_def pq_inv_def)
next
  case False
  let ?m = "pq_max_count pq"
  have m: "0 < ?m" "?m < 2 ^ 63" using inv room by (auto simp: pq_inv_def)
  have n: "size_add (pq_count pq) 1 = pq_count pq + 1"
    using inv room by (simp add: pq_inv_def)
  define a where "a = nat (pq_head pq) + (pq_count pq - 1)"
  have "nat h + pq_count pq = a + 1" using False by (simp add: h_def a_def)
  moreover have "pq_tail pq = int (a mod ?m)"
    using inv False by (simp add: pq_inv_def a_def)
  ultimately have t: "int t = (if pq_tail pq + 1 \<ge> int ?m then 0 else pq_tail pq + 1)"
    using ring_next[OF m(1), of a] by (auto simp: t_def)
  have "t < ?m" using m by (simp add: t_def)
  moreover have "to_ssize ?m = int ?m" using m by simp
  moreover have "(pq_count pq + 1 = 1) = False" "(?m \<le> pq_count pq) = False"
    using False room by simp_all
  ultimately show ?thesis
    using inv False unfolding pqueue_put_def Let_def n
    by (simp only: t[symmetric] if_False h_def) (simp add: pq_inv_def)
qed

lemma pq_put_list:
  assumes inv: "pq_inv pq" and room: "pq_count pq < pq_max_count pq"
  shows "\<exists>pq'. pqueue_put v e pq = Inr (0, e, pq') \<and> pq_inv pq'
     \<and> pq_max_count pq' = pq_max_count pq \<and> pq_list pq' = pq_list pq @ [v]"
proof -
  let ?m = "pq_max_count pq" and ?c = "pq_count pq"
  define h where "h = (if ?c = 0 then 0 else pq_head pq)"
  define t where "t = (nat h + ?c) mod ?m"
  define pq' where "pq' = pq\<lparr>pq_data := (pq_data pq)[t := v], pq_count := ?c + 1,
     pq_head := h, pq_tail := int t\<rparr>"
  have h: "0 \<le> h" "h < int ?m" using inv room by (auto simp: pq_inv_def h_def)
  have t: "t < ?m" using room by (simp add: t_def)
  have len: "length (pq_data pq) = ?m" using inv by (simp add: pq_inv_def)
  have old: "(pq_data pq)[t := v] ! ((nat h + k) mod ?m)
           = pq_data pq ! ((nat (pq_head pq) + k) mod ?m)" if "k < ?c" for k
    using ring_distinct[OF that room, of "nat h"] that by (simp add: t_def h_def)
  have "pq_list pq' = map (\<lambda>k. (pq_data pq)[t := v] ! ((nat h + k) mod ?m)) [0..<?c]
                    @ [(pq_data pq)[t := v] ! t]"
    by (simp add: pq_list_def pq'_def t_def)
  also have "\<dots> = pq_list pq @ [v]"
    using old t len by (simp add: pq_list_def)
  finally have "pq_list pq' = pq_list pq @ [v]" .
  moreover have "pq_inv pq'"
    using inv h t room by (simp add: pq_inv_def pq'_def t_def)
  moreover have "pqueue_put v e pq = Inr (0, e, pq')"
    using pq_put_room[OF inv room, of v e] by (simp add: pq'_def h_def t_def)
  ultimately show ?thesis by (auto simp: pq'_def)
qed

lemma pq_get_list:
  assumes inv: "pq_inv pq" and list: "pq_list pq = x # xs"
  shows "\<exists>pq'. pqueue_get e pq = Inr (x, e, pq') \<and> pq_inv pq'
     \<and> pq_max_count pq' = pq_max_count pq \<and> pq_list pq' = xs"
proof -
  let ?m = "pq_max_count pq" and ?c = "pq_count pq" and ?a = "nat (pq_head pq)"
  have c: "0 < ?c" using list by (metis length_pq_list length_greater_0_conv list.distinct(1))
  have h: "0 \<le> pq_head pq" "pq_head pq < int ?m" "?m < 2 ^ 63" "?c \<le> ?m"
    and len: "length (pq_data pq) = ?m"
    and tl: "pq_tail pq = int ((?a + (?c - 1)) mod ?m)"
    using inv c by (auto simp: pq_inv_def)
  have m: "0 < ?m" using h by linarith
  define b where "b = (?a + 1) mod ?m"
  define pq' where "pq' = (if ?c - 1 = 0
     then pq\<lparr>pq_count := ?c - 1, pq_head := -1, pq_tail := -1\<rparr>
     else pq\<lparr>pq_count := ?c - 1, pq_head := int b\<rparr>)"
  have upt: "[0..<?c] = 0 # map Suc [0..<?c - 1]"
    using c by (simp add: map_Suc_upt upt_conv_Cons)
  have shift: "(b + k) mod ?m = (?a + Suc k) mod ?m" for k
    by (simp add: b_def mod_add_left_eq)
  have x: "x = pq_data pq ! ?a"
    and xs: "xs = map (\<lambda>k. pq_data pq ! ((b + k) mod ?m)) [0..<?c - 1]"
    using list h by (simp_all add: pq_list_def upt shift comp_def)
  have "int b = (if pq_head pq + 1 \<ge> int ?m then 0 else pq_head pq + 1)"
    using ring_next[OF m, of ?a] h by (auto simp: b_def)
  moreover have "size_sub ?c 1 = ?c - 1" using c h by simp
  ultimately have "pqueue_get e pq = Inr (x, e, pq')"
    using c h len by (simp add: pqueue_get_def Let_def x pq'_def)
  moreover have "pq_inv pq'"
  proof (cases "?c = 1")
    case True
    then show ?thesis using inv by (simp add: pq_inv_def pq'_def)
  next
    case False
    then have "(b + (?c - 2)) mod ?m = (?a + (?c - 1)) mod ?m"
      using c shift[of "?c - 2"] by (simp add: Suc_diff_Suc numeral_2_eq_2)
    then show ?thesis
      using inv False c m tl by (auto simp: pq_inv_def pq'_def b_def numeral_2_eq_2)
  qed
  moreover have "pq_list pq' = xs"
    by (auto simp: pq_list_def pq'_def xs)
  ultimately show ?thesis by (auto simp: pq'_def)
qed

lemma dump_loop_from:
  assumes inv: "pq_inv pq"
  shows "n \<le> pq_count pq \<Longrightarrow>
    (n < pq_count pq \<Longrightarrow> (if i \<ge> int (pq_max_count pq) then 0 else i)
       = int ((nat (pq_head pq) + n) mod pq_max_count pq)) \<Longrightarrow>
    dump_loop pq n i = Inr (map (\<lambda>k. pq_data pq ! ((nat (pq_head pq) + k) mod pq_max_count pq))
                                [n..<pq_count pq])"
proof (induction "pq_count pq - n" arbitrary: n i)
  case 0
  then show ?case by (simp add: dump_loop.simps[of pq n])
next
  case (Suc d)
  let ?m = "pq_max_count pq" and ?j = "(nat (pq_head pq) + n) mod pq_max_count pq"
  have n: "n < pq_count pq" using Suc.hyps by simp
  have m: "0 < ?m" "?m < 2 ^ 63" "length (pq_data pq) = ?m"
    using inv n by (auto simp: pq_inv_def)
  have i: "(if i \<ge> int ?m then 0 else i) = int ?j" using Suc.prems n by simp
  have j: "?j < ?m" using m by simp
  have "(if int ?j + 1 \<ge> int ?m then 0 else int ?j + 1)
      = int ((nat (pq_head pq) + (n + 1)) mod ?m)"
    using ring_next[OF m(1), of "nat (pq_head pq) + n"] by (auto simp: add.assoc)
  then have "dump_loop pq (n + 1) (int ?j + 1) = Inr (map (\<lambda>k. pq_data pq !
      ((nat (pq_head pq) + k) mod ?m)) [n + 1..<pq_count pq])"
    using Suc.hyps n by (intro Suc.hyps(1)) auto
  then show ?case
    using n m i j by (simp add: dump_loop.simps[of pq n] upt_conv_Cons[of n])
qed

lemma pqueue_dump_list:
  assumes "pq_inv pq"
  shows "pqueue_dump pq = Inr ((pq_count pq, pq_max_count pq, pq_head pq, pq_tail pq), pq_list pq)"
proof -
  have "dump_loop pq 0 (pq_head pq) = Inr (pq_list pq)"
    unfolding pq_list_def using assms
    by (intro dump_loop_from) (auto simp: pq_inv_def)
  then show ?thesis by (simp add: pqueue_dump_def)
qed

interpretation ring: bounded_fifo pqueue_put pqueue_get
    "\<lambda>pq. cbind (pqueue_dump pq) (\<lambda>r. Inr (snd r))" pq_inv pq_list pq_max_count
proof (unfold_locales, goal_cases)
  case (1 q) then show ?case by (simp add: pq_inv_def)
next
  case (2 q v e) then show ?case by (simp add: pq_put_full)
next
  case (3 q v e) then show ?case by (simp add: pq_put_list)
next
  case (4 q e) then show ?case by (simp add: pq_get_empty)
next
  case (5 q x xs e) then show ?case by (rule pq_get_list)
next
  case (6 q) then show ?case by (simp add: pqueue_dump_list)
qed

lemma pq_inv_new: "capacity < 2 ^ 63 \<Longrightarrow> pq_inv (pqueue_new capacity)"
  by (simp add: pq_inv_def pqueue_new_def)

lemma pqueue_new_sel [simp]:
  "pq_list (pqueue_new capacity) = []" "pq_max_count (pqueue_new capacity) = capacity"
  "pq_count (pqueue_new capacity) = 0"
  by (simp_all add: pqueue_new_def)

lemma ucast_scast_32 [simp]: "ucast (scast (v :: u32) :: u64) = v"
proof (rule bit_word_eqI)
  fix n assume "n < LENGTH(32)"
  then have "min 31 n = n" by simp
  then show "bit (ucast (scast v :: u64) :: u32) n \<longleftrightarrow> bit v n"
    using \<open>n < LENGTH(32)\<close> by (simp add: bit_simps)
qed

section \<open>Properties\<close>

abbreviation ring_dump :: "pqueue \<Rightarrow> u64 list cresult" where
  "ring_dump \<equiv> (\<lambda>pq. cbind (pqueue_dump pq) (\<lambda>r. Inr (snd r)))"

text \<open>
  C1: Any sequence of commands of the test application on a well-formed queue runs without
  a trap, answers exactly what a list of at most \<open>max_count\<close> values answers (oldest value
  first, \<open>ENOENT\<close> when empty, \<open>ENOMEM\<close> when full, dumps showing the whole contents), and
  leaves a well-formed queue with the contents of that list.
\<close>

theorem pqueue_run_refines:
  assumes "pq_inv q"
  shows "\<exists>e' q'. testq_loop pqueue_put pqueue_get ring_dump cs (rc, e, q)
           = Inr (fst (fifo_spec (pq_max_count q) cs (pq_list q)),
               fold put_rc (fst (fifo_spec (pq_max_count q) cs (pq_list q))) rc, e', q')
       \<and> pq_inv q' \<and> pq_max_count q' = pq_max_count q
       \<and> pq_list q' = snd (fifo_spec (pq_max_count q) cs (pq_list q))"
  using assms by (rule ring.run_refines)

theorem pqueue_run_refines_witness:
  "\<exists>e' q'. testq_loop pqueue_put pqueue_get ring_dump
       [CmdPut 7, CmdPut 8, CmdPut 9, CmdGet, CmdPut 5, CmdDump, CmdGet, CmdGet, CmdGet]
       (0, 0, pqueue_new 2)
     = Inr ([Stored 7, Stored 8, PutError ENOMEM, Got 7, Stored 5, Dumped [8, 5],
             Got 8, Got 5, GetError ENOENT], 0, e', q')
     \<and> pq_inv q' \<and> pq_list q' = []"
  using pqueue_run_refines [of "pqueue_new 2"
    "[CmdPut 7, CmdPut 8, CmdPut 9, CmdGet, CmdPut 5, CmdDump, CmdGet, CmdGet, CmdGet]" 0 0]
  by (simp add: pq_inv_new) (auto simp: pqueue_new_def)

text \<open>
  C20: No value is lost, duplicated or reordered: over any run from a well-formed queue, the
  values that were queued followed by the values accepted by a put are the values returned
  by gets followed by the values still queued, and the queue never exceeds its capacity.
\<close>

theorem pqueue_fifo_conservation:
  assumes "pq_inv q"
    and "testq_loop pqueue_put pqueue_get ring_dump cs (rc, e, q) = Inr (xs, rc', e', q')"
  shows "pq_list q @ stored_of xs = got_of xs @ pq_list q'
       \<and> length (pq_list q') \<le> pq_max_count q"
proof -
  obtain xs' l' where spec: "fifo_spec (pq_max_count q) cs (pq_list q) = (xs', l')"
    by fastforce
  moreover from ring.run_refines[OF assms(1), of cs rc e] spec assms(2)
  have "xs' = xs" "l' = pq_list q'" by auto
  moreover have "length (pq_list q) \<le> pq_max_count q" using assms(1) by (rule ring.bounded)
  ultimately show ?thesis using fifo_spec_conserves fifo_spec_bounded by metis
qed

theorem pqueue_fifo_conservation_witness:
  "\<exists>xs rc' e' q'. testq_loop pqueue_put pqueue_get ring_dump [CmdPut 3, CmdPut 4, CmdGet]
       (0, 0, pqueue_new 2) = Inr (xs, rc', e', q')
     \<and> stored_of xs = got_of xs @ pq_list q' \<and> length (pq_list q') \<le> 2"
proof -
  obtain xs rc' e' q' where run: "testq_loop pqueue_put pqueue_get ring_dump
      [CmdPut 3, CmdPut 4, CmdGet] (0, 0, pqueue_new 2) = Inr (xs, rc', e', q')"
    using ring.run_refines[of "pqueue_new 2" "[CmdPut 3, CmdPut 4, CmdGet]" 0 0]
    by (auto simp: pq_inv_new)
  then show ?thesis
    using pqueue_fifo_conservation[OF pq_inv_new run] by (auto simp del: testq_loop.simps)
qed

text \<open>
  \<open>pqueue_create\<close> either answers -1 with \<open>errno = ENOMEM\<close> and leaves the heap as it
  was, or answers the address of a well-formed empty queue of the requested capacity;
  freeing that handle releases everything \<open>create\<close> allocated, and the freed handle traps
  when it is used again.
\<close>

theorem pqueue_create_free:
  assumes "pqueue_create c1 c2 capacity h = (r, h')"
    and "\<And>p. c1 = Some p \<Longrightarrow> p \<noteq> 0 \<and> pq_at h p = None"
  shows "r = -1 \<and> h' = h\<lparr>q_errno := ENOMEM\<rparr>
       \<or> (\<exists>q. c1 = Some r \<and> pq_at h' r = Some q \<and> pq_inv q \<and> pq_list q = []
            \<and> pq_max_count q = capacity \<and> q_errno h' = q_errno h
            \<and> pqueue_free r h' = Inr h \<and> hget r h = Inl BadPointer)"
  using assms
  by (auto simp: pqueue_create_def pqueue_free_def hget_def calloc_ok_def pq_inv_new
        fun_upd_idem split: option.splits if_splits)

theorem pqueue_create_free_witness:
  "\<exists>q. pq_at (snd (pqueue_create (Some 4096) True 3
         \<lparr>pq_at = (\<lambda>_. None), q_errno = 0\<rparr>)) 4096 = Some q \<and> pq_inv q \<and> pq_list q = []"
  using pqueue_create_free [of "Some 4096" True 3 "\<lparr>pq_at = (\<lambda>_. None), q_errno = 0\<rparr>", OF prod.collapse[symmetric]]
  by (force simp: pqueue_create_def calloc_ok_def)

text \<open>
  A C \<open>int\<close> put into an empty queue through \<open>pqueue_iput\<close> comes back unchanged from
  \<open>pqueue_iget\<close>, negative values included, and the queue is empty again.
\<close>

theorem pqueue_int_roundtrip:
  assumes "pq_at h q = Some pq" and "pq_inv pq" and "pq_count pq = 0" and "0 < pq_max_count pq"
  shows "\<exists>h1 h2 pq2. pqueue_iput q v h = Inr (0, h1) \<and> pqueue_iget q h1 = Inr (v, h2)
       \<and> pq_at h2 q = Some pq2 \<and> pq_inv pq2 \<and> pq_count pq2 = 0 \<and> q_errno h2 = q_errno h"
proof -
  obtain pq1 where put: "pqueue_put (scast v) (q_errno h) pq = Inr (0, q_errno h, pq1)"
    and pq1: "pq_inv pq1" "pq_list pq1 = [scast v]"
    using ring.put_room[OF assms(2), of "scast v" "q_errno h"] assms(3,4)
    by (auto simp: pq_list_def)
  obtain pq2 where get: "pqueue_get (q_errno h) pq1 = Inr (scast v, q_errno h, pq2)"
    and "pq_inv pq2" "pq_list pq2 = []"
    using ring.get_front[OF pq1, of "q_errno h"] by auto
  then show ?thesis
    using assms(1) put by (auto simp: pqueue_iput_def pqueue_iget_def hput_def hget_def)
qed

theorem pqueue_int_roundtrip_witness:
  "\<exists>h1 h2 pq2. pqueue_iput 4096 (-1) \<lparr>pq_at = [4096 \<mapsto> pqueue_new 1], q_errno = 0\<rparr> = Inr (0, h1)
     \<and> pqueue_iget 4096 h1 = Inr (-1, h2) \<and> pq_at h2 4096 = Some pq2 \<and> pq_count pq2 = 0"
  using pqueue_int_roundtrip [of "\<lparr>pq_at = [4096 \<mapsto> pqueue_new 1], q_errno = 0\<rparr>" 4096
      "pqueue_new 1" "-1"]
  by (force simp: pq_inv_new pqueue_new_def pq_inv_def)

end
