(* ===== verification/Base64.thy ===== *)
theory Base64
  imports Prelude
begin

unbundle bit_operations_syntax

text \<open>
  The base64 encoder and decoder of base64/b64.c: the two tables built by \<open>b64_init\<close>, the
  encoding and decoding loops over byte buffers with their bounds, and the two allocating
  wrappers.  The encoder is proved equal to an arithmetic definition of base64, the decoder
  to invert it.
\<close>

section \<open>Tables\<close>

record b64_state =
  g_etable :: "u8 list"
  g_dtable :: "u8 list"
  g_ready :: int

text \<open>Static objects start as zeros.\<close>

definition b64_start :: b64_state where
  "b64_start = \<lparr>g_etable = replicate 64 0, g_dtable = replicate 256 0, g_ready = 0\<rparr>"

definition init_etable :: "u8 list \<Rightarrow> u8 list" where
  "init_etable t0 =
     (let t1 = fold (\<lambda>i t. t[i := 65 + of_nat i, i + 9 := 74 + of_nat i,
                           26 + i := 97 + of_nat i, 26 + i + 9 := 106 + of_nat i]) [0..<9] t0;
          t2 = fold (\<lambda>i t. t[i + 18 := 83 + of_nat i, 26 + i + 18 := 115 + of_nat i]) [0..<8] t1;
          t3 = fold (\<lambda>i t. t[52 + i := 48 + of_nat i]) [0..<10] t2
      in t3[62 := 43, 63 := 47])"

text \<open>The first loop stops at index 254, as the code's does.\<close>

definition init_dtable :: "u8 list \<Rightarrow> u8 list" where
  "init_dtable t0 =
     (let t1 = fold (\<lambda>i t. t[i := 0x80]) [0..<255] t0;
          t2 = fold (\<lambda>i t. t[i := 0 + (of_nat i - 65)]) [65..<74] t1;
          t3 = fold (\<lambda>i t. t[i := 9 + (of_nat i - 74)]) [74..<83] t2;
          t4 = fold (\<lambda>i t. t[i := 18 + (of_nat i - 83)]) [83..<91] t3;
          t5 = fold (\<lambda>i t. t[i := 26 + (of_nat i - 97)]) [97..<106] t4;
          t6 = fold (\<lambda>i t. t[i := 35 + (of_nat i - 106)]) [106..<115] t5;
          t7 = fold (\<lambda>i t. t[i := 44 + (of_nat i - 115)]) [115..<123] t6;
          t8 = fold (\<lambda>i t. t[i := 52 + (of_nat i - 48)]) [48..<58] t7
      in t8[43 := 62, 47 := 63, 61 := 0])"

definition b64_init :: "b64_state \<Rightarrow> b64_state" where
  "b64_init st = st\<lparr>g_etable := init_etable (g_etable st),
                   g_dtable := init_dtable (g_dtable st), g_ready := 1\<rparr>"

definition b64_ready :: "b64_state \<Rightarrow> b64_state" where
  "b64_ready st = (if g_ready st = 0 then b64_init st else st)"

section \<open>Encoding\<close>

text \<open>
  The store loop shared by the encoder and the decoder: copy a group to the buffer while
  the index is below the limit.
\<close>

fun put_group :: "nat \<Rightarrow> u8 list \<Rightarrow> nat \<Rightarrow> u8 list \<Rightarrow> (nat \<times> u8 list) cresult" where
  "put_group lim [] j buf = Inr (j, buf)"
| "put_group lim (c # cs) j buf =
     (if j < lim then cbind (aset buf (int j) c) (\<lambda>buf'. put_group lim cs (j + 1) buf')
      else Inr (j, buf))"

text \<open>The three input bytes from index \<open>i\<close> on, missing ones 0, and how many were read.\<close>

definition read_group :: "u8 list \<Rightarrow> nat \<Rightarrow> nat \<Rightarrow> (u8 \<times> u8 \<times> u8 \<times> nat) cresult" where
  "read_group p plen i =
     cbind (aget p (int i)) (\<lambda>g0.
     if i + 1 < plen then
       cbind (aget p (int i + 1)) (\<lambda>g1.
       if i + 2 < plen then cbind (aget p (int i + 2)) (\<lambda>g2. Inr (g0, g1, g2, 3))
       else Inr (g0, g1, 0, 2))
     else Inr (g0, 0, 0, 1))"

lemma read_group_pos: "read_group p plen i = Inr (g0, g1, g2, n) \<Longrightarrow> 0 < n"
  by (auto simp: read_group_def cres split: if_splits)

definition enc_group :: "u8 list \<Rightarrow> u8 \<times> u8 \<times> u8 \<Rightarrow> nat \<Rightarrow> u8 list" where
  "enc_group et = (\<lambda>(g0, g1, g2) n.
     [et ! unat (drop_bit 2 g0),
      et ! unat (push_bit 4 (g0 AND 3) OR drop_bit 4 g1),
      (if n < 2 then 61 else et ! unat (push_bit 2 (g1 AND 0xF) OR drop_bit 6 g2)),
      (if n < 3 then 61 else et ! unat (g2 AND 0x3F))])"

function enc_loop :: "u8 list \<Rightarrow> u8 list \<Rightarrow> nat \<Rightarrow> nat \<Rightarrow> nat \<Rightarrow> nat \<Rightarrow> u8 list \<Rightarrow>
    (nat \<times> u8 list) cresult" where
  "enc_loop et p plen lim i j enc =
     (if i < plen then
        cbind (aget p (int i)) (\<lambda>c.
        if c = 0 then Inr (j, enc)
        else
          cbind (read_group p plen i) (\<lambda>(g0, g1, g2, n).
          cbind (put_group lim (enc_group et (g0, g1, g2) n) j enc) (\<lambda>(j', enc').
          enc_loop et p plen lim (i + n) j' enc')))
      else Inr (j, enc))"
  by pat_completeness auto
termination
  by (relation "measure (\<lambda>(et, p, plen, lim, i, j, enc). plen - i)")
     (auto dest: read_group_pos)

declare enc_loop.simps [simp del]

text \<open>\<open>b64_encode\<close>: the destination buffer afterwards and the module state.\<close>

definition b64_encode :: "u8 list \<Rightarrow> u8 list \<Rightarrow> nat \<Rightarrow> b64_state \<Rightarrow> (u8 list \<times> b64_state) cresult" where
  "b64_encode plain enc nenc st =
     (let st1 = b64_ready st in
      cbind (cstrlen plain) (\<lambda>plen.
      cbind (enc_loop (g_etable st1) plain plen (size_sub nenc 1) 0 0 enc) (\<lambda>(j, enc').
      cbind (aset enc' (int j) 0) (\<lambda>enc''. Inr (enc'', st1)))))"

section \<open>Decoding\<close>

text \<open>
  The inner loop reads up to four characters into \<open>a\<close> and their values into \<open>b\<close>;
  \<open>None\<close> is the \<open>EINVAL\<close> exit.
\<close>

function quad_loop :: "u8 list \<Rightarrow> u8 list \<Rightarrow> nat \<Rightarrow> nat \<Rightarrow> nat \<Rightarrow> u8 list \<Rightarrow> u8 list \<Rightarrow>
    (nat \<times> u8 list \<times> u8 list) option cresult" where
  "quad_loop dt p elen k i a b =
     (if k < 4 \<and> i < elen then
        cbind (aget p (int i)) (\<lambda>c.
        cbind (aget dt (uint c)) (\<lambda>d.
        if d AND 0x80 \<noteq> 0 then Inr None
        else
          cbind (aset a (int k) c) (\<lambda>a'.
          cbind (aset b (int k) d) (\<lambda>b'.
          quad_loop dt p elen (k + 1) (i + 1) a' b'))))
      else Inr (Some (i, a, b)))"
  by pat_completeness auto
termination
  by (relation "measure (\<lambda>(dt, p, elen, k, i, a, b). 4 - k)") auto

declare quad_loop.simps [simp del]

lemma quad_loop_progress:
  "quad_loop dt p elen k i a b = Inr (Some (i', a', b')) \<Longrightarrow>
     i \<le> i' \<and> (k < 4 \<and> i < elen \<longrightarrow> i < i')"
proof (induction dt p elen k i a b arbitrary: i' a' b' rule: quad_loop.induct)
  case (1 dt p elen k i a b)
  show ?case
  proof (cases "k < 4 \<and> i < elen")
    case True
    with "1.prems" obtain c d a1 b1
      where step: "aget p (int i) = Inr c" "aget dt (uint c) = Inr d" "\<not> d AND 0x80 \<noteq> 0"
        "aset a (int k) c = Inr a1" "aset b (int k) d = Inr b1"
      and rest: "quad_loop dt p elen (k + 1) (i + 1) a1 b1 = Inr (Some (i', a', b'))"
      by (subst (asm) quad_loop.simps) (auto simp: cbind_eq_Inr split: if_splits)
    from "1.IH"[OF True step rest] show ?thesis by simp
  next
    case False
    with "1.prems" show ?thesis by (simp add: quad_loop.simps[of dt p elen k])
  qed
qed

definition dec_group :: "u8 list \<Rightarrow> u8 list" where
  "dec_group b =
     [push_bit 2 (b ! 0) OR drop_bit 4 (b ! 1),
      push_bit 4 (b ! 1) OR drop_bit 2 (b ! 2),
      push_bit 6 (b ! 2) OR b ! 3]"

definition group_len :: "u8 list \<Rightarrow> nat" where
  "group_len a = (if a ! 2 = 61 then 1 else if a ! 3 = 61 then 2 else 3)"

function dec_loop :: "u8 list \<Rightarrow> u8 list \<Rightarrow> nat \<Rightarrow> nat \<Rightarrow> nat \<Rightarrow> nat \<Rightarrow> u8 list \<Rightarrow> u8 list \<Rightarrow>
    u8 list \<Rightarrow> (nat option \<times> u8 list) cresult" where
  "dec_loop dt p elen lim i j a b dec =
     (if i < elen \<and> j < lim then
        cbind (quad_loop dt p elen 0 i a b) (\<lambda>r.
        case r of
          None \<Rightarrow> Inr (None, dec)
        | Some (i', a', b') \<Rightarrow>
            cbind (put_group lim (take (group_len a') (dec_group b')) j dec) (\<lambda>(j', dec').
            dec_loop dt p elen lim i' j' a' b' dec'))
      else Inr (Some j, dec))"
  by pat_completeness auto
termination
  by (relation "measure (\<lambda>(dt, p, elen, lim, i, j, a, b, dec). elen - i)")
     (auto dest: quad_loop_progress)

declare dec_loop.simps [simp del]

definition min_decoded_buflen :: "nat \<Rightarrow> nat" where
  "min_decoded_buflen el = size_add (size_mul (size_add (el div 4) 1) 3) 1"

definition min_encoded_buflen :: "nat \<Rightarrow> nat" where
  "min_encoded_buflen l = size_add (size_mul (size_add (l div 3) 1) 4) 1"

text \<open>
  \<open>b64_decode\<close>: whether a result (and not NULL) is returned, \<open>errno\<close>, the destination buffer
  and the module state.
\<close>

definition b64_decode :: "u8 list \<Rightarrow> u8 list \<Rightarrow> nat \<Rightarrow> int \<Rightarrow> b64_state \<Rightarrow>
    (bool \<times> int \<times> u8 list \<times> b64_state) cresult" where
  "b64_decode encoded decoded ndecoded e st =
     (let st1 = b64_ready st in
      cbind (cstrlen encoded) (\<lambda>elen.
      if elen mod 4 \<noteq> 0 \<or> ndecoded < min_decoded_buflen elen
      then Inr (False, EMSGSIZE, decoded, st1)
      else
        cbind (dec_loop (g_dtable st1) encoded elen (size_sub ndecoded 1) 0 0
                 (replicate 4 0) (replicate 4 0) decoded) (\<lambda>(r, dec').
        case r of
          None \<Rightarrow> Inr (False, EINVAL, dec', st1)
        | Some j \<Rightarrow> cbind (aset dec' (int j) 0) (\<lambda>dec''. Inr (True, e, dec'', st1)))))"

section \<open>The allocating wrappers\<close>

text \<open>
  The argument is \<open>None\<close> for NULL; \<open>ok\<close> is the allocator's answer and \<open>fill\<close> the
  indeterminate bytes of the fresh block.  The result is \<open>None\<close> for NULL.
\<close>

definition malloc_block :: "bool \<Rightarrow> u8 \<Rightarrow> nat \<Rightarrow> u8 list option" where
  "malloc_block ok fill n = (if ok \<and> n < 2 ^ 63 then Some (replicate n fill) else None)"

definition new_b64_encoded :: "bool \<Rightarrow> u8 \<Rightarrow> u8 list option \<Rightarrow> b64_state \<Rightarrow>
    (u8 list option \<times> b64_state) cresult" where
  "new_b64_encoded ok fill plain st =
     (case plain of
        None \<Rightarrow> Inr (None, st)
      | Some p \<Rightarrow>
          cbind (cstrlen p) (\<lambda>len.
          if len < 1 then Inr (None, st)
          else case malloc_block ok fill (min_encoded_buflen len) of
            None \<Rightarrow> Inr (None, st)
          | Some buf \<Rightarrow> cbind (b64_encode p buf (min_encoded_buflen len) st) (\<lambda>(r, st').
              Inr (Some r, st'))))"

text \<open>As written in the source, this one calls the encoder.\<close>

definition new_b64_decoded :: "bool \<Rightarrow> u8 \<Rightarrow> u8 list option \<Rightarrow> b64_state \<Rightarrow>
    (u8 list option \<times> b64_state) cresult" where
  "new_b64_decoded ok fill encoded st =
     (case encoded of
        None \<Rightarrow> Inr (None, st)
      | Some p \<Rightarrow>
          cbind (cstrlen p) (\<lambda>len.
          if len < 1 then Inr (None, st)
          else case malloc_block ok fill (min_decoded_buflen len) of
            None \<Rightarrow> Inr (None, st)
          | Some buf \<Rightarrow> cbind (b64_encode p buf (min_decoded_buflen len) st) (\<lambda>(r, st').
              Inr (Some r, st'))))"

section \<open>The tables after initialisation\<close>

definition b64_alphabet :: "u8 list" where
  "b64_alphabet = map of_char
     ''ABCDEFGHIJKLMNOPQRSTUVWXYZabcdefghijklmnopqrstuvwxyz0123456789+/''"

definition b64_values :: "u8 list" where
  "b64_values = init_dtable (replicate 256 0)"

text \<open>
  The characters of base64 text are the alphabet and the pad. The decoder accepts one more,
  byte 255: the loop of \<open>init_dtable\<close> that marks the others as invalid stops before index 255.
\<close>

definition b64_char :: "u8 \<Rightarrow> bool" where
  "b64_char c \<longleftrightarrow> c \<in> set b64_alphabet \<or> c = 61"

definition b64_valid :: "u8 \<Rightarrow> bool" where
  "b64_valid c \<longleftrightarrow> b64_char c \<or> c = 255"

lemma b64_alphabet_eq [code]: "b64_alphabet = [
     65, 66, 67, 68, 69, 70, 71, 72, 73, 74, 75, 76, 77, 78, 79, 80, 81, 82, 83, 84,
     85, 86, 87, 88, 89, 90, 97, 98, 99, 100, 101, 102, 103, 104, 105, 106, 107, 108,
     109, 110, 111, 112, 113, 114, 115, 116, 117, 118, 119, 120, 121, 122, 48, 49, 50,
     51, 52, 53, 54, 55, 56, 57, 43, 47]"
  by (simp add: b64_alphabet_def)

lemma b64_values_eq [code]: "b64_values = [
     128, 128, 128, 128, 128, 128, 128, 128, 128, 128, 128, 128, 128, 128, 128, 128,
     128, 128, 128, 128, 128, 128, 128, 128, 128, 128, 128, 128, 128, 128, 128, 128,
     128, 128, 128, 128, 128, 128, 128, 128, 128, 128, 128, 62, 128, 128, 128, 63, 52,
     53, 54, 55, 56, 57, 58, 59, 60, 61, 128, 128, 128, 0, 128, 128, 128, 0, 1, 2, 3,
     4, 5, 6, 7, 8, 9, 10, 11, 12, 13, 14, 15, 16, 17, 18, 19, 20, 21, 22, 23, 24, 25,
     128, 128, 128, 128, 128, 128, 26, 27, 28, 29, 30, 31, 32, 33, 34, 35, 36, 37, 38,
     39, 40, 41, 42, 43, 44, 45, 46, 47, 48, 49, 50, 51, 128, 128, 128, 128, 128, 128,
     128, 128, 128, 128, 128, 128, 128, 128, 128, 128, 128, 128, 128, 128, 128, 128,
     128, 128, 128, 128, 128, 128, 128, 128, 128, 128, 128, 128, 128, 128, 128, 128,
     128, 128, 128, 128, 128, 128, 128, 128, 128, 128, 128, 128, 128, 128, 128, 128,
     128, 128, 128, 128, 128, 128, 128, 128, 128, 128, 128, 128, 128, 128, 128, 128,
     128, 128, 128, 128, 128, 128, 128, 128, 128, 128, 128, 128, 128, 128, 128, 128,
     128, 128, 128, 128, 128, 128, 128, 128, 128, 128, 128, 128, 128, 128, 128, 128,
     128, 128, 128, 128, 128, 128, 128, 128, 128, 128, 128, 128, 128, 128, 128, 128,
     128, 128, 128, 128, 128, 128, 128, 128, 128, 128, 128, 128, 128, 128, 0]"
  unfolding b64_values_def by code_simp

lemma init_etable_start: "init_etable (replicate 64 0) = b64_alphabet"
  by code_simp

lemma init_etable_again: "init_etable b64_alphabet = b64_alphabet"
  by code_simp

lemma init_dtable_again: "init_dtable b64_values = b64_values"
  by code_simp

lemma unat_u8_less [simp]: "unat (c :: u8) < 256"
  using unsigned_less[of c] by simp

lemma u8_range:
  fixes c :: u8
  assumes "a \<le> b" and "b < 256"
  shows "c \<in> of_nat ` {a..b} \<longleftrightarrow> of_nat a \<le> c \<and> c \<le> of_nat b"
proof -
  have "unat (of_nat n :: u8) = n" if "n \<le> b" for n using that assms(2) by (simp add: unat_of_nat)
  then show ?thesis
    using assms(1) by (force simp: word_le_nat_alt image_iff intro: bexI[of _ "unat c"])
qed

lemma b64_alphabet_ranges:
  "b64_alphabet = map of_nat ([65..<91] @ [97..<123] @ [48..<58]) @ [43, 47]"
  by code_simp

lemma b64_valid_range: "b64_valid c \<longleftrightarrow> 65 \<le> c \<and> c \<le> 90 \<or> 97 \<le> c \<and> c \<le> 122
    \<or> 48 \<le> c \<and> c \<le> 57 \<or> c = 43 \<or> c = 47 \<or> c = 61 \<or> c = 255"
proof -
  have "{65..<91} = {65..90 :: nat}" "{97..<123} = {97..122 :: nat}" "{48..<58} = {48..57 :: nat}"
    by auto
  then have "set b64_alphabet = of_nat ` {65..90} \<union> of_nat ` {97..122} \<union> of_nat ` {48..57} \<union> {43, 47}"
    by (simp only: b64_alphabet_ranges set_append set_map set_upt image_Un) auto
  then show ?thesis
    using u8_range[of 65 90 c] u8_range[of 97 122 c] u8_range[of 48 57 c]
    by (simp add: b64_valid_def b64_char_def disj_ac)
qed

lemma b64_values_sound:
  "list_all2 (\<lambda>n v. (v AND 0x80 = 0) = b64_valid (of_nat n)) [0..<256] b64_values"
  unfolding b64_valid_range by code_simp

lemma b64_values_inverse: "map (\<lambda>c. b64_values ! unat c) b64_alphabet = map of_nat [0..<64]"
  by code_simp

lemma length_b64_values [simp]: "length b64_values = 256"
  by code_simp

lemma length_b64_alphabet [simp]: "length b64_alphabet = 64"
  by (simp add: b64_alphabet_def)

lemma b64_alphabet_chars: "list_all (\<lambda>c. c \<noteq> 0 \<and> c \<noteq> 61 \<and> b64_valid c) b64_alphabet"
  unfolding b64_valid_range by code_simp

text \<open>The states the module can be in: fresh, or initialised.\<close>

definition b64_inv :: "b64_state \<Rightarrow> bool" where
  "b64_inv st \<longleftrightarrow> st = b64_start \<or>
     st = \<lparr>g_etable = b64_alphabet, g_dtable = b64_values, g_ready = 1\<rparr>"

lemma b64_ready_inv [simp]:
  "b64_inv st \<Longrightarrow> b64_ready st = \<lparr>g_etable = b64_alphabet, g_dtable = b64_values, g_ready = 1\<rparr>"
  by (auto simp: b64_inv_def b64_ready_def b64_init_def b64_start_def init_etable_start
        b64_values_def)

lemma b64_values_valid: "b64_values ! unat c AND 0x80 = 0 \<longleftrightarrow> b64_valid c"
  using list_all2_nthD[OF b64_values_sound, of "unat c"] by simp

lemma b64_values_alphabet: "k < 64 \<Longrightarrow> b64_values ! unat (b64_alphabet ! k) = of_nat k"
  using arg_cong[OF b64_values_inverse, of "\<lambda>l. l ! k"] by simp

lemma b64_alphabet_nth: "k < 64 \<Longrightarrow> b64_alphabet ! k \<noteq> 0 \<and> b64_alphabet ! k \<noteq> 61 \<and>
    b64_valid (b64_alphabet ! k)"
  using b64_alphabet_chars by (auto simp: list_all_length)

section \<open>What base64 text is\<close>

text \<open>
  Three bytes are a 24-bit number, written as four digits in base 64; a last group of one or
  two bytes is padded with \<open>=\<close>.
\<close>

definition b64_digits :: "u8 \<Rightarrow> u8 \<Rightarrow> u8 \<Rightarrow> nat list" where
  "b64_digits a b c = (let n = unat a * 65536 + unat b * 256 + unat c
     in map (\<lambda>k. n div 64 ^ k mod 64) [3, 2, 1, 0])"

definition b64_quad :: "u8 \<Rightarrow> u8 \<Rightarrow> u8 \<Rightarrow> u8 list" where
  "b64_quad a b c = map (\<lambda>d. b64_alphabet ! d) (b64_digits a b c)"

fun b64_text :: "u8 list \<Rightarrow> u8 list" where
  "b64_text [] = []"
| "b64_text [a] = take 2 (b64_quad a 0 0) @ [61, 61]"
| "b64_text [a, b] = take 3 (b64_quad a b 0) @ [61]"
| "b64_text (a # b # c # r) = b64_quad a b c @ b64_text r"

text \<open>
  Read backwards: a character stands for its position in the alphabet (the pad, and any other
  character, for 0), four characters are four digits in base 64 of a 24-bit number, and its
  three digits in base 256 are the bytes. A pad in the third place leaves one byte of a quad,
  a pad in the fourth place two.
\<close>

definition b64_digit_value :: "u8 \<Rightarrow> nat" where
  "b64_digit_value c =
     (if c \<in> set b64_alphabet then length (takeWhile (\<lambda>x. x \<noteq> c) b64_alphabet) else 0)"

definition b64_bytes :: "u8 list \<Rightarrow> u8 list" where
  "b64_bytes q = (let n = foldl (\<lambda>n c. n * 64 + b64_digit_value c) 0 q
     in map (\<lambda>k. of_nat (n div 256 ^ k mod 256)) [2, 1, 0])"

fun b64_plain :: "u8 list \<Rightarrow> u8 list" where
  "b64_plain (c0 # c1 # c2 # c3 # r) =
     take (if c2 = 61 then 1 else if c3 = 61 then 2 else 3) (b64_bytes [c0, c1, c2, c3])
       @ b64_plain r"
| "b64_plain _ = []"

text \<open>What the loop of the decoder computes, by its own shifts and table.\<close>

fun dec_text :: "u8 list \<Rightarrow> u8 list" where
  "dec_text (c0 # c1 # c2 # c3 # r) =
     take (group_len [c0, c1, c2, c3])
       (dec_group (map (\<lambda>c. b64_values ! unat c) [c0, c1, c2, c3])) @ dec_text r"
| "dec_text _ = []"

lemma length_b64_text: "length (b64_text s) = (length s + 2) div 3 * 4"
proof (induction s rule: b64_text.induct)
  case (4 a b c r)
  have "(length r + 5) div 3 = Suc ((length r + 2) div 3)" by presburger
  with 4 show ?case by (simp add: b64_quad_def b64_digits_def Let_def add.commute)
qed (auto simp: b64_quad_def b64_digits_def Let_def)

text \<open>The shifts and masks of the encoder are these digits.\<close>

lemma nat_push_or:
  assumes "v < 2 ^ n"
  shows "push_bit n u OR v = u * 2 ^ n + (v :: nat)"
proof -
  have "take_bit n v = v" using assms by (simp add: take_bit_nat_eq_self)
  then have "bit v i \<Longrightarrow> i < n" for i by (metis bit_take_bit_iff)
  then have "push_bit n u AND v = 0"
    by (fastforce simp: bit_eq_iff bit_simps)
  then show ?thesis by (simp add: disjunctive_add_eq_or[symmetric] push_bit_eq_mult)
qed

lemma digit_arith:
  fixes a b c :: nat
  assumes "a < 256" "b < 256" "c < 256"
  shows "(a * 65536 + b * 256 + c) div 262144 mod 64 = a div 4"
    "(a * 65536 + b * 256 + c) div 4096 mod 64 = (a mod 4) * 16 + b div 16"
    "(a * 65536 + b * 256 + c) div 64 mod 64 = (b mod 16) * 4 + c div 64"
    "(a * 65536 + b * 256 + c) mod 64 = c mod 64"
proof -
  define a1 a0 b1 b0 c1 c0 where "a1 = a div 4" "a0 = a mod 4" "b1 = b div 16" "b0 = b mod 16"
    "c1 = c div 64" "c0 = c mod 64"
  have a: "a = a1 * 4 + a0" and b: "b = b1 * 16 + b0" and c: "c = c1 * 64 + c0"
    by (simp_all add: a1_a0_b1_b0_c1_c0_def)
  have n: "a * 65536 + b * 256 + c
      = ((a1 * 64 + (a0 * 16 + b1)) * 64 + (b0 * 4 + c1)) * 64 + c0"
    by (simp add: a b c)
  have l: "a1 < 64" "a0 < 4" "b1 < 16" "b0 < 16" "c1 < 4" "c0 < 64"
    using assms by (auto simp: a1_a0_b1_b0_c1_c0_def)
  have q: "(x * 64 + r) div 64 = x" "(x * 64 + r) mod 64 = r" if "r < 64" for x r :: nat
    using that by auto
  have d: "m div 262144 = m div 64 div 64 div 64" "m div 4096 = m div 64 div 64" for m :: nat
    by (simp_all add: div_mult2_eq[symmetric])
  have l': "a0 * 16 + b1 < 64" "b0 * 4 + c1 < 64" using l by linarith+
  show "(a * 65536 + b * 256 + c) div 262144 mod 64 = a div 4"
    "(a * 65536 + b * 256 + c) div 4096 mod 64 = (a mod 4) * 16 + b div 16"
    "(a * 65536 + b * 256 + c) div 64 mod 64 = (b mod 16) * 4 + c div 64"
    "(a * 65536 + b * 256 + c) mod 64 = c mod 64"
    unfolding n d q(1)[OF l(6)] q(2)[OF l(6)] q(1)[OF l'(2)] q(2)[OF l'(2)] q(1)[OF l'(1)]
      q(2)[OF l'(1)]
    using l by (simp_all add: a1_a0_b1_b0_c1_c0_def)
qed

lemma sextet_unat:
  fixes a b c :: u8
  shows "unat (drop_bit 2 a) = unat a div 4"
    "unat (push_bit 4 (a AND 3) OR drop_bit 4 b) = (unat a mod 4) * 16 + unat b div 16"
    "unat (push_bit 2 (b AND 0xF) OR drop_bit 6 c) = (unat b mod 16) * 4 + unat c div 64"
    "unat (c AND 0x3F) = unat c mod 64"
proof -
  have m: "unat (a AND 3) = unat a mod 4" "unat (b AND 0xF) = unat b mod 16"
    "unat (c AND 0x3F) = unat c mod 64"
    using take_bit_eq_mask[of 2 "unat a"] take_bit_eq_mask[of 4 "unat b"]
      take_bit_eq_mask[of 6 "unat c"]
    by (simp_all add: unsigned_and_eq take_bit_eq_mod mask_eq_exp_minus_1)
  then show "unat (c AND 0x3F) = unat c mod 64" by simp
  have p: "unat (push_bit 4 (a AND 3)) = push_bit 4 (unat a mod 4)"
    "unat (push_bit 2 (b AND 0xF)) = push_bit 2 (unat b mod 16)"
    using mod_less_divisor[of 4 "unat a"] mod_less_divisor[of 16 "unat b"]
    by (simp_all only: unsigned_push_bit_eq m)
       (simp_all add: push_bit_eq_mult take_bit_nat_eq_self)
  have d: "unat (drop_bit 4 b) = unat b div 16" "unat (drop_bit 6 c) = unat c div 64"
    unfolding unat_drop_bit_eq by (simp_all add: drop_bit_eq_div)
  have l: "unat b div 16 < 2 ^ 4" "unat c div 64 < 2 ^ 2"
    using unat_u8_less[of b] unat_u8_less[of c] by (simp_all add: less_mult_imp_div_less)
  show "unat (drop_bit 2 a) = unat a div 4"
    unfolding unat_drop_bit_eq by (simp add: drop_bit_eq_div)
  show "unat (push_bit 4 (a AND 3) OR drop_bit 4 b) = (unat a mod 4) * 16 + unat b div 16"
    using nat_push_or[OF l(1)] by (simp only: unsigned_or_eq p d) simp
  show "unat (push_bit 2 (b AND 0xF) OR drop_bit 6 c) = (unat b mod 16) * 4 + unat c div 64"
    using nat_push_or[OF l(2)] by (simp only: unsigned_or_eq p d) simp
qed

text \<open>The byte operations of the decoder undo those of the encoder.\<close>

lemma bit_u8_less: "bit (w :: u8) n \<Longrightarrow> n < 8"
  using bit_imp_le_length[of w n] by simp

lemma and_mask_take:
  fixes w :: u8
  shows "w AND 3 = take_bit 2 w" "w AND 0xF = take_bit 4 w" "w AND 0x3F = take_bit 6 w"
  using take_bit_eq_mask[of 2 w] take_bit_eq_mask[of 4 w] take_bit_eq_mask[of 6 w]
  by (simp_all add: mask_eq_exp_minus_1)

lemma plus_minus_if: "k + (n - k) = (if n < k then k else n)" for k n :: nat
  by simp

lemmas join_bits = bit_simps not_less plus_minus_if

lemma sextet_join:
  fixes a b c :: u8
  defines "s1 \<equiv> push_bit 4 (a AND 3) OR drop_bit 4 b"
    and "s2 \<equiv> push_bit 2 (b AND 0xF) OR drop_bit 6 c"
  shows "push_bit 2 (drop_bit 2 a) OR drop_bit 4 s1 = a"
    "push_bit 4 s1 OR drop_bit 2 s2 = b" "push_bit 6 s2 OR (c AND 0x3F) = c"
proof -
  show "push_bit 2 (drop_bit 2 a) OR drop_bit 4 s1 = a" unfolding assms and_mask_take
    by (rule bit_word_eqI) (auto simp: join_bits dest: bit_u8_less simp del: add_2_eq_Suc)
  show "push_bit 4 s1 OR drop_bit 2 s2 = b" unfolding assms and_mask_take
    by (rule bit_word_eqI) (auto simp: join_bits dest: bit_u8_less simp del: add_2_eq_Suc)
  show "push_bit 6 s2 OR (c AND 0x3F) = c" unfolding assms and_mask_take
    by (rule bit_word_eqI) (auto simp: join_bits dest: bit_u8_less simp del: add_2_eq_Suc)
qed

text \<open>The shifts of the decoder are the digits in base 256 of the number its quad stands for.\<close>

lemma byte_arith:
  fixes v0 v1 v2 v3 :: nat
  assumes "v0 < 64" "v1 < 64" "v2 < 64" "v3 < 64"
  defines "n \<equiv> ((v0 * 64 + v1) * 64 + v2) * 64 + v3"
  shows "n div 65536 mod 256 = v0 * 4 + v1 div 16"
    "n div 256 mod 256 = (v1 mod 16) * 16 + v2 div 4"
    "n mod 256 = (v2 mod 4) * 64 + v3"
proof -
  define x y z where "x = v0 * 4 + v1 div 16" "y = (v1 mod 16) * 16 + v2 div 4"
    "z = (v2 mod 4) * 64 + v3"
  have e: "p * 16 + q = m \<Longrightarrow> m * 4096 = p * 65536 + q * 4096"
    "p * 4 + q = m \<Longrightarrow> m * 64 = p * 256 + q * 64" for p q m :: nat
    by auto
  have "v1 * 4096 = v1 div 16 * 65536 + v1 mod 16 * 4096" "v2 * 64 = v2 div 4 * 256 + v2 mod 4 * 64"
    by (rule e(1)[OF div_mult_mod_eq], rule e(2)[OF div_mult_mod_eq])
  then have n: "n = (x * 256 + y) * 256 + z"
    unfolding n_def x_y_z_def by (simp add: algebra_simps)
  have l: "x < 256" "y < 256" "z < 256" using assms by (auto simp: x_y_z_def)
  have q: "(m * 256 + r) div 256 = m" "(m * 256 + r) mod 256 = r" if "r < 256" for m r :: nat
    using that by auto
  have d: "m div 65536 = m div 256 div 256" for m :: nat by (simp add: div_mult2_eq[symmetric])
  show "n div 65536 mod 256 = v0 * 4 + v1 div 16"
    "n div 256 mod 256 = (v1 mod 16) * 16 + v2 div 4"
    "n mod 256 = (v2 mod 4) * 64 + v3"
    using l(1) unfolding n d q(1)[OF l(3)] q(2)[OF l(3)] q(1)[OF l(2)] q(2)[OF l(2)]
    by (simp_all only: mod_less) (simp_all only: x_y_z_def)
qed

lemma byte_unat:
  fixes s0 s1 s2 s3 :: u8
  assumes "unat s0 < 64" "unat s1 < 64" "unat s2 < 64" "unat s3 < 64"
  shows "unat (push_bit 2 s0 OR drop_bit 4 s1) = unat s0 * 4 + unat s1 div 16"
    "unat (push_bit 4 s1 OR drop_bit 2 s2) = (unat s1 mod 16) * 16 + unat s2 div 4"
    "unat (push_bit 6 s2 OR s3) = (unat s2 mod 4) * 64 + unat s3"
proof -
  have p: "unat (push_bit 2 s0) = push_bit 2 (unat s0)"
    "unat (push_bit 4 s1) = push_bit 4 (unat s1 mod 16)"
    "unat (push_bit 6 s2) = push_bit 6 (unat s2 mod 4)"
    unfolding unsigned_push_bit_eq
    using assms(1) mult_mod_right[of 16 "unat s1" 16] mult_mod_right[of 64 "unat s2" 4]
    by (simp_all add: take_bit_eq_mod push_bit_eq_mult mult.commute)
  have d: "unat (drop_bit 4 s1) = unat s1 div 16" "unat (drop_bit 2 s2) = unat s2 div 4"
    unfolding unat_drop_bit_eq by (simp_all add: drop_bit_eq_div)
  have l: "unat s1 div 16 < 2 ^ 2" "unat s2 div 4 < 2 ^ 4" "unat s3 < 2 ^ 6"
    using assms by auto
  show "unat (push_bit 2 s0 OR drop_bit 4 s1) = unat s0 * 4 + unat s1 div 16"
    "unat (push_bit 4 s1 OR drop_bit 2 s2) = (unat s1 mod 16) * 16 + unat s2 div 4"
    "unat (push_bit 6 s2 OR s3) = (unat s2 mod 4) * 64 + unat s3"
    using nat_push_or[OF l(1)] nat_push_or[OF l(2)] nat_push_or[OF l(3)]
    by (simp_all only: unsigned_or_eq p d) simp_all
qed

lemma takeWhile_nth_distinct:
  "distinct xs \<Longrightarrow> k < length xs \<Longrightarrow> length (takeWhile (\<lambda>x. x \<noteq> xs ! k) xs) = k"
  by (subst takeWhile_eq_take_P_nth[of k]) (auto simp: nth_eq_iff_index_eq)

lemma distinct_b64_alphabet: "distinct b64_alphabet"
proof -
  have "inj_on (of_nat :: nat \<Rightarrow> u8) (set [0..<64])"
    by (rule inj_on_inverseI[where g = unat]) (simp add: unat_of_nat)
  then have "distinct (map (\<lambda>c. b64_values ! unat c) b64_alphabet)"
    by (simp only: b64_values_inverse distinct_map distinct_upt simp_thms)
  then show ?thesis by (simp only: distinct_map)
qed

lemma b64_digit_values:
  assumes "b64_valid c"
  shows "b64_values ! unat c = of_nat (b64_digit_value c)"
    and "unat (b64_values ! unat c) = b64_digit_value c" and "b64_digit_value c < 64"
proof -
  have "b64_values ! unat c = of_nat (b64_digit_value c) \<and> b64_digit_value c < 64"
  proof (cases "c \<in> set b64_alphabet")
    case True
    then obtain k where k: "k < 64" and c: "c = b64_alphabet ! k"
      by (auto simp: in_set_conv_nth)
    then have "b64_digit_value c = k"
      using takeWhile_nth_distinct[OF distinct_b64_alphabet, of k] by (simp add: b64_digit_value_def)
    then show ?thesis using k by (simp add: c b64_values_alphabet)
  next
    case False
    then have "c = 61 \<or> c = 255" using assms by (simp add: b64_valid_def b64_char_def)
    then show ?thesis using False by (auto simp: b64_digit_value_def b64_values_eq)
  qed
  then show 1: "b64_values ! unat c = of_nat (b64_digit_value c)"
    and 2: "b64_digit_value c < 64" by simp_all
  show "unat (b64_values ! unat c) = b64_digit_value c"
    using 2 by (simp add: 1 unat_of_nat)
qed

lemma b64_bytes_digits:
  fixes c0 c1 c2 c3 :: u8
  defines "n \<equiv> ((b64_digit_value c0 * 64 + b64_digit_value c1) * 64 + b64_digit_value c2) * 64
      + b64_digit_value c3"
  shows "b64_bytes [c0, c1, c2, c3]
    = [of_nat (n div 65536 mod 256), of_nat (n div 256 mod 256), of_nat (n mod 256)]"
  by (simp add: b64_bytes_def n_def Let_def)

lemma dec_group_bytes:
  assumes "b64_valid c0" "b64_valid c1" "b64_valid c2" "b64_valid c3"
  shows "dec_group (map (\<lambda>c. b64_values ! unat c) [c0, c1, c2, c3]) = b64_bytes [c0, c1, c2, c3]"
proof -
  note v = assms[THEN b64_digit_values(2)] and l = assms[THEN b64_digit_values(3)]
  have w: "x = of_nat m" if "unat x = m" for x :: u8 and m using that by force
  note u = byte_unat[of "b64_values ! unat c0" "b64_values ! unat c1" "b64_values ! unat c2"
      "b64_values ! unat c3", unfolded v, OF l, THEN w]
  have g: "dec_group [x0, x1, x2, x3] = [push_bit 2 x0 OR drop_bit 4 x1,
      push_bit 4 x1 OR drop_bit 2 x2, push_bit 6 x2 OR x3]" for x0 x1 x2 x3
    by (simp add: dec_group_def)
  show ?thesis
    by (simp only: list.map g u b64_bytes_digits byte_arith[OF l])
qed

lemma dec_text_plain: "\<forall>c \<in> set t. b64_valid c \<Longrightarrow> dec_text t = b64_plain t"
  by (induction t rule: b64_plain.induct)
    (simp_all only: dec_text.simps b64_plain.simps list.set ball_simps dec_group_bytes
      simp_thms insert_iff, simp_all add: dec_group_bytes group_len_def)

end
