(* ===== verification/Base64_Correct.thy ===== *)
theory Base64_Correct
  imports Base64
begin

unbundle bit_operations_syntax

text \<open>
  Correctness of base64/b64.c: what the encoding loop leaves in its buffer, what the decoding
  loop accepts and leaves, and the properties of the component.
\<close>

section \<open>Buffers\<close>

text \<open>A buffer after a text has been written at its start, cut at \<open>lim\<close> bytes.\<close>

definition emit :: "nat \<Rightarrow> u8 list \<Rightarrow> u8 list \<Rightarrow> u8 list" where
  "emit lim w buf = take lim w @ drop (min (length w) lim) buf"

lemma emit_Nil [simp]: "emit lim [] buf = buf"
  by (simp add: emit_def)

lemma length_emit [simp]: "lim \<le> length buf \<Longrightarrow> length (emit lim w buf) = length buf"
  by (simp add: emit_def)

lemma emit_full: "lim \<le> length w \<Longrightarrow> emit lim (w @ v) buf = emit lim w buf"
  by (simp add: emit_def)

lemma emit_store:
  assumes "length w < lim" and "lim \<le> length buf"
  shows "(emit lim w buf)[length w := c] = emit lim (w @ [c]) buf"
  using assms by (simp add: emit_def list_update_append upd_conv_take_nth_drop
      Suc_diff_le Cons_nth_drop_Suc min_absorb1)

lemma put_group_emit:
  assumes "lim \<le> length buf"
  shows "put_group lim os (min (length w) lim) (emit lim w buf)
       = Inr (min (length (w @ os)) lim, emit lim (w @ os) buf)"
proof (induction os arbitrary: w)
  case Nil
  then show ?case by simp
next
  case (Cons c os)
  show ?case
  proof (cases "length w < lim")
    case True
    then have "aset (emit lim w buf) (int (length w)) c = Inr (emit lim (w @ [c]) buf)"
      using assms by (simp add: emit_store)
    then show ?thesis
      using True Cons.IH[of "w @ [c]"] by (simp add: min_absorb1)
  next
    case False
    then show ?thesis using emit_full[of lim w "c # os" buf] by (simp add: min_def)
  qed
qed

section \<open>The encoder\<close>

lemma enc_group_digits:
  "enc_group b64_alphabet (a, b, c) 3 = b64_quad a b c"
  "enc_group b64_alphabet (a, b, 0) 2 = take 3 (b64_quad a b 0) @ [61]"
  "enc_group b64_alphabet (a, 0, 0) (Suc 0) = take 2 (b64_quad a 0 0) @ [61, 61]"
proof -
  note d = digit_arith[OF unat_u8_less unat_u8_less unat_u8_less]
  have q: "b64_quad a b c = [b64_alphabet ! unat (drop_bit 2 a),
      b64_alphabet ! unat (push_bit 4 (a AND 3) OR drop_bit 4 b),
      b64_alphabet ! unat (push_bit 2 (b AND 0xF) OR drop_bit 6 c),
      b64_alphabet ! unat (c AND 0x3F)]" for a b c
    unfolding b64_quad_def b64_digits_def Let_def sextet_unat
    using d[of a b c] by simp
  show "enc_group b64_alphabet (a, b, c) 3 = b64_quad a b c"
    "enc_group b64_alphabet (a, b, 0) 2 = take 3 (b64_quad a b 0) @ [61]"
    "enc_group b64_alphabet (a, 0, 0) (Suc 0) = take 2 (b64_quad a 0 0) @ [61, 61]"
    by (simp_all add: q enc_group_def)
qed

lemma enc_loop_step:
  assumes "lim \<le> length buf" and "i < plen" and "aget p (int i) = Inr g" and "g \<noteq> 0"
    and "read_group p plen i = Inr (g0, g1, g2, n)"
  shows "enc_loop et p plen lim i (min (length w) lim) (emit lim w buf)
       = enc_loop et p plen lim (i + n) (min (length (w @ enc_group et (g0, g1, g2) n)) lim)
           (emit lim (w @ enc_group et (g0, g1, g2) n) buf)"
  using assms put_group_emit[OF assms(1)] by (subst enc_loop.simps) simp

lemma enc_loop_text:
  assumes "lim \<le> length buf"
  shows "0 \<notin> set v \<Longrightarrow>
    enc_loop b64_alphabet (u @ v @ 0 # r) (length u + length v) lim (length u)
        (min (length w) lim) (emit lim w buf)
      = Inr (min (length (w @ b64_text v)) lim, emit lim (w @ b64_text v) buf)"
proof (induction v arbitrary: u w rule: b64_text.induct)
  case 1
  then show ?case by (subst enc_loop.simps) simp
next
  case (2 a)
  then have "read_group (u @ [a] @ 0 # r) (length u + length [a]) (length u) = Inr (a, 0, 0, 1)"
    by (simp add: read_group_def nth_append)
  from enc_loop_step[OF assms _ _ _ this, of a b64_alphabet w] 2 show ?case
    by (simp add: nth_append enc_group_digits enc_loop.simps[of _ _ _ _ "Suc _"])
next
  case (3 a b)
  then have "read_group (u @ [a, b] @ 0 # r) (length u + length [a, b]) (length u)
      = Inr (a, b, 0, 2)"
    by (simp add: read_group_def nth_append)
  from enc_loop_step[OF assms _ _ _ this, of a b64_alphabet w] 3 show ?case
    by (simp add: nth_append enc_group_digits enc_loop.simps[of _ _ _ _ "Suc _"])
next
  case (4 a b c v)
  let ?p = "u @ (a # b # c # v) @ 0 # r" and ?n = "length u + length (a # b # c # v)"
  have "read_group ?p ?n (length u) = Inr (a, b, c, 3)"
    by (simp add: read_group_def nth_append)
  from enc_loop_step[OF assms _ _ _ this, of a b64_alphabet w] 4(2)
  have "enc_loop b64_alphabet ?p ?n lim (length u) (min (length w) lim) (emit lim w buf)
      = enc_loop b64_alphabet ?p ?n lim (length u + 3)
          (min (length (w @ b64_quad a b c)) lim) (emit lim (w @ b64_quad a b c) buf)"
    by (simp add: nth_append enc_group_digits)
  with 4(1)[of "u @ [a, b, c]" "w @ b64_quad a b c"] 4(2) show ?case
    by (simp add: add.commute add.left_commute numeral_3_eq_3)
qed

lemma b64_encode_text:
  assumes "b64_inv st" and "0 \<notin> set s" and "1 \<le> nenc" and "nenc \<le> length enc"
    and "nenc < 2 ^ 64"
  shows "b64_encode (s @ 0 # r) enc nenc st = Inr (take (nenc - 1) (b64_text s) @ 0 #
      drop (min (length (b64_text s)) (nenc - 1) + 1) enc, b64_ready st)"
proof -
  define j where "j = min (length (b64_text s)) (nenc - 1)"
  have run: "enc_loop b64_alphabet (s @ 0 # r) (length s) (nenc - 1) 0 0 enc
      = Inr (j, emit (nenc - 1) (b64_text s) enc)"
    using enc_loop_text[OF _ assms(2), of "nenc - 1" enc "[]" r "[]"] assms
    by (simp add: j_def)
  have "j < length enc" using assms by (simp add: j_def)
  moreover have "length (take (nenc - 1) (b64_text s)) = j" by (simp add: j_def)
  ultimately have "(emit (nenc - 1) (b64_text s) enc)[j := 0]
      = take (nenc - 1) (b64_text s) @ 0 # drop (j + 1) enc"
    unfolding emit_def by (simp add: list_update_append upd_conv_take_nth_drop
        Cons_nth_drop_Suc flip: j_def)
  with run assms show ?thesis
    by (simp add: b64_encode_def j_def)
qed

section \<open>The decoder\<close>

abbreviation val :: "u8 \<Rightarrow> u8" where
  "val c \<equiv> b64_values ! unat c"

lemma len4: "length a = 4 \<Longrightarrow> \<exists>a0 a1 a2 a3. a = [a0, a1, a2, a3]"
  by (auto simp: length_Suc_conv numeral_eq_Suc)

lemma quad_loop_quad:
  assumes "length a = 4" and "length b = 4"
    and p: "p = u @ c0 # c1 # c2 # c3 # t" and "length u + 4 \<le> elen"
  shows "quad_loop b64_values p elen 0 (length u) a b =
    (if b64_valid c0 \<and> b64_valid c1 \<and> b64_valid c2 \<and> b64_valid c3
     then Inr (Some (length u + 4, [c0, c1, c2, c3], map val [c0, c1, c2, c3]))
     else Inr None)"
proof -
  obtain a0 a1 a2 a3 b0 b1 b2 b3 where ab: "a = [a0, a1, a2, a3]" "b = [b0, b1, b2, b3]"
    using len4[OF assms(1)] len4[OF assms(2)] by auto
  have nth: "aget p (int (length u)) = Inr c0" "aget p (int (length u + 1)) = Inr c1"
    "aget p (int (length u + 2)) = Inr c2" "aget p (int (length u + 3)) = Inr c3"
    unfolding p by (simp_all add: aget_def nth_append nat_add_distrib)
  have v: "aget b64_values (uint c) = Inr (val c)" for c
    by (simp add: aget_def)
  note step = quad_loop.simps[of b64_values p elen]
  have 4: "quad_loop b64_values p elen 4 i x y = Inr (Some (i, x, y))" for i x y
    by (simp add: quad_loop.simps)
  have lt: "length u + 3 < elen" "length u + 2 < elen" "length u + 1 < elen" "length u < elen"
    using assms(4) by auto
  have 3: "quad_loop b64_values p elen 3 (length u + 3) [x0, x1, x2, x3] [y0, y1, y2, y3]
      = (if b64_valid c3
         then Inr (Some (length u + 4, [x0, x1, x2, c3], [y0, y1, y2, val c3])) else Inr None)"
    for x0 x1 x2 x3 y0 y1 y2 y3
    using lt nth by (subst step) (simp add: v 4 b64_values_valid aset_def del: aget_in)
  have 2: "quad_loop b64_values p elen 2 (length u + 2) [x0, x1, x2, x3] [y0, y1, y2, y3]
      = (if b64_valid c2 \<and> b64_valid c3
         then Inr (Some (length u + 4, [x0, x1, c2, c3], [y0, y1, val c2, val c3])) else Inr None)"
    for x0 x1 x2 x3 y0 y1 y2 y3
    using lt nth 3 by (subst step) (simp add: numeral_3_eq_3 v b64_values_valid aset_def del: aget_in)
  have 1: "quad_loop b64_values p elen 1 (length u + 1) [x0, x1, x2, x3] [y0, y1, y2, y3]
      = (if b64_valid c1 \<and> b64_valid c2 \<and> b64_valid c3
         then Inr (Some (length u + 4, [x0, c1, c2, c3], [y0, val c1, val c2, val c3]))
         else Inr None)"
    for x0 x1 x2 x3 y0 y1 y2 y3
    using lt nth 2 by (subst step) (simp add: numeral_2_eq_2 v b64_values_valid aset_def del: aget_in)
  show ?thesis
    unfolding ab using lt nth 1
    by (subst step) (simp add: v b64_values_valid aset_def del: aget_in)
qed

lemma four_plus_div [simp]: "(4 + n) div 4 = Suc (n div 4)" for n :: nat
  by simp

lemma plus_four: "n + 4 = Suc (Suc (Suc (Suc n)))"
  by simp

lemma length_dec_group [simp]: "length (dec_group b) = 3"
  by (simp add: dec_group_def)

lemma group_len_le: "group_len a \<le> 3" and group_len_pos: "0 < group_len a"
  by (simp_all add: group_len_def)

lemma length_dec_text: "length (dec_text v) \<le> 3 * (length v div 4)"
proof (induction v rule: dec_text.induct)
  case (1 c0 c1 c2 c3 r)
  then show ?case using group_len_le[of "[c0, c1, c2, c3]"] by simp
qed simp_all

lemma dec_loop_step:
  assumes "lim \<le> length buf" and "i < elen" and "length w < lim"
    and "quad_loop dt p elen 0 i a b = Inr (Some (i', a', b'))"
  shows "dec_loop dt p elen lim i (min (length w) lim) a b (emit lim w buf)
       = dec_loop dt p elen lim i' (min (length (w @ take (group_len a') (dec_group b'))) lim) a' b'
           (emit lim (w @ take (group_len a') (dec_group b')) buf)"
  using assms put_group_emit[OF assms(1), of "take (group_len a') (dec_group b')" w]
  by (subst dec_loop.simps) simp

lemma dec_loop_plain:
  assumes "lim \<le> length buf"
  shows "4 dvd length v \<Longrightarrow> length a = 4 \<Longrightarrow> length b = 4 \<Longrightarrow>
    \<forall>c \<in> set v. b64_valid c \<Longrightarrow>
    dec_loop b64_values (u @ v @ r) (length u + length v) lim (length u) (min (length w) lim)
        a b (emit lim w buf)
      = Inr (Some (min (length (w @ dec_text v)) lim), emit lim (w @ dec_text v) buf)"
proof (induction v arbitrary: u w a b rule: dec_text.induct)
  case (1 c0 c1 c2 c3 v)
  let ?o = "take (group_len [c0, c1, c2, c3]) (dec_group (map val [c0, c1, c2, c3]))"
  let ?v = "c0 # c1 # c2 # c3 # v"
  show ?case
  proof (cases "length w < lim")
    case True
    have q: "quad_loop b64_values (u @ ?v @ r) (length u + length ?v) 0 (length u) a b
        = Inr (Some (length u + 4, [c0, c1, c2, c3], map val [c0, c1, c2, c3]))"
      using "1.prems" quad_loop_quad[of a b "u @ ?v @ r" u c0 c1 c2 c3 "v @ r"] by simp
    have "4 dvd length v" using "1.prems"(1) by (simp add: dvd_def) presburger
    with "1.IH"[of "[c0, c1, c2, c3]" "map val [c0, c1, c2, c3]" "u @ [c0, c1, c2, c3]" "w @ ?o"]
      True "1.prems" q put_group_emit[OF assms, of ?o w]
    show ?thesis by (subst dec_loop.simps) (simp add: add.commute add.left_commute plus_four)
  next
    case False
    then show ?thesis
      by (subst dec_loop.simps) (simp add: emit_full min_def)
  qed
qed (auto simp: dec_loop.simps dest: dvd_imp_le)

lemma dec_loop_invalid:
  assumes "lim \<le> length buf"
  shows "4 dvd length v \<Longrightarrow> length a = 4 \<Longrightarrow> length b = 4 \<Longrightarrow>
    \<exists>c \<in> set v. \<not> b64_valid c \<Longrightarrow> length w + 3 * (length v div 4) \<le> lim \<Longrightarrow>
    \<exists>buf'. dec_loop b64_values (u @ v @ r) (length u + length v) lim (length u)
        (min (length w) lim) a b (emit lim w buf) = Inr (None, buf') \<and> length buf' = length buf"
proof (induction v arbitrary: u w a b rule: dec_text.induct)
  case (1 c0 c1 c2 c3 v)
  let ?o = "take (group_len [c0, c1, c2, c3]) (dec_group (map val [c0, c1, c2, c3]))"
  let ?v = "c0 # c1 # c2 # c3 # v"
  have q: "quad_loop b64_values (u @ ?v @ r) (length u + length ?v) 0 (length u) a b
      = (if b64_valid c0 \<and> b64_valid c1 \<and> b64_valid c2 \<and> b64_valid c3
         then Inr (Some (length u + 4, [c0, c1, c2, c3], map val [c0, c1, c2, c3]))
         else Inr None)"
    using "1.prems" quad_loop_quad[of a b "u @ ?v @ r" u c0 c1 c2 c3 "v @ r"] by simp
  have w: "length w < lim" using "1.prems"(5) by simp
  show ?case
  proof (cases "b64_valid c0 \<and> b64_valid c1 \<and> b64_valid c2 \<and> b64_valid c3")
    case True
    have "4 dvd length v" using "1.prems"(1) by (simp add: dvd_def) presburger
    moreover have "length (w @ ?o) + 3 * (length v div 4) \<le> lim"
      using "1.prems"(5) group_len_le[of "[c0, c1, c2, c3]"] by simp
    ultimately obtain buf' where "dec_loop b64_values ((u @ [c0, c1, c2, c3]) @ v @ r)
        (length (u @ [c0, c1, c2, c3]) + length v) lim (length (u @ [c0, c1, c2, c3]))
        (min (length (w @ ?o)) lim) [c0, c1, c2, c3] (map val [c0, c1, c2, c3])
        (emit lim (w @ ?o) buf) = Inr (None, buf')" and "length buf' = length buf"
      using "1.IH"[of "[c0, c1, c2, c3]" "map val [c0, c1, c2, c3]" "w @ ?o" "u @ [c0, c1, c2, c3]"]
        True "1.prems"(4) by auto
    moreover have "quad_loop b64_values (u @ ?v @ r) (length u + length ?v) 0 (length u) a b
      = Inr (Some (length u + 4, [c0, c1, c2, c3], map val [c0, c1, c2, c3]))"
      using q True by (simp only: if_True simp_thms)
    note dec_loop_step[OF assms _ w this]
    ultimately show ?thesis by (simp add: add.commute add.left_commute plus_four)
  next
    case False
    then have q': "quad_loop b64_values (u @ ?v @ r) (length u + length ?v) 0 (length u) a b
        = Inr None" using q by (simp only: if_False)
    show ?thesis
      using w assms q' by (subst dec_loop.simps) simp
  qed
qed (auto dest: dvd_imp_le)

lemma b64_decode_text:
  assumes "b64_inv st" and "0 \<notin> set t" and "4 dvd length t" and "length t < 2 ^ 62"
    and "(length t div 4 + 1) * 3 + 1 \<le> ndec" and "ndec \<le> length dec" and "ndec < 2 ^ 64"
  shows "(\<forall>c \<in> set t. b64_valid c) \<Longrightarrow>
      b64_decode (t @ 0 # r) dec ndec e st = Inr (True, e,
        dec_text t @ 0 # drop (length (dec_text t) + 1) dec, b64_ready st)"
    and "\<not> (\<forall>c \<in> set t. b64_valid c) \<Longrightarrow>
      \<exists>dec'. b64_decode (t @ 0 # r) dec ndec e st = Inr (False, EINVAL, dec', b64_ready st)
        \<and> length dec' = length dec"
proof -
  have "min_decoded_buflen (length t) = (length t div 4 + 1) * 3 + 1"
    using assms(4) by (simp add: min_decoded_buflen_def)
  then have guard: "\<not> (length t mod 4 \<noteq> 0 \<or> ndec < min_decoded_buflen (length t))"
    using assms by (simp add: dvd_imp_mod_0)
  have lim: "size_sub ndec 1 = ndec - 1" and le: "ndec - 1 \<le> length dec" using assms by simp_all
  have room: "length (dec_text t) < ndec - 1" "3 * (length t div 4) \<le> ndec - 1"
  proof -
    define k where "k = length t div 4"
    have "length (dec_text t) \<le> 3 * k" "3 * k + 4 \<le> ndec"
      using length_dec_text[of t] assms(5) by (simp_all add: k_def)
    then show "length (dec_text t) < ndec - 1" "3 * (length t div 4) \<le> ndec - 1"
      unfolding k_def[symmetric] by simp_all
  qed
  show "b64_decode (t @ 0 # r) dec ndec e st = Inr (True, e,
      dec_text t @ 0 # drop (length (dec_text t) + 1) dec, b64_ready st)"
    if "\<forall>c \<in> set t. b64_valid c"
  proof -
    have "dec_loop b64_values (t @ 0 # r) (length t) (ndec - 1) 0 0 (replicate 4 0) (replicate 4 0)
        dec = Inr (Some (length (dec_text t)), emit (ndec - 1) (dec_text t) dec)"
      using dec_loop_plain[of "ndec - 1" dec t "replicate 4 0" "replicate 4 0" "[]" "0 # r" "[]"]
        assms room that by simp
    moreover have "(emit (ndec - 1) (dec_text t) dec)[length (dec_text t) := 0]
        = dec_text t @ 0 # drop (length (dec_text t) + 1) dec"
      using room assms by (simp add: emit_def list_update_append upd_conv_take_nth_drop)
    moreover have "length (dec_text t) < length dec" using room assms by linarith
    ultimately show ?thesis
      using assms guard room by (simp add: b64_decode_def lim)
  qed
  show "\<exists>dec'. b64_decode (t @ 0 # r) dec ndec e st = Inr (False, EINVAL, dec', b64_ready st)
      \<and> length dec' = length dec" if "\<not> (\<forall>c \<in> set t. b64_valid c)"
  proof -
    from that have ex: "\<exists>c \<in> set t. \<not> b64_valid c" by blast
    obtain dec' where "dec_loop b64_values (t @ 0 # r) (length t) (ndec - 1) 0 0 (replicate 4 0)
        (replicate 4 0) dec = Inr (None, dec')" "length dec' = length dec"
      using dec_loop_invalid[OF le assms(3) _ _ ex, of "replicate 4 0" "replicate 4 0" "[]" "[]" "0 # r"]
        room by auto
    then show ?thesis using assms guard by (simp add: b64_decode_def lim)
  qed
qed

section \<open>Decoding inverts encoding\<close>

lemma val_sextet: "unat x < 64 \<Longrightarrow> val (b64_alphabet ! unat x) = x"
  by (simp add: b64_values_alphabet)

lemma val_pad: "val 61 = 0"
  by (simp add: b64_values_eq)

lemma sextet_small:
  fixes a b c :: u8
  shows "unat (drop_bit 2 a) < 64" "unat (push_bit 4 (a AND 3) OR drop_bit 4 b) < 64"
    "unat (push_bit 2 (b AND 0xF) OR drop_bit 6 c) < 64" "unat (c AND 0x3F) < 64"
proof -
  have "(unat a mod 4) * 16 + unat b div 16 < 64" "(unat b mod 16) * 4 + unat c div 64 < 64"
    "unat a div 4 < 64"
    using unat_u8_less[of a] unat_u8_less[of b] unat_u8_less[of c] by linarith+
  then show "unat (drop_bit 2 a) < 64" "unat (push_bit 4 (a AND 3) OR drop_bit 4 b) < 64"
    "unat (push_bit 2 (b AND 0xF) OR drop_bit 6 c) < 64" "unat (c AND 0x3F) < 64"
    unfolding sextet_unat by simp_all
qed

lemma b64_quad_sextets:
  "b64_quad a b c = [b64_alphabet ! unat (drop_bit 2 a),
     b64_alphabet ! unat (push_bit 4 (a AND 3) OR drop_bit 4 b),
     b64_alphabet ! unat (push_bit 2 (b AND 0xF) OR drop_bit 6 c),
     b64_alphabet ! unat (c AND 0x3F)]"
  using enc_group_digits(1)[of a b c] by (simp add: enc_group_def)

lemma dec_text_text: "dec_text (b64_text s) = s"
proof (induction s rule: b64_text.induct)
  case (2 a)
  show ?case
    using sextet_join(1)[of a 0] b64_alphabet_nth sextet_small(1)[of a] sextet_small(2)[of a 0]
    by (simp add: b64_quad_sextets val_sextet val_pad group_len_def dec_group_def)
next
  case (3 a b)
  show ?case
    using sextet_join(1)[of a b] sextet_join(2)[of a b 0] b64_alphabet_nth
      sextet_small(1)[of a] sextet_small(2)[of a b] sextet_small(3)[of b 0]
    by (simp add: b64_quad_sextets val_sextet val_pad group_len_def dec_group_def)
next
  case (4 a b c r)
  then show ?case
    using sextet_join(1)[of a b] sextet_join(2)[of a b c] sextet_join(3)[of b c] b64_alphabet_nth sextet_small(1)[of a] sextet_small(2)[of a b] sextet_small(3)[of b c] sextet_small(4)[of c]
    by (simp add: b64_quad_sextets val_sextet group_len_def dec_group_def)
qed simp

lemma b64_quad_chars: "x \<in> set (b64_quad a b c) \<Longrightarrow> x \<noteq> 0 \<and> b64_valid x"
  by (auto simp: b64_quad_def b64_digits_def Let_def b64_alphabet_nth)

lemma b64_valid_pad: "b64_valid 61"
  by (simp add: b64_valid_def b64_char_def)

lemma b64_text_chars: "x \<in> set (b64_text s) \<Longrightarrow> x \<noteq> 0 \<and> b64_valid x"
  by (induction s rule: b64_text.induct)
     (auto dest: b64_quad_chars in_set_takeD simp: b64_valid_pad)

section \<open>Properties\<close>

lemma b64_inv_done [simp]:
  "b64_inv \<lparr>g_etable = b64_alphabet, g_dtable = b64_values, g_ready = 1\<rparr>"
  by (simp add: b64_inv_def)

lemma b64_inv_start: "b64_inv b64_start" and b64_inv_ready: "b64_inv st \<Longrightarrow> b64_inv (b64_ready st)"
  by (simp_all add: b64_inv_def b64_ready_inv[unfolded b64_inv_def])

text \<open>
  C23: \<open>b64_encode\<close> never writes outside a buffer of at least \<open>nenc \<ge> 1\<close> bytes, and leaves in
  it the base64 text of the string (as defined by arithmetic in base 64), cut to \<open>nenc - 1\<close>
  characters, a terminating NUL, and the rest of the buffer untouched.
\<close>

theorem b64_encode_correct:
  assumes "b64_inv st" and "0 \<notin> set s" and "1 \<le> nenc" and "nenc \<le> length enc" and "nenc < 2 ^ 64"
  shows "b64_encode (s @ 0 # r) enc nenc st = Inr (take (nenc - 1) (b64_text s) @ 0 #
      drop (min (length (b64_text s)) (nenc - 1) + 1) enc, b64_ready st)"
  using assms by (rule b64_encode_text)

theorem b64_encode_correct_witness:
  "fst (projr (b64_encode [77, 97, 110, 33, 0] (replicate 10 9) 10 b64_start))
     = [84, 87, 70, 117, 73, 81, 61, 61, 0, 9]"
  using b64_encode_correct [of b64_start "[77, 97, 110, 33]" 10 "replicate 10 9" "[]"]
  by (simp add: b64_inv_start b64_quad_def b64_digits_def Let_def b64_alphabet_eq)

text \<open>
  C22: \<open>b64_decode\<close> of a C string answers \<open>EMSGSIZE\<close> when the length is not a multiple of 4
  or the buffer is smaller than the computed minimum, and otherwise \<open>EINVAL\<close> when some
  character is neither of the alphabet nor a pad \<open>=\<close> nor byte 255. In all other cases it
  leaves a NUL after the bytes the text stands for by arithmetic: a character is worth its
  position in the alphabet, a pad 0, four characters are a number of four digits in base 64, and
  the bytes are its three digits in base 256, of which a pad in the third place keeps one and a
  pad in the fourth two. No branch writes outside the buffer. Byte 255 is no base64 character:
  the code accepts it, with the value 0, because the loop that fills the table stops before
  index 255, and the statement says so. Pads are accepted at any place, with the value 0.
\<close>

theorem b64_decode_correct:
  assumes "b64_inv st" and "0 \<notin> set t" and "length t < 2 ^ 62" and "ndec \<le> length dec"
    and "ndec < 2 ^ 64"
  defines "room \<equiv> (length t div 4 + 1) * 3 + 1 \<le> ndec"
  shows "if \<not> 4 dvd length t \<or> \<not> room
         then b64_decode (t @ 0 # r) dec ndec e st = Inr (False, EMSGSIZE, dec, b64_ready st)
         else if \<forall>c \<in> set t. c \<in> set b64_alphabet \<or> c = 61 \<or> c = 255
         then b64_decode (t @ 0 # r) dec ndec e st = Inr (True, e,
                b64_plain t @ 0 # drop (length (b64_plain t) + 1) dec, b64_ready st)
         else \<exists>dec'. b64_decode (t @ 0 # r) dec ndec e st
                = Inr (False, EINVAL, dec', b64_ready st) \<and> length dec' = length dec"
proof (cases "4 dvd length t \<and> room")
  case True
  have v: "c \<in> set b64_alphabet \<or> c = 61 \<or> c = 255 \<longleftrightarrow> b64_valid c" for c
    by (auto simp: b64_valid_def b64_char_def)
  show ?thesis
    unfolding v using True b64_decode_text[of st t ndec dec r e] assms dec_text_plain[of t] by auto
next
  case False
  have "min_decoded_buflen (length t) = (length t div 4 + 1) * 3 + 1"
    using assms(3) by (simp add: min_decoded_buflen_def)
  with False assms show ?thesis
    by (auto simp: b64_decode_def dvd_eq_mod_eq_0)
qed

theorem b64_decode_correct_witness:
  "b64_decode [81, 85, 73, 61, 0] (replicate 7 9) 7 0 b64_start
     = Inr (True, 0, [65, 66, 0, 9, 9, 9, 9], b64_ready b64_start)"
proof -
  have "b64_plain [81, 85, 73, 61] = [65, 66]"
    by (simp add: b64_bytes_def b64_digit_value_def b64_alphabet_eq Let_def)
  moreover have "replicate 7 (9 :: u8) = [9, 9, 9, 9, 9, 9, 9]" by code_simp
  moreover have "\<forall>c \<in> set [81, 85, 73, 61]. c \<in> set b64_alphabet \<or> c = 61 \<or> c = 255"
    by (simp add: b64_alphabet_eq)
  moreover have "4 dvd Suc (Suc (Suc (Suc 0)))" by (simp add: numeral_eq_Suc)
  ultimately show ?thesis
    using b64_decode_correct [of b64_start "[81, 85, 73, 61]" 7 "replicate 7 9" "[]" 0]
    by (simp add: b64_inv_start)
qed

text \<open>
  C6: Decoding inverts encoding: for every string and large enough buffers, \<open>b64_encode\<close>
  followed by \<open>b64_decode\<close> of the buffer gives the string back, NUL-terminated.
\<close>

theorem b64_roundtrip:
  assumes "b64_inv st" and "0 \<notin> set s" and "length s < 2 ^ 60"
    and "(length s + 2) div 3 * 4 + 1 \<le> length enc" and "length enc < 2 ^ 64"
    and "((length s + 2) div 3 + 1) * 3 + 1 \<le> length dec" and "length dec < 2 ^ 64"
  shows "\<exists>enc' dec'. b64_encode (s @ 0 # r) enc (length enc) st = Inr (enc', b64_ready st)
    \<and> b64_decode enc' dec (length dec) e (b64_ready st) = Inr (True, e, dec', b64_ready st)
    \<and> take (length s + 1) dec' = s @ [0]"
proof -
  let ?t = "b64_text s"
  have len: "length ?t = (length s + 2) div 3 * 4" by (rule length_b64_text)
  have "b64_encode (s @ 0 # r) enc (length enc) st
      = Inr (?t @ 0 # drop (length ?t + 1) enc, b64_ready st)"
    using b64_encode_text[of st s "length enc" enc r] assms len by simp
  moreover have "b64_decode (?t @ 0 # drop (length ?t + 1) enc) dec (length dec) e (b64_ready st)
      = Inr (True, e, dec_text ?t @ 0 # drop (length (dec_text ?t) + 1) dec,
             b64_ready (b64_ready st))"
    using assms len b64_text_chars
    by (intro b64_decode_text(1)) (auto simp: b64_inv_ready)
  moreover have "b64_ready (b64_ready st) = b64_ready st"
    using assms(1) b64_inv_ready by simp
  ultimately show ?thesis by (simp add: dec_text_text)
qed

theorem b64_roundtrip_witness:
  "\<exists>enc' dec'. b64_encode [104, 105, 255, 0] (replicate 5 0) 5 b64_start
       = Inr (enc', b64_ready b64_start)
    \<and> b64_decode enc' (replicate 7 0) 7 0 (b64_ready b64_start) = Inr (True, 0, dec', b64_ready b64_start)
    \<and> take 4 dec' = [104, 105, 255, 0]"
proof -
  have four: "take 4 xs = take (Suc (Suc (Suc (Suc 0)))) xs" for xs :: "u8 list"
    by (simp add: numeral_eq_Suc)
  show ?thesis unfolding four
    using b64_roundtrip [of b64_start "[104, 105, 255]" "replicate 5 0" "replicate 7 0" "[]" 0]
    by (simp add: b64_inv_start)
qed

text \<open>
  \<open>new_b64_encoded\<close> answers NULL for a NULL or empty argument and when memory runs out,
  and otherwise the complete, never truncated, base64 text with its NUL.
\<close>

theorem new_b64_encoded_correct:
  assumes "b64_inv st" and "0 \<notin> set s" and "length s < 2 ^ 60"
  shows "new_b64_encoded ok fill None st = Inr (None, st)
     \<and> (if s = [] \<or> \<not> ok then new_b64_encoded ok fill (Some (s @ 0 # r)) st = Inr (None, st)
        else \<exists>rest. new_b64_encoded ok fill (Some (s @ 0 # r)) st
              = Inr (Some (b64_text s @ 0 # rest), b64_ready st))"
proof -
  have n: "min_encoded_buflen (length s) = (length s div 3 + 1) * 4 + 1"
    using assms(3) by (simp add: min_encoded_buflen_def)
  have "(length s + 2) div 3 \<le> length s div 3 + 1" by linarith
  then have fits: "length (b64_text s) < min_encoded_buflen (length s)"
    unfolding n length_b64_text by simp
  have small: "min_encoded_buflen (length s) < 2 ^ 63"
    unfolding n using assms(3) by simp
  show ?thesis
    using assms fits small b64_encode_text[OF assms(1,2), of "min_encoded_buflen (length s)"
        "replicate (min_encoded_buflen (length s)) fill" r]
    by (auto simp: new_b64_encoded_def malloc_block_def Suc_le_eq)
qed

theorem new_b64_encoded_correct_witness:
  "\<exists>rest. new_b64_encoded True 0 (Some [65, 0]) b64_start
     = Inr (Some ([81, 81, 61, 61, 0] @ rest), b64_ready b64_start)"
  using new_b64_encoded_correct [of b64_start "[65]" True 0 "[]"]
  by (simp add: b64_inv_start b64_quad_def b64_digits_def Let_def b64_alphabet_eq)

text \<open>
  \<open>new_b64_decoded\<close> does not decode: whenever the allocation succeeds its result is the
  base64 encoding of its (already encoded) argument, cut to the size computed for decoding.
\<close>

theorem new_b64_decoded_encodes:
  assumes "b64_inv st" and "0 \<notin> set t" and "t \<noteq> []" and "length t < 2 ^ 60"
  shows "\<exists>rest. new_b64_decoded True fill (Some (t @ 0 # r)) st
    = Inr (Some (take ((length t div 4 + 1) * 3) (b64_text t) @ 0 # rest), b64_ready st)"
proof -
  have n: "min_decoded_buflen (length t) = (length t div 4 + 1) * 3 + 1"
    using assms(4) by (simp add: min_decoded_buflen_def)
  have small: "min_decoded_buflen (length t) < 2 ^ 63"
    unfolding n using assms(4) by simp
  show ?thesis
    using assms small b64_encode_text[OF assms(1,2), of "min_decoded_buflen (length t)"
        "replicate (min_decoded_buflen (length t)) fill" r]
    by (auto simp: new_b64_decoded_def malloc_block_def Suc_le_eq n)
qed

theorem new_b64_decoded_encodes_witness:
  "\<exists>rest. new_b64_decoded True 0 (Some [81, 81, 61, 61, 0]) b64_start
     = Inr (Some ([85, 86, 69, 57, 80, 81, 0] @ rest), b64_ready b64_start)"
  using new_b64_decoded_encodes [of b64_start "[81, 81, 61, 61]" 0 "[]"]
  by (simp add: b64_inv_start b64_quad_def b64_digits_def Let_def b64_alphabet_eq)

end
