(* ===== verification/Crc32.thy ===== *)
theory Crc32
  imports CrcTables
begin

text \<open>
  \<open>crc32.intel/crc32.c\<close>: the table-driven CRC-32 (\<open>crc32\<close>) and the Castagnoli CRC
  (\<open>crc32c\<close>) with its bytewise routine for short buffers and the slice-by-8 routine for the
  others.  The reference is the shift register the file's first comment describes, fed one
  bit at a time (\<open>lfsr\<close>).  A buffer is the object it points into, an address is only used for
  its two low bits; reads outside the object trap.
\<close>

section \<open>The shift register\<close>

definition crc_bit :: "u32 \<Rightarrow> u32 \<Rightarrow> u32" where
  "crc_bit poly w = (if bit w 0 then drop_bit 1 w XOR poly else drop_bit 1 w)"

definition crc_shift :: "u32 \<Rightarrow> nat \<Rightarrow> u32 \<Rightarrow> u32" where
  "crc_shift poly n w = (crc_bit poly ^^ n) w"

fun lfsr :: "u32 \<Rightarrow> u32 \<Rightarrow> bool list \<Rightarrow> u32" where
  "lfsr poly r [] = r"
| "lfsr poly r (b # bs) = lfsr poly (crc_bit poly (r XOR of_bool b)) bs"

definition byte_bits :: "u8 \<Rightarrow> bool list" where
  "byte_bits c = map (bit c) [0..<8]"

definition crc_ref :: "u32 \<Rightarrow> u32 \<Rightarrow> u8 list \<Rightarrow> u32" where
  "crc_ref poly r buf = lfsr poly r (concat (map byte_bits buf))"

definition crc_byte :: "u32 \<Rightarrow> u8 \<Rightarrow> u32 \<Rightarrow> u32" where
  "crc_byte poly c r = crc_shift poly 8 (r XOR ucast c)"

section \<open>The routines\<close>

text \<open>
  \<open>while (size--) crc = T[(crc ^ *p++) & 0xFF] ^ (crc >> 8);\<close> --- the loop of \<open>crc32\<close>, of
  \<open>singletable_crc32c\<close> and of the unaligned head and tail of \<open>crc32c_sb8_64_bit\<close>, at
  position \<open>p\<close> of the buffer.
\<close>

fun crc_loop :: "u32 list \<Rightarrow> u8 list \<Rightarrow> nat \<Rightarrow> u32 \<Rightarrow> nat \<Rightarrow> u32 cresult" where
  "crc_loop tab buf p crc 0 = Inr crc"
| "crc_loop tab buf p crc (Suc n) =
     cbind (aget buf (int p)) (\<lambda>c.
     cbind (aget tab (uint ((crc XOR ucast c) AND 0xFF))) (\<lambda>t.
     crc_loop tab buf (p + 1) (t XOR drop_bit 8 crc) n))"

definition crc32 :: "u8 list \<Rightarrow> nat \<Rightarrow> u32 cresult" where
  "crc32 buf nbytes =
     cbind (crc_loop crc32_table buf 0 (NOT 0) nbytes) (\<lambda>crc. Inr (crc XOR NOT 0))"

definition singletable_crc32c :: "u32 \<Rightarrow> u8 list \<Rightarrow> nat \<Rightarrow> u32 cresult" where
  "singletable_crc32c crc buf nbytes = crc_loop crc32c_table buf 0 crc nbytes"

text \<open>A little-endian 32-bit load.\<close>

definition load32 :: "u8 list \<Rightarrow> nat \<Rightarrow> u32 cresult" where
  "load32 buf p =
     cbind (aget buf (int p)) (\<lambda>b0. cbind (aget buf (int (p + 1))) (\<lambda>b1.
     cbind (aget buf (int (p + 2))) (\<lambda>b2. cbind (aget buf (int (p + 3))) (\<lambda>b3.
     Inr (ucast b0 OR push_bit 8 (ucast b1) OR push_bit 16 (ucast b2) OR push_bit 24 (ucast b3))))))"

text \<open>One round of the main loop of \<open>crc32c_sb8_64_bit\<close>: eight bytes.\<close>

definition sb8_round :: "u8 list \<Rightarrow> nat \<Rightarrow> u32 \<Rightarrow> u32 cresult" where
  "sb8_round buf p crc0 =
     cbind (load32 buf p) (\<lambda>w0. let crc = crc0 XOR w0 in
     cbind (aget sctp_crc_tableil8_o88 (uint (crc AND 0xFF))) (\<lambda>t88.
     cbind (aget sctp_crc_tableil8_o80 (uint (drop_bit 8 crc AND 0xFF))) (\<lambda>t80.
     let term1 = t88 XOR t80; term2 = drop_bit 16 crc in
     cbind (aget sctp_crc_tableil8_o72 (uint (term2 AND 0xFF))) (\<lambda>t72.
     cbind (aget sctp_crc_tableil8_o64 (uint (drop_bit 8 term2 AND 0xFF))) (\<lambda>t64.
     let crc = term1 XOR t72 XOR t64 in
     cbind (load32 buf (p + 4)) (\<lambda>w1.
     cbind (aget sctp_crc_tableil8_o56 (uint (w1 AND 0xFF))) (\<lambda>t56.
     cbind (aget sctp_crc_tableil8_o48 (uint (drop_bit 8 w1 AND 0xFF))) (\<lambda>t48.
     let term1 = t56 XOR t48; term2 = drop_bit 16 w1 in
     cbind (aget sctp_crc_tableil8_o40 (uint (term2 AND 0xFF))) (\<lambda>t40.
     cbind (aget sctp_crc_tableil8_o32 (uint (drop_bit 8 term2 AND 0xFF))) (\<lambda>t32.
     Inr (crc XOR term1 XOR t40 XOR t32)))))))))))"

fun sb8_loop :: "u8 list \<Rightarrow> nat \<Rightarrow> u32 \<Rightarrow> nat \<Rightarrow> u32 cresult" where
  "sb8_loop buf p crc 0 = Inr crc"
| "sb8_loop buf p crc (Suc n) =
     cbind (sb8_round buf p crc) (\<lambda>crc. sb8_loop buf (p + 8) crc n)"

definition crc32c_sb8_64_bit :: "u32 \<Rightarrow> u8 list \<Rightarrow> u32 \<Rightarrow> u32 \<Rightarrow> u32 cresult" where
  "crc32c_sb8_64_bit crc p_buf len init_bytes =
     (let running_length = ((len - init_bytes) div 8) * 8;
          end_bytes = len - init_bytes - running_length;
          p1 = unat init_bytes;
          p2 = p1 + 8 * unat (running_length div 8) in
      cbind (crc_loop sctp_crc_tableil8_o32 p_buf 0 crc (unat init_bytes)) (\<lambda>crc.
      cbind (sb8_loop p_buf p1 crc (unat (running_length div 8))) (\<lambda>crc.
      crc_loop sctp_crc_tableil8_o32 p_buf p2 crc (unat end_bytes))))"

definition multitable_crc32c :: "u32 \<Rightarrow> u64 \<Rightarrow> u8 list \<Rightarrow> u32 \<Rightarrow> u32 cresult" where
  "multitable_crc32c crc addr buffer len =
     (if len = 0 then Inr crc
      else crc32c_sb8_64_bit crc buffer len (ucast (4 - (addr AND 3))))"

definition crc32c :: "u32 \<Rightarrow> u64 \<Rightarrow> u8 list \<Rightarrow> u32 \<Rightarrow> u32 cresult" where
  "crc32c crc addr buffer len =
     (if len < 4 then singletable_crc32c crc buffer (unat len)
      else multitable_crc32c crc addr buffer len)"

section \<open>The register is linear and reversible\<close>

lemma crc_bit_xor: "crc_bit poly (a XOR b) = crc_bit poly a XOR crc_bit poly b"
  by (rule bit_word_eqI) (auto simp: crc_bit_def bit_simps)

lemma crc_shift_0 [simp]: "crc_shift poly 0 w = w"
  by (simp add: crc_shift_def)

lemma crc_shift_Suc: "crc_shift poly (Suc n) w = crc_shift poly n (crc_bit poly w)"
  by (simp add: crc_shift_def funpow_swap1)

lemma crc_shift_add: "crc_shift poly (m + n) w = crc_shift poly m (crc_shift poly n w)"
  by (simp add: crc_shift_def funpow_add)

lemma crc_shift_xor: "crc_shift poly n (a XOR b) = crc_shift poly n a XOR crc_shift poly n b"
  by (induction n arbitrary: a b) (simp_all add: crc_shift_Suc crc_bit_xor)

lemma crc_shift_zero [simp]: "crc_shift poly n 0 = 0"
  by (induction n) (simp_all add: crc_shift_Suc crc_bit_def)

lemma crc_bit_push:
  fixes x :: u32
  assumes "\<not> bit x 31"
  shows "crc_bit poly (push_bit 1 x) = x"
proof -
  have "\<not> bit (push_bit 1 x) 0"
    by (simp only: bit_push_bit_iff) simp
  moreover have "drop_bit 1 (push_bit 1 x) = x"
  proof (rule bit_word_eqI)
    fix n :: nat
    assume "n < LENGTH(32)"
    with assms show "bit (drop_bit 1 (push_bit 1 x)) n = bit x n"
      by (cases "n = 31") (simp_all only: bit_drop_bit_eq bit_push_bit_iff o_def, simp_all)
  qed
  ultimately show ?thesis
    by (simp only: crc_bit_def if_False)
qed

lemma crc_shift_push:
  assumes "\<And>j. 32 \<le> j + n \<Longrightarrow> \<not> bit x j"
  shows "crc_shift poly n (push_bit n x) = x"
  using assms
proof (induction n)
  case (Suc n)
  have "crc_shift poly (Suc n) (push_bit (Suc n) x)
      = crc_shift poly n (crc_bit poly (push_bit 1 (push_bit n x)))"
    by (simp add: crc_shift_Suc)
  also have "crc_bit poly (push_bit 1 (push_bit n x)) = push_bit n x"
    by (rule crc_bit_push) (use Suc.prems[of "31 - n"] in \<open>auto simp: bit_simps\<close>)
  finally show ?case
    using Suc by simp
qed simp

text \<open>A word is its low byte and the rest; the register turns the rest into a plain shift.\<close>

abbreviation low :: "u32 \<Rightarrow> u8" where
  "low w \<equiv> ucast w"

lemma low_split: "w = ucast (low w) XOR push_bit 8 (drop_bit 8 w)" for w :: u32
  by (rule bit_word_eqI) (auto simp: bit_simps)

lemma crc_shift_split:
  assumes "8 \<le> n"
  shows "crc_shift poly n w = crc_shift poly n (ucast (low w)) XOR crc_shift poly (n - 8) (drop_bit 8 w)"
proof -
  have n: "n = (n - 8) + 8"
    using assms by simp
  have "crc_shift poly n (push_bit 8 (drop_bit 8 w)) = crc_shift poly (n - 8) (drop_bit 8 w)"
    by (subst n, subst crc_shift_add, subst crc_shift_push) (auto simp: bit_simps dest: bit_imp_le_length)
  then show ?thesis
    by (subst (1) low_split) (simp add: crc_shift_xor)
qed

lemma low_index: "uint (w AND 0xFF) = int (unat (low w))"
proof -
  have "w AND 0xFF = take_bit 8 w"
    by (simp add: take_bit_eq_mask mask_eq_exp_minus_1)
  then show ?thesis
    by (simp add: unsigned_take_bit_eq unsigned_ucast_eq of_nat_take_bit)
qed

lemma unat_less_word_exp8: "unat (c::u8) < 256"
  using unsigned_less[of c] by simp

lemma low_xor: "low (a XOR b) = low a XOR low b"
  by (rule bit_word_eqI) (auto simp: bit_simps)

lemma low_ucast [simp]: "low (ucast c) = c"
  by (rule bit_word_eqI) (auto simp: bit_simps)

section \<open>Tables of the register\<close>

text \<open>
  A table with offset \<open>k\<close> holds the register's value after \<open>k\<close> zero bits for every start
  byte.  What follows from that law alone is proved once, in the locale, for all ten tables.
\<close>

locale crc_slice =
  fixes poly :: u32 and tab :: "u32 list" and k :: nat
  assumes tab_length: "length tab = 256"
    and tab_entry: "\<And>c::u8. tab ! unat c = crc_shift poly k (ucast c)"
begin

lemma tab_get: "aget tab (uint (w AND 0xFF)) = Inr (crc_shift poly k (ucast (low w)))"
proof -
  have "unat (low w) < 256"
    using unat_less_word_exp8 by simp
  then show ?thesis
    by (simp add: low_index tab_length tab_entry)
qed

lemma tab_all: "tab = map (\<lambda>c::u8. crc_shift poly k (ucast c)) (map of_nat [0..<256])"
proof (rule nth_equalityI)
  fix i
  assume "i < length tab"
  then have "unat (of_nat i :: u8) = i"
    by (simp add: tab_length unat_of_nat)
  with tab_entry[of "of_nat i"] \<open>i < length tab\<close>
  show "tab ! i = map (\<lambda>c::u8. crc_shift poly k (ucast c)) (map of_nat [0..<256]) ! i"
    by (simp add: tab_length)
qed (simp add: tab_length)

end

locale crc_table = crc_slice poly tab 8 for poly tab
begin

lemma step: "crc_shift poly 8 (ucast (low w)) XOR drop_bit 8 w = crc_shift poly 8 w"
  using crc_shift_split[of 8 poly w] by simp

lemma step_byte: "crc_shift poly 8 (ucast (low (r XOR ucast c))) XOR drop_bit 8 r = crc_byte poly c r"
proof -
  have "drop_bit 8 (r XOR ucast c) = drop_bit 8 r"
    by (rule bit_word_eqI) (auto simp: bit_simps dest: bit_imp_le_length)
  with step[of "r XOR ucast c"] show ?thesis
    by (simp add: crc_byte_def)
qed

lemma loop_eq:
  "p + n \<le> length buf \<Longrightarrow>
   crc_loop tab buf p r n = Inr (fold (crc_byte poly) (take n (drop p buf)) r)"
proof (induction n arbitrary: p r)
  case (Suc n)
  then have "take (Suc n) (drop p buf) = buf ! p # take n (drop (p + 1) buf)"
    by (simp add: take_Suc_conv_app_nth Cons_nth_drop_Suc[symmetric])
  with Suc show ?case
    by (simp add: tab_get step_byte)
qed simp

end

section \<open>The register over bits and bytes\<close>

fun bits_word :: "bool list \<Rightarrow> u32" where
  "bits_word [] = 0"
| "bits_word (b # bs) = of_bool b XOR push_bit 1 (bits_word bs)"

lemma bit_bits_word:
  "bit (bits_word bs) i \<longleftrightarrow> i < 32 \<and> i < length bs \<and> bs ! i"
proof (induction bs arbitrary: i)
  case (Cons b bs)
  show ?case
    by (cases i)
       (simp_all only: bits_word.simps bit_xor_iff bit_push_bit_iff bit_of_bool_iff Cons.IH, auto)
qed simp

lemma lfsr_bits_word:
  "length bs \<le> 32 \<Longrightarrow> lfsr poly r bs = crc_shift poly (length bs) (r XOR bits_word bs)"
proof (induction bs arbitrary: r)
  case (Cons b bs)
  have nb: "\<not> bit (bits_word bs) 31"
    using Cons.prems by (simp add: bit_bits_word)
  have "crc_bit poly (r XOR bits_word (b # bs)) = crc_bit poly (r XOR of_bool b) XOR bits_word bs"
    by (simp only: bits_word.simps crc_bit_xor crc_bit_push[OF nb] xor.assoc)
  moreover have "length (b # bs) = Suc (length bs)" "length bs \<le> 32"
    using Cons.prems by simp_all
  ultimately show ?case
    by (simp only: lfsr.simps crc_shift_Suc Cons.IH)
qed simp

lemma lfsr_append: "lfsr poly r (xs @ ys) = lfsr poly (lfsr poly r xs) ys"
  by (induction xs arbitrary: r) simp_all

lemma bits_word_byte: "bits_word (byte_bits c) = ucast c"
proof (rule bit_word_eqI)
  fix n :: nat
  assume "n < LENGTH(32)"
  then show "bit (bits_word (byte_bits c)) n = bit (ucast c :: u32) n"
    using bit_imp_le_length[of c n]
    by (cases "n < 8") (auto simp: bit_bits_word byte_bits_def bit_simps)
qed

lemma lfsr_byte: "lfsr poly r (byte_bits c) = crc_byte poly c r"
  using lfsr_bits_word[of "byte_bits c" poly r] bits_word_byte[of c]
  by (simp add: crc_byte_def byte_bits_def)

lemma crc_ref_fold: "crc_ref poly r buf = fold (crc_byte poly) buf r"
proof (induction buf arbitrary: r)
  case (Cons c buf)
  then show ?case
    by (simp add: crc_ref_def lfsr_append lfsr_byte)
qed (simp add: crc_ref_def)

lemma crc_ref_append: "crc_ref poly r (xs @ ys) = crc_ref poly (crc_ref poly r xs) ys"
  by (simp add: crc_ref_fold)

section \<open>The ten tables hold the register's values\<close>

lemma xor_span_nth:
  fixes f :: "u32 \<Rightarrow> u32"
  assumes lin: "\<And>a b. f (a XOR b) = f a XOR f b" and zero: "f 0 = 0"
    and "m \<le> 32" and "n < 2 ^ m"
  shows "xor_span (map (\<lambda>j. f (push_bit j 1)) (rev [0..<m])) ! n = f (of_nat n)"
  using assms(3,4)
proof (induction m arbitrary: n)
  case 0
  then show ?case
    using zero by simp
next
  case (Suc m)
  let ?s = "xor_span (map (\<lambda>j. f (push_bit j 1)) (rev [0..<m]))"
  have len: "length ?s = 2 ^ m"
    by simp
  show ?case
  proof (cases "n < 2 ^ m")
    case True
    then show ?thesis
      using Suc by (simp add: nth_append)
  next
    case False
    define d where "d = n - 2 ^ m"
    have d: "n = 2 ^ m + d" "d < 2 ^ m"
      using False Suc.prems by (simp_all add: d_def)
    have "(push_bit m 1 :: u32) AND of_nat d = 0"
    proof (rule bit_word_eqI)
      fix i :: nat
      have "\<not> bit d m"
        using d(2) bit_take_bit_iff[of m d m] by (simp add: take_bit_nat_eq_self)
      then show "bit ((push_bit m 1 :: u32) AND of_nat d) i = bit (0 :: u32) i"
        by (simp only: bit_and_iff bit_push_bit_iff) (auto simp: bit_simps bit_1_iff)
    qed
    then have "(push_bit m 1 :: u32) XOR of_nat d = push_bit m 1 + of_nat d"
      by (simp add: disjunctive_add_eq_xor)
    then have "(of_nat n :: u32) = push_bit m 1 XOR of_nat d"
      by (simp add: d(1) push_bit_eq_mult)
    then show ?thesis
      using Suc d by (simp add: nth_append lin)
  qed
qed

definition crc_basis :: "u32 \<Rightarrow> nat \<Rightarrow> u32 list" where
  "crc_basis poly k = map (\<lambda>j. crc_shift poly k (push_bit j 1)) [7, 6, 5, 4, 3, 2, 1, 0]"

lemma crc_basis_8: "crc_basis poly (8 + k) = map (crc_shift poly 8) (crc_basis poly k)"
  by (simp add: crc_basis_def crc_shift_add)

lemma crc_basis_0: "crc_basis poly 0 = [128, 64, 32, 16, 8, 4, 2, 1]"
  by (simp add: crc_basis_def)

lemma crc_slice_span:
  assumes "tab = xor_span (crc_basis poly k)"
  shows "crc_slice poly tab k"
proof
  show "length tab = 256"
    by (simp add: assms crc_basis_def)
  fix c :: u8
  have "[7, 6, 5, 4, 3, 2, 1, 0] = rev [0..<8]"
    by (simp add: upt_rec)
  then have "crc_basis poly k = map (\<lambda>j. crc_shift poly k (push_bit j 1)) (rev [0..<8])"
    by (simp only: crc_basis_def)
  then show "tab ! unat c = crc_shift poly k (ucast c)"
    using xor_span_nth[of "crc_shift poly k" 8 "unat c"] unat_less_word_exp8[of c]
    by (simp add: assms crc_shift_xor)
qed

abbreviation "poly_ieee \<equiv> 0xEDB88320 :: u32"
abbreviation "poly_castagnoli \<equiv> 0x82F63B78 :: u32"

lemma crc_shift_8: "crc_shift poly 8 w =
  crc_bit poly (crc_bit poly (crc_bit poly (crc_bit poly (crc_bit poly (crc_bit poly (crc_bit poly (crc_bit poly w)))))))"
  by (simp add: crc_shift_def numeral_eq_Suc)

text \<open>The basis of each offset is computed from the previous one, eight register steps a word.\<close>

lemma basis_ieee_8:
  "crc_basis poly_ieee 8 =
    [0xedb88320, 0x76dc4190, 0x3b6e20c8, 0x1db71064,
     0xedb8832, 0x76dc419, 0xee0e612c, 0x77073096]"
  using crc_basis_8[of poly_ieee 0]
  by (simp only: add_0_right) (simp add: crc_basis_0 crc_shift_8 crc_bit_def)

lemma basis_castagnoli_8:
  "crc_basis poly_castagnoli 8 =
    [0x82f63b78, 0x417b1dbc, 0x20bd8ede, 0x105ec76f,
     0x8ad958cf, 0xc79a971f, 0xe13b70f7, 0xf26b8303]"
  using crc_basis_8[of poly_castagnoli 0]
  by (simp add: crc_basis_0 crc_shift_8 crc_bit_def)

lemma basis_castagnoli_16:
  "crc_basis poly_castagnoli 16 =
    [0xfbc3faf9, 0xff17c604, 0x7f8be302, 0x3fc5f181,
     0x9d14c3b8, 0x4e8a61dc, 0x274530ee, 0x13a29877]"
  using crc_basis_8[of poly_castagnoli 8]
  by (simp add: basis_castagnoli_8 crc_shift_8 crc_bit_def)

lemma basis_castagnoli_24:
  "crc_basis poly_castagnoli 24 =
    [0x8b277743, 0xc76580d9, 0xe144fb14, 0x70a27d8a,
     0x38513ec5, 0x9edea41a, 0x4f6f520d, 0xa541927e]"
  using crc_basis_8[of poly_castagnoli 16]
  by (simp add: basis_castagnoli_16 crc_shift_8 crc_bit_def)

lemma basis_castagnoli_32:
  "crc_basis poly_castagnoli 32 =
    [0x52a0c93f, 0xaba65fe7, 0xd725148b, 0xe964b13d,
     0xf64463e6, 0x7b2231f3, 0xbf672381, 0xdd45aab8]"
  using crc_basis_8[of poly_castagnoli 24]
  by (simp add: basis_castagnoli_24 crc_shift_8 crc_bit_def)

lemma basis_castagnoli_40:
  "crc_basis poly_castagnoli 40 =
    [0x6ea2d55c, 0x37516aae, 0x1ba8b557, 0x8f2261d3,
     0xc5670b91, 0xe045beb0, 0x7022df58, 0x38116fac]"
  using crc_basis_8[of poly_castagnoli 32]
  by (simp add: basis_castagnoli_32 crc_shift_8 crc_bit_def)

lemma basis_castagnoli_48:
  "crc_basis poly_castagnoli 48 =
    [0x1c08b7d6, 0xe045beb, 0x85f4168d, 0xc00c303e,
     0x6006181f, 0xb2f53777, 0xdb8ca0c3, 0xef306b19]"
  using crc_basis_8[of poly_castagnoli 40]
  by (simp add: basis_castagnoli_40 crc_shift_8 crc_bit_def)

lemma basis_castagnoli_56:
  "crc_basis poly_castagnoli 56 =
    [0xf56e0ef4, 0x7ab7077a, 0x3d5b83bd, 0x9c5bfaa6,
     0x4e2dfd53, 0xa5e0c5d1, 0xd0065990, 0x68032cc8]"
  using crc_basis_8[of poly_castagnoli 48]
  by (simp add: basis_castagnoli_48 crc_shift_8 crc_bit_def)

lemma basis_castagnoli_64:
  "crc_basis poly_castagnoli 64 =
    [0x34019664, 0x1a00cb32, 0xd006599, 0x847609b4,
     0x423b04da, 0x211d826d, 0x9278fa4e, 0x493c7d27]"
  using crc_basis_8[of poly_castagnoli 56]
  by (simp add: basis_castagnoli_56 crc_shift_8 crc_bit_def)

interpretation ieee: crc_table poly_ieee crc32_table
  unfolding crc_table_def by (rule crc_slice_span) (simp only: basis_ieee_8 crc32_table_span)

interpretation single: crc_table poly_castagnoli crc32c_table
  unfolding crc_table_def by (rule crc_slice_span) (simp only: basis_castagnoli_8 crc32c_table_span)

interpretation o32: crc_table poly_castagnoli sctp_crc_tableil8_o32
  unfolding crc_table_def by (rule crc_slice_span) (simp only: basis_castagnoli_8 sctp_crc_tableil8_o32_span)

interpretation o40: crc_slice poly_castagnoli sctp_crc_tableil8_o40 16
  by (rule crc_slice_span) (simp only: basis_castagnoli_16 sctp_crc_tableil8_o40_span)

interpretation o48: crc_slice poly_castagnoli sctp_crc_tableil8_o48 24
  by (rule crc_slice_span) (simp only: basis_castagnoli_24 sctp_crc_tableil8_o48_span)

interpretation o56: crc_slice poly_castagnoli sctp_crc_tableil8_o56 32
  by (rule crc_slice_span) (simp only: basis_castagnoli_32 sctp_crc_tableil8_o56_span)

interpretation o64: crc_slice poly_castagnoli sctp_crc_tableil8_o64 40
  by (rule crc_slice_span) (simp only: basis_castagnoli_40 sctp_crc_tableil8_o64_span)

interpretation o72: crc_slice poly_castagnoli sctp_crc_tableil8_o72 48
  by (rule crc_slice_span) (simp only: basis_castagnoli_48 sctp_crc_tableil8_o72_span)

interpretation o80: crc_slice poly_castagnoli sctp_crc_tableil8_o80 56
  by (rule crc_slice_span) (simp only: basis_castagnoli_56 sctp_crc_tableil8_o80_span)

interpretation o88: crc_slice poly_castagnoli sctp_crc_tableil8_o88 64
  by (rule crc_slice_span) (simp only: basis_castagnoli_64 sctp_crc_tableil8_o88_span)

text \<open>Injectivity: the polynomial's top bit tells which branch a shift took.\<close>

lemma word_xor_eq_0 [simp]: "a XOR b = 0 \<longleftrightarrow> a = b" for a b :: "'a::len word"
proof
  assume "a XOR b = 0"
  then have "(a XOR b) XOR b = b"
    by simp
  then show "a = b"
    by (simp only: xor.assoc xor_self_eq xor.right_neutral)
qed simp

lemma word_xor_cancel [simp]: "a XOR c = b XOR c \<longleftrightarrow> a = b" for a b c :: "'a::len word"
proof
  assume "a XOR c = b XOR c"
  then have "(a XOR c) XOR c = (b XOR c) XOR c"
    by simp
  then show "a = b"
    by (simp only: xor.assoc xor_self_eq xor.right_neutral)
qed simp

lemma crc_bit_eq_0:
  assumes "bit poly 31"
  shows "crc_bit poly w = 0 \<longleftrightarrow> w = 0"
proof
  assume z: "crc_bit poly w = 0"
  have "bit (crc_bit poly w) 31 \<longleftrightarrow> bit w 0"
    using assms bit_imp_le_length[of w 32] by (auto simp: crc_bit_def bit_simps)
  then have b0: "\<not> bit w 0"
    unfolding z by (metis bit_0_eq bot_apply bot_bool_def)
  with z have d: "drop_bit 1 w = 0"
    by (simp add: crc_bit_def)
  show "w = 0"
  proof (rule bit_word_eqI)
    fix n
    have "bit w (Suc i) = bit (drop_bit 1 w) i" for i
      by (simp add: bit_simps)
    with b0 d show "bit w n = bit 0 n"
      by (cases n) simp_all
  qed
qed (simp add: crc_bit_def)

lemma crc_shift_inj:
  assumes "bit poly 31"
  shows "crc_shift poly n a = crc_shift poly n b \<longleftrightarrow> a = b"
proof -
  have z: "crc_shift poly n w = 0 \<longleftrightarrow> w = 0" for w
    by (induction n arbitrary: w) (simp_all add: crc_shift_Suc crc_bit_eq_0[OF assms])
  have "crc_shift poly n a = crc_shift poly n b \<longleftrightarrow> crc_shift poly n (a XOR b) = 0"
    by (simp add: crc_shift_xor)
  then show ?thesis
    by (simp only: z word_xor_eq_0)
qed

lemma crc_byte_inj:
  "bit poly 31 \<Longrightarrow> crc_byte poly c a = crc_byte poly c b \<longleftrightarrow> a = b"
  by (simp add: crc_byte_def crc_shift_inj)

lemma crc_ref_inj:
  "bit poly 31 \<Longrightarrow> crc_ref poly a buf = crc_ref poly b buf \<longleftrightarrow> a = b"
  by (induction buf arbitrary: a b) (simp_all add: crc_ref_fold crc_byte_inj)

section \<open>Slicing by eight\<close>

definition le32 :: "u8 \<Rightarrow> u8 \<Rightarrow> u8 \<Rightarrow> u8 \<Rightarrow> u32" where
  "le32 b0 b1 b2 b3 =
     ucast b0 XOR push_bit 8 (ucast b1 XOR push_bit 8 (ucast b2 XOR push_bit 8 (ucast b3)))"

lemma le32_or:
  "ucast b0 OR push_bit 8 (ucast b1) OR push_bit 16 (ucast b2) OR push_bit 24 (ucast b3) = le32 b0 b1 b2 b3"
  unfolding le32_def
  by (rule bit_word_eqI)
     (use bit_imp_le_length[of b0] bit_imp_le_length[of b1] bit_imp_le_length[of b2] in
       \<open>force simp: bit_or_iff bit_xor_iff bit_push_bit_iff bit_ucast_iff\<close>)

lemma crc_shift_prepend:
  assumes "\<And>j. 24 \<le> j \<Longrightarrow> \<not> bit w j"
  shows "crc_shift poly (8 + n) (r XOR (ucast c XOR push_bit 8 w)) = crc_shift poly n (crc_byte poly c r XOR w)"
proof -
  have "crc_shift poly 8 (push_bit 8 w) = w"
    by (rule crc_shift_push) (use assms in auto)
  then show ?thesis
    using crc_shift_add[of poly n 8 "r XOR (ucast c XOR push_bit 8 w)"]
    by (simp add: add.commute crc_byte_def crc_shift_xor xor.assoc)
qed

lemma crc_bytes_le32:
  "fold (crc_byte poly) [b0, b1, b2, b3] r = crc_shift poly 32 (r XOR le32 b0 b1 b2 b3)"
proof -
  define w3 :: u32 where "w3 = ucast b3"
  define w2 where "w2 = ucast b2 XOR push_bit 8 w3"
  define w1 where "w1 = ucast b1 XOR push_bit 8 w2"
  have le: "le32 b0 b1 b2 b3 = ucast b0 XOR push_bit 8 w1"
    by (simp add: le32_def w1_def w2_def w3_def)
  have b3: "\<not> bit w3 j" if "8 \<le> j" for j
    using that bit_imp_le_length[of b3 j] by (auto simp: w3_def bit_simps)
  have b2: "\<not> bit w2 j" if "16 \<le> j" for j
    using that bit_imp_le_length[of b2 j] b3[of "j - 8"] by (auto simp: w2_def bit_simps)
  have b1: "\<not> bit w1 j" if "24 \<le> j" for j
    using that bit_imp_le_length[of b1 j] b2[of "j - 8"] by (auto simp: w1_def bit_simps)
  let ?r1 = "crc_byte poly b0 r" and ?r2 = "crc_byte poly b1 (crc_byte poly b0 r)"
  have "crc_shift poly (8 + 24) (r XOR (ucast b0 XOR push_bit 8 w1)) = crc_shift poly 24 (?r1 XOR w1)"
    using b1 by (intro crc_shift_prepend) auto
  moreover have "crc_shift poly (8 + 16) (?r1 XOR w1) = crc_shift poly 16 (?r2 XOR w2)"
    unfolding w1_def using b2 by (intro crc_shift_prepend) auto
  moreover have "crc_shift poly (8 + 8) (?r2 XOR w2) = crc_shift poly 8 (crc_byte poly b2 ?r2 XOR w3)"
    unfolding w2_def using b3 by (intro crc_shift_prepend) auto
  ultimately show ?thesis
    by (simp add: le crc_byte_def w3_def)
qed

lemma crc_shift_bytes:
  assumes "32 \<le> n"
  shows "crc_shift poly n w =
    crc_shift poly n (ucast (low w)) XOR crc_shift poly (n - 8) (ucast (low (drop_bit 8 w))) XOR
    crc_shift poly (n - 16) (ucast (low (drop_bit 16 w))) XOR
    crc_shift poly (n - 24) (ucast (low (drop_bit 8 (drop_bit 16 w))))"
proof -
  have "drop_bit 8 (drop_bit 16 w) = ucast (low (drop_bit 8 (drop_bit 16 w)))"
    by (rule bit_word_eqI) (auto simp: bit_simps dest: bit_imp_le_length)
  moreover have "drop_bit 8 (drop_bit 8 w) = drop_bit 16 w"
    by simp
  ultimately show ?thesis
    using assms crc_shift_split[of n poly w] crc_shift_split[of "n - 8" poly "drop_bit 8 w"]
      crc_shift_split[of "n - 16" poly "drop_bit 16 w"]
    by (simp only: xor.assoc) simp
qed

lemma load32_eq:
  "p + 4 \<le> length buf \<Longrightarrow>
   load32 buf p = Inr (le32 (buf ! p) (buf ! (p + 1)) (buf ! (p + 2)) (buf ! (p + 3)))"
  by (simp add: load32_def le32_or)

lemma sb8_round_eq:
  assumes "p + 8 \<le> length buf"
  shows "sb8_round buf p r = Inr (fold (crc_byte poly_castagnoli) (take 8 (drop p buf)) r)"
proof -
  let ?w0 = "le32 (buf ! p) (buf ! (p + 1)) (buf ! (p + 2)) (buf ! (p + 3))"
  let ?w1 = "le32 (buf ! (p + 4)) (buf ! (p + 5)) (buf ! (p + 6)) (buf ! (p + 7))"
  let ?S = "crc_shift poly_castagnoli"
  let ?f = "fold (crc_byte poly_castagnoli)"
  have load: "load32 buf p = Inr ?w0" "load32 buf (p + 4) = Inr ?w1"
    using assms load32_eq[of p buf] load32_eq[of "p + 4" buf] by (simp_all add: ac_simps)
  have "take 8 (drop p buf) =
      [buf ! p, buf ! (p + 1), buf ! (p + 2), buf ! (p + 3)] @
      [buf ! (p + 4), buf ! (p + 5), buf ! (p + 6), buf ! (p + 7)]"
    using assms by (intro nth_equalityI) (auto simp: nth_append nth_Cons' less_Suc_eq numeral_eq_Suc)
  then have "?f (take 8 (drop p buf)) r = ?S 32 (?S 32 (r XOR ?w0) XOR ?w1)"
    by (simp only: fold_append o_apply crc_bytes_le32)
  also have "\<dots> = ?S 64 (r XOR ?w0) XOR ?S 32 ?w1"
    using crc_shift_add[of poly_castagnoli 32 32] by (simp add: crc_shift_xor)
  also have "Inr \<dots> = sb8_round buf p r"
    using crc_shift_bytes[of 64 poly_castagnoli "r XOR ?w0"] crc_shift_bytes[of 32 poly_castagnoli ?w1]
    by (simp only: sb8_round_def load cbind_Inr Let_def o88.tab_get o80.tab_get o72.tab_get o64.tab_get
        o56.tab_get o48.tab_get o40.tab_get o32.tab_get) (simp add: xor.assoc)
  finally show ?thesis
    by simp
qed

lemma sb8_loop_eq:
  "p + 8 * n \<le> length buf \<Longrightarrow>
   sb8_loop buf p r n = Inr (fold (crc_byte poly_castagnoli) (take (8 * n) (drop p buf)) r)"
proof (induction n arbitrary: p r)
  case (Suc n)
  have "take (8 * Suc n) (drop p buf) = take 8 (drop p buf) @ take (8 * n) (drop (p + 8) buf)"
    by (simp add: take_add add.commute)
  with Suc show ?case
    by (simp add: sb8_round_eq)
qed simp

lemma word_addr_and_3: "unat (ucast (4 - (addr AND 3)) :: u32) \<in> {1..4}" for addr :: u64
proof -
  have "addr AND 3 = take_bit 2 addr"
    by (simp add: take_bit_eq_mask mask_eq_exp_minus_1)
  then have "unat (addr AND 3) < 4"
    using take_bit_nat_less_exp[of 2 "unat addr"] by (simp add: unsigned_take_bit_eq)
  then have "addr AND 3 \<le> 3"
    by (simp add: word_le_nat_alt)
  then have "unat (4 - (addr AND 3)) = 4 - unat (addr AND 3)"
    by (subst unat_sub) (auto simp: word_le_nat_alt)
  then show ?thesis
    using \<open>unat (addr AND 3) < 4\<close> by (auto simp: unsigned_ucast_eq take_bit_nat_eq_self)
qed

lemma sb8_lengths:
  fixes len init :: u32
  assumes "init \<le> len"
  defines "q \<equiv> (unat len - unat init) div 8"
  shows "unat ((len - init) div 8 * 8 div 8) = q"
    and "unat (len - init - (len - init) div 8 * 8) = unat len - unat init - 8 * q"
proof -
  have d: "unat (len - init) = unat len - unat init"
    using assms(1) by (rule unat_sub)
  have q: "unat ((len - init) div 8) = q"
    by (simp add: unat_div d q_def)
  have "8 * q \<le> unat len - unat init"
    by (simp add: q_def)
  moreover have "unat len < 2 ^ 32"
    using unsigned_less[of len] by simp
  ultimately have m: "unat ((len - init) div 8 * 8) = 8 * q"
    by (simp only: unat_word_ariths(2) q) simp
  show "unat ((len - init) div 8 * 8 div 8) = q"
    by (simp add: unat_div m)
  have "(len - init) div 8 * 8 \<le> len - init"
    by (simp add: word_le_nat_alt m d q_def)
  then show "unat (len - init - (len - init) div 8 * 8) = unat len - unat init - 8 * q"
    by (simp add: unat_sub m d)
qed

lemma sb8_eq:
  assumes "init \<le> len" and "unat len \<le> length buf"
  shows "crc32c_sb8_64_bit r buf len init =
    Inr (fold (crc_byte poly_castagnoli) (take (unat len) buf) r)"
proof -
  let ?f = "fold (crc_byte poly_castagnoli)"
  define i where "i = unat init"
  define q where "q = (unat len - i) div 8"
  define e where "e = unat len - i - 8 * q"
  have le: "i \<le> unat len"
    using assms(1) by (simp add: i_def word_le_nat_alt)
  then have sum: "unat len = i + (8 * q + e)"
    by (simp add: e_def q_def)
  have "take (unat len) buf = take i buf @ take (8 * q) (drop i buf) @ take e (drop (i + 8 * q) buf)"
    unfolding sum by (simp only: take_add drop_drop add.commute[of "8 * q" i])
  moreover have "i + 8 * q + e \<le> length buf"
    using sum assms(2) by simp
  moreover have "unat ((len - init) div 8 * 8 div 8) = q"
    and "unat (len - init - (len - init) div 8 * 8) = e"
    using sb8_lengths[OF assms(1)] by (simp_all only: i_def q_def e_def)
  ultimately show ?thesis
    by (simp add: crc32c_sb8_64_bit_def Let_def i_def[symmetric] o32.loop_eq sb8_loop_eq)
qed

lemma crc32_eq:
  "nbytes \<le> length buf \<Longrightarrow>
   crc32 buf nbytes = Inr (NOT (crc_ref poly_ieee (NOT 0) (take nbytes buf)))"
  by (simp add: crc32_def ieee.loop_eq crc_ref_fold)

lemma crc32c_eq:
  assumes "unat len \<le> length buf"
  shows "crc32c crc addr buf len = Inr (crc_ref poly_castagnoli crc (take (unat len) buf))"
proof (cases "len < 4")
  case True
  then show ?thesis
    using assms by (simp add: crc32c_def singletable_crc32c_def single.loop_eq crc_ref_fold)
next
  case False
  then have "4 \<le> unat len"
    by (simp add: word_less_nat_alt)
  then have "ucast (4 - (addr AND 3)) \<le> len" "len \<noteq> 0"
    using word_addr_and_3[of addr] by (auto simp: word_le_nat_alt)
  then show ?thesis
    using False assms by (simp add: crc32c_def multitable_crc32c_def sb8_eq crc_ref_fold)
qed

text \<open>A window of four bytes acts on the register as one word, which can be read back.\<close>

lemma le32_inj: "le32 a0 a1 a2 a3 = le32 b0 b1 b2 b3 \<longleftrightarrow> [a0, a1, a2, a3] = [b0, b1, b2, b3]"
proof
  have low: "low (le32 c0 c1 c2 c3) = c0" "low (drop_bit 8 (le32 c0 c1 c2 c3)) = c1"
      "low (drop_bit 16 (le32 c0 c1 c2 c3)) = c2" "low (drop_bit 24 (le32 c0 c1 c2 c3)) = c3"
    for c0 c1 c2 c3
    unfolding le32_or[symmetric]
    by (rule bit_word_eqI, use bit_imp_le_length[of c0] bit_imp_le_length[of c1]
        bit_imp_le_length[of c2] in \<open>force simp: bit_or_iff bit_drop_bit_eq bit_push_bit_iff bit_ucast_iff\<close>)+
  assume "le32 a0 a1 a2 a3 = le32 b0 b1 b2 b3"
  then show "[a0, a1, a2, a3] = [b0, b1, b2, b3]"
    by (metis low)
qed simp

lemma crc_ref_window:
  assumes "bit poly 31" and "length x = 4" and "length y = 4"
  shows "crc_ref poly r x = crc_ref poly r y \<longleftrightarrow> x = y"
proof -
  have four: "\<exists>a b c d. z = [a, b, c, d]" if "length z = 4" for z :: "u8 list"
    using that by (auto simp: numeral_eq_Suc length_Suc_conv)
  obtain a b c d where x: "x = [a, b, c, d]"
    using four assms(2) by blast
  obtain a' b' c' d' where y: "y = [a', b', c', d']"
    using four assms(3) by blast
  show ?thesis
    unfolding x y crc_ref_fold crc_bytes_le32 crc_shift_inj[OF assms(1)]
    by (simp only: xor.commute[of r] word_xor_cancel le32_inj)
qed

section \<open>Properties\<close>

text \<open>
  C18: \<open>crc32\<close> of the first \<open>size\<close> bytes of a buffer is the complement of the shift register
  of the reflected IEEE polynomial, started with all ones and fed the bytes bit by bit, the
  least significant bit first.
\<close>
theorem crc32_is_lfsr:
  assumes "nbytes \<le> length buf"
  shows "crc32 buf nbytes = Inr (NOT (crc_ref poly_ieee (NOT 0) (take nbytes buf)))"
  using assms by (rule crc32_eq)

theorem crc32_is_lfsr_witness:
  "crc32 [0x31, 0x32, 0x33] 3 = Inr (NOT (crc_ref poly_ieee (NOT 0) [0x31, 0x32, 0x33]))"
  using crc32_is_lfsr[of 3 "[0x31, 0x32, 0x33]"] by simp

text \<open>
  C7: \<open>crc32c\<close> is the shift register of the reflected Castagnoli polynomial for every buffer
  address, start value and length: the bytewise routine, the alignment head, the
  eight-byte rounds over eight tables and the tail together.
\<close>
theorem crc32c_is_lfsr:
  assumes "unat len \<le> length buf"
  shows "crc32c crc addr buf len = Inr (crc_ref poly_castagnoli crc (take (unat len) buf))"
  using assms by (rule crc32c_eq)

theorem crc32c_is_lfsr_witness:
  "crc32c 0 2 [1, 2, 3, 4, 5, 6, 7, 8, 9, 10, 11, 12] 12 =
     Inr (crc_ref poly_castagnoli 0 [1, 2, 3, 4, 5, 6, 7, 8, 9, 10, 11, 12])"
  using crc32c_is_lfsr[of 12 "[1, 2, 3, 4, 5, 6, 7, 8, 9, 10, 11, 12]" 0 2] by simp

text \<open>
  Each of the eight slice tables holds, for every byte value, the register after eight
  more zero bits than its predecessor, starting with eight: 2048 words of feedback terms.
\<close>
theorem sctp_tables_correct:
  "[sctp_crc_tableil8_o32, sctp_crc_tableil8_o40, sctp_crc_tableil8_o48, sctp_crc_tableil8_o56,
    sctp_crc_tableil8_o64, sctp_crc_tableil8_o72, sctp_crc_tableil8_o80, sctp_crc_tableil8_o88] =
   map (\<lambda>k. map (\<lambda>c::u8. crc_shift poly_castagnoli (8 * k) (ucast c)) (map of_nat [0..<256]))
     [1, 2, 3, 4, 5, 6, 7, 8]"
  using o32.tab_all o40.tab_all o48.tab_all o56.tab_all o64.tab_all o72.tab_all o80.tab_all o88.tab_all
  by simp

text \<open>
  C38: the checksum detects every error confined to four consecutive bytes: two buffers of
  one length that differ only inside such a window have different \<open>crc32\<close>.
\<close>
theorem crc32_detects_burst:
  assumes "length x = 4" and "length y = 4" and "x \<noteq> y"
  shows "crc32 (pre @ x @ post) (length pre + (4 + length post)) \<noteq>
         crc32 (pre @ y @ post) (length pre + (4 + length post))"
proof -
  have "bit poly_ieee 31"
    by simp
  then show ?thesis
    using assms by (simp add: crc32_eq crc_ref_append crc_ref_inj crc_ref_window)
qed

theorem crc32_detects_burst_witness:
  "crc32 ([9] @ [1, 2, 3, 4] @ [7, 7]) 7 \<noteq> crc32 ([9] @ [1, 2, 3, 5] @ [7, 7]) 7"
  using crc32_detects_burst[of "[1, 2, 3, 4]" "[1, 2, 3, 5]" "[9]" "[7, 7]"] by simp

text \<open>
  A checksum can be computed piecewise: the \<open>crc32c\<close> of a buffer is the \<open>crc32c\<close> of its
  second part started from that of the first, whatever the two addresses are.
\<close>
theorem crc32c_incremental:
  assumes "length xs + length ys < 2 ^ 32"
  shows "crc32c r a (xs @ ys) (of_nat (length xs + length ys)) =
    cbind (crc32c r b xs (of_nat (length xs))) (\<lambda>r'. crc32c r' d ys (of_nat (length ys)))"
proof -
  have u: "unat (of_nat n :: u32) = n" if "n \<le> length xs + length ys" for n
    using that assms by (simp add: unat_of_nat)
  have "unat (of_nat (length xs + length ys) :: u32) = length (xs @ ys)"
    by (simp only: u length_append order.refl)
  then show ?thesis
    by (simp only: crc32c_eq u order.refl le_add1 le_add2 take_all cbind_Inr crc_ref_append length_append)
qed

theorem crc32c_incremental_witness:
  "crc32c 0 0 [1, 2, 3, 4, 5, 6] 6 =
     cbind (crc32c 0 1 [1, 2] 2) (\<lambda>r. crc32c r 3 [3, 4, 5, 6] 4)"
  using crc32c_incremental[of "[1, 2]" "[3, 4, 5, 6]" 0 0 1 3] by simp

end
