(* ===== verification/CpuFeature.thy ===== *)
theory CpuFeature
  imports Crc32
begin

text \<open>
  The CPU-dependent half of \<open>crc32.intel\<close>: the CRC computed by the SSE 4.2 instruction
  (\<open>crc32c_hw\<close> of \<open>cpu_feature.c\<close> and of \<open>cpu_fi.c\<close>, \<open>crc32c_intel_le_hw\<close> of
  \<open>ucrc32hw.c\<close>) and the feature detection (\<open>cpu_has\<close>, \<open>sse42_enabled_cpu\<close>).  The processor is a
  parameter: the crc32 instruction of 8 and 64 bits, the flags register with what a
  \<open>popf\<close> leaves in it, and \<open>cpuid\<close>.
\<close>

section \<open>The instruction\<close>

record crc_insn =
  crc_u8 :: "u32 \<Rightarrow> u8 \<Rightarrow> u32"
  crc_u64 :: "u64 \<Rightarrow> u64 \<Rightarrow> u64"

text \<open>A little-endian 64-bit load.\<close>

definition load64 :: "u8 list \<Rightarrow> nat \<Rightarrow> u64 cresult" where
  "load64 buf p =
     cbind (load32 buf p) (\<lambda>lo. cbind (load32 buf (p + 4)) (\<lambda>hi.
     Inr (ucast lo OR push_bit 32 (ucast hi))))"

text \<open>\<open>crc32c_hw_byte\<close>, from position \<open>p\<close> of the buffer.\<close>

fun crc32c_hw_byte :: "crc_insn \<Rightarrow> u32 \<Rightarrow> u8 list \<Rightarrow> nat \<Rightarrow> nat \<Rightarrow> u32 cresult" where
  "crc32c_hw_byte cpu crc buf p 0 = Inr crc"
| "crc32c_hw_byte cpu crc buf p (Suc n) =
     cbind (aget buf (int p)) (\<lambda>c. crc32c_hw_byte cpu (crc_u8 cpu crc c) buf (p + 1) n)"

text \<open>The loop over words: the register holds the 32-bit \<open>crc\<close>, the 64-bit result is cut to it.\<close>

fun crc_hw_words :: "crc_insn \<Rightarrow> u32 \<Rightarrow> u8 list \<Rightarrow> nat \<Rightarrow> nat \<Rightarrow> u32 cresult" where
  "crc_hw_words cpu crc buf p 0 = Inr crc"
| "crc_hw_words cpu crc buf p (Suc n) =
     cbind (load64 buf p) (\<lambda>w.
     crc_hw_words cpu (ucast (crc_u64 cpu (ucast crc) w)) buf (p + 8) n)"

text \<open>
  \<open>cpu_feature.c\<close>: the number of words and the remainder are \<open>unsigned int\<close>, so that the
  quotient of a \<open>size_t\<close> is cut to 32 bits.
\<close>

definition crc32c_hw :: "crc_insn \<Rightarrow> u32 \<Rightarrow> u8 list \<Rightarrow> nat \<Rightarrow> u32 cresult" where
  "crc32c_hw cpu crc p len =
     (let iquotient = unat (of_nat (len div 8) :: u32);
          iremainder = unat (of_nat (len mod 8) :: u32) in
      cbind (crc_hw_words cpu crc p 0 iquotient) (\<lambda>crc.
      if iremainder \<noteq> 0 then crc32c_hw_byte cpu crc p (8 * iquotient) iremainder else Inr crc))"

text \<open>\<open>cpu_fi.c\<close>: the same over the compiler's intrinsics, with counters of type \<open>size_t\<close>.\<close>

definition crc32c_hw_fi :: "crc_insn \<Rightarrow> u32 \<Rightarrow> u8 list \<Rightarrow> nat \<Rightarrow> u32 cresult" where
  "crc32c_hw_fi cpu crc p len =
     (let nwords = len div 8; nbytes = len mod 8 in
      cbind (crc_hw_words cpu crc p 0 nwords) (\<lambda>crc.
      if nbytes \<noteq> 0 then crc32c_hw_byte cpu crc p (8 * nwords) nbytes else Inr crc))"

text \<open>\<open>ucrc32hw.c\<close>: a copy of the routine, under another name.\<close>

fun crc32c_intel_le_hw_byte :: "crc_insn \<Rightarrow> u32 \<Rightarrow> u8 list \<Rightarrow> nat \<Rightarrow> nat \<Rightarrow> u32 cresult" where
  "crc32c_intel_le_hw_byte cpu crc buf p 0 = Inr crc"
| "crc32c_intel_le_hw_byte cpu crc buf p (Suc n) =
     cbind (aget buf (int p)) (\<lambda>c. crc32c_intel_le_hw_byte cpu (crc_u8 cpu crc c) buf (p + 1) n)"

definition crc32c_intel_le_hw :: "crc_insn \<Rightarrow> u32 \<Rightarrow> u8 list \<Rightarrow> nat \<Rightarrow> u32 cresult" where
  "crc32c_intel_le_hw cpu crc p len =
     (let iquotient = unat (of_nat (len div 8) :: u32);
          iremainder = unat (of_nat (len mod 8) :: u32) in
      cbind (crc_hw_words cpu crc p 0 iquotient) (\<lambda>crc.
      if iremainder \<noteq> 0 then crc32c_intel_le_hw_byte cpu crc p (8 * iquotient) iremainder
      else Inr crc))"

text \<open>What the processor manual says of the instruction.\<close>

definition sse42_crc :: "crc_insn \<Rightarrow> bool" where
  "sse42_crc cpu \<longleftrightarrow>
     (\<forall>r c. crc_u8 cpu r c = crc_shift poly_castagnoli 8 (r XOR ucast c)) \<and>
     (\<forall>r w. crc_u64 cpu (ucast r) w = ucast (crc_shift poly_castagnoli 32
        (crc_shift poly_castagnoli 32 (r XOR ucast w) XOR ucast (drop_bit 32 w))))"

section \<open>Detection\<close>

text \<open>
  The processor: its flags, what the flags hold after a \<open>popf\<close> of a value, and \<open>cpuid\<close>
  (leaf to EAX, EBX, ECX, EDX), with the highest leaf it supports.
\<close>

record x86 =
  x86_flags :: u64
  x86_popf :: "u64 \<Rightarrow> u64 \<Rightarrow> u64"
  x86_cpuid :: "u64 \<Rightarrow> u64 list"
  x86_max_leaf :: nat

definition toggle_x86_flags :: "x86 \<Rightarrow> u64 \<Rightarrow> x86 \<times> u64 \<times> u64" where
  "toggle_x86_flags cpu msk =
     (let orig = x86_flags cpu;
          cpu1 = cpu\<lparr>x86_flags := x86_popf cpu orig (orig XOR msk)\<rparr>;
          toggled = x86_flags cpu1;
          cpu2 = cpu1\<lparr>x86_flags := x86_popf cpu1 toggled orig\<rparr> in
      (cpu2, orig, toggled))"

definition can_cpuid :: "x86 \<Rightarrow> x86 \<times> int \<times> bool" where
  "can_cpuid cpu =
     (let cpuf_AC = push_bit 18 1; cpuf_ID = push_bit 21 1;
          (cpu, orig, toggled) = toggle_x86_flags cpu cpuf_AC in
      if (orig AND cpuf_AC) = (toggled AND cpuf_AC) then (cpu, -10, False)
      else let (cpu, orig, toggled) = toggle_x86_flags cpu cpuf_ID in
        if (orig AND cpuf_ID) = (toggled AND cpuf_ID) then (cpu, -11, False)
        else (cpu, 0, True))"

text \<open>The feature table: a register number (EAX to EDX are 0 to 3) and a mask.\<close>

definition cpu_ftr :: "(nat \<times> u32) list" where
  "cpu_ftr = [(3, push_bit 28 1), (2, push_bit 19 1), (2, push_bit 20 1), (2, push_bit 31 1)]"

definition cpu_has :: "x86 \<Rightarrow> nat \<Rightarrow> (x86 \<times> int) cresult" where
  "cpu_has cpu feature =
     (case can_cpuid cpu of (cpu, err, ok) \<Rightarrow>
      if \<not> ok then Inr (cpu, err)
      else if feature > length cpu_ftr then Inr (cpu, - ERANGE)
      else let reg = x86_cpuid cpu 1 in
        cbind (aget cpu_ftr (int feature)) (\<lambda>(ri, msk).
        cbind (aget reg (int ri)) (\<lambda>r.
        Inr (cpu, if r AND ucast msk \<noteq> 0 then 1 else 0))))"

definition sse42_enabled_cpu :: "x86 \<Rightarrow> int cresult" where
  "sse42_enabled_cpu cpu =
     (if x86_max_leaf cpu < 1 then Inr 0
      else cbind (aget (x86_cpuid cpu 1) 2) (\<lambda>cx.
        Inr (if (ucast cx :: u32) AND push_bit 20 1 \<noteq> 0 then 1 else 0)))"

text \<open>
  \<open>cpuid.c\<close>: its own \<open>can_cpuid\<close> has no error code; \<open>get_cpuid_xfeatures\<close> prints the names of
  the features found; \<open>main\<close> returns 0 or \<open>EINVAL\<close>.  The last mask is the negative \<open>int\<close>
  \<open>1 << 31\<close>, widened to \<open>long\<close>.
\<close>

definition cpuid_can_cpuid :: "x86 \<Rightarrow> x86 \<times> bool" where
  "cpuid_can_cpuid cpu =
     (let cpuf_AC = push_bit 18 1; cpuf_ID = push_bit 21 1;
          (cpu, ofl, tfl) = toggle_x86_flags cpu cpuf_AC in
      if (ofl AND cpuf_AC) = (tfl AND cpuf_AC) then (cpu, False)
      else let (cpu, ofl, tfl) = toggle_x86_flags cpu cpuf_ID in
        (cpu, (ofl AND cpuf_ID) \<noteq> (tfl AND cpuf_ID)))"

definition get_cpuid_xfeatures :: "x86 \<Rightarrow> (string list \<times> u64 \<times> u64) cresult" where
  "get_cpuid_xfeatures cpu =
     cbind (aget (x86_cpuid cpu 1) 2) (\<lambda>ecx. cbind (aget (x86_cpuid cpu 1) 3) (\<lambda>edx.
     Inr ((if edx AND push_bit 28 1 \<noteq> 0 then [''ht''] else []) @
          (if edx AND push_bit 30 1 \<noteq> 0 then [''ia64''] else []) @
          (if ecx AND push_bit 8 1 \<noteq> 0 then [''tm2''] else []) @
          (if ecx AND push_bit 19 1 \<noteq> 0 then [''sse4_1''] else []) @
          (if ecx AND push_bit 20 1 \<noteq> 0 then [''sse4_2''] else []) @
          (if ecx AND push_bit 31 (- 1) \<noteq> 0 then [''hyperv''] else []), ecx, edx)))"

definition cpuid_main :: "x86 \<Rightarrow> (string list \<times> int) cresult" where
  "cpuid_main cpu =
     (case cpuid_can_cpuid cpu of (cpu, ok) \<Rightarrow>
      if ok then cbind (get_cpuid_xfeatures cpu) (\<lambda>(names, c, d). Inr (names, 0))
      else Inr ([], EINVAL))"

section \<open>Lemmas\<close>

lemma load64_eq:
  assumes "p + 8 \<le> length buf"
  shows "load64 buf p = Inr (ucast (le32 (buf ! p) (buf ! (p + 1)) (buf ! (p + 2)) (buf ! (p + 3))) OR
    push_bit 32 (ucast (le32 (buf ! (p + 4)) (buf ! (p + 5)) (buf ! (p + 6)) (buf ! (p + 7)))))"
  using assms load32_eq[of p buf] load32_eq[of "p + 4" buf] by (simp add: load64_def ac_simps)

lemma word_halves:
  fixes lo hi :: u32
  defines "w \<equiv> (ucast lo OR push_bit 32 (ucast hi) :: u64)"
  shows "ucast w = lo" and "ucast (drop_bit 32 w) = hi"
  unfolding w_def
  by (rule bit_word_eqI, force simp: bit_simps dest: bit_imp_le_length)+

lemma take_8_words:
  assumes "p + 8 \<le> length buf"
  shows "take 8 (drop p buf) =
      [buf ! p, buf ! (p + 1), buf ! (p + 2), buf ! (p + 3)] @
      [buf ! (p + 4), buf ! (p + 5), buf ! (p + 6), buf ! (p + 7)]"
  using assms by (intro nth_equalityI) (auto simp: nth_append nth_Cons' less_Suc_eq numeral_eq_Suc)

lemma ucast_up_down [simp]: "ucast (ucast r :: u64) = r" for r :: u32
  by (rule bit_word_eqI) (auto simp: bit_simps)

lemma hw_word_step:
  assumes "sse42_crc cpu" and "p + 8 \<le> length buf"
  shows "cbind (load64 buf p) (\<lambda>w. f (ucast (crc_u64 cpu (ucast r) w))) =
    f (fold (crc_byte poly_castagnoli) (take 8 (drop p buf)) r)"
proof -
  define lo where "lo = le32 (buf ! p) (buf ! (p + 1)) (buf ! (p + 2)) (buf ! (p + 3))"
  define hi where "hi = le32 (buf ! (p + 4)) (buf ! (p + 5)) (buf ! (p + 6)) (buf ! (p + 7))"
  have "fold (crc_byte poly_castagnoli) (take 8 (drop p buf)) r
      = crc_shift poly_castagnoli 32 (crc_shift poly_castagnoli 32 (r XOR lo) XOR hi)"
    by (simp only: take_8_words[OF assms(2)] fold_append o_apply crc_bytes_le32 lo_def hi_def)
  moreover have "load64 buf p = Inr (ucast lo OR push_bit 32 (ucast hi))"
    by (simp only: load64_eq[OF assms(2)] lo_def hi_def)
  ultimately show ?thesis
    using assms(1) by (simp only: cbind_Inr sse42_crc_def word_halves ucast_up_down)
qed

lemma hw_words_eq:
  assumes "sse42_crc cpu"
  shows "p + 8 * n \<le> length buf \<Longrightarrow>
    crc_hw_words cpu r buf p n = Inr (fold (crc_byte poly_castagnoli) (take (8 * n) (drop p buf)) r)"
proof (induction n arbitrary: p r)
  case (Suc n)
  have "take (8 * Suc n) (drop p buf) = take 8 (drop p buf) @ take (8 * n) (drop (p + 8) buf)"
    by (simp add: take_add add.commute)
  moreover have "p + 8 \<le> length buf" "(p + 8) + 8 * n \<le> length buf"
    using Suc.prems by simp_all
  moreover have "crc_hw_words cpu r buf p (Suc n) =
      crc_hw_words cpu (fold (crc_byte poly_castagnoli) (take 8 (drop p buf)) r) buf (p + 8) n"
    using hw_word_step[OF assms \<open>p + 8 \<le> length buf\<close>,
        where f = "\<lambda>r. crc_hw_words cpu r buf (p + 8) n" and r = r] by simp
  ultimately show ?case
    by (simp only: Suc.IH fold_append o_apply)
qed simp

lemma hw_byte_eq:
  assumes "sse42_crc cpu"
  shows "p + n \<le> length buf \<Longrightarrow>
    crc32c_hw_byte cpu r buf p n = Inr (fold (crc_byte poly_castagnoli) (take n (drop p buf)) r)"
proof (induction n arbitrary: p r)
  case (Suc n)
  then have "take (Suc n) (drop p buf) = buf ! p # take n (drop (p + 1) buf)"
    by (simp add: take_Suc_conv_app_nth Cons_nth_drop_Suc[symmetric])
  with Suc assms show ?case
    by (simp add: sse42_crc_def crc_byte_def)
qed simp

lemma crc32c_hw_fi_eq:
  assumes "sse42_crc cpu" and "len \<le> length p"
  shows "crc32c_hw_fi cpu r p len = Inr (crc_ref poly_castagnoli r (take len p))"
proof -
  define q e where "q = len div 8" and "e = len mod 8"
  have sum: "len = 8 * q + e"
    by (simp add: q_def e_def)
  have "take len p = take (8 * q) p @ take e (drop (8 * q) p)"
    by (simp only: sum take_add)
  moreover have "8 * q + e \<le> length p"
    using sum assms(2) by simp
  ultimately show ?thesis
    using assms(1)
    by (simp add: crc32c_hw_fi_def Let_def q_def[symmetric] e_def[symmetric] hw_words_eq hw_byte_eq
        crc_ref_fold)
qed

lemma crc32c_hw_small:
  assumes "len < 2 ^ 35"
  shows "crc32c_hw cpu r p len = crc32c_hw_fi cpu r p len"
proof -
  have "unat (of_nat (len div 8) :: u32) = len div 8" "unat (of_nat (len mod 8) :: u32) = len mod 8"
    using assms by (simp_all add: unat_of_nat)
  then show ?thesis
    by (simp add: crc32c_hw_def crc32c_hw_fi_def Let_def)
qed

text \<open>
  A processor on which a \<open>popf\<close> changes the flags of the set \<open>W\<close> and no others.
\<close>

definition writable_flags :: "x86 \<Rightarrow> u64 \<Rightarrow> bool" where
  "writable_flags cpu W \<longleftrightarrow> (\<forall>f g. x86_popf cpu f g = (f AND NOT W) OR (g AND W))"

lemma toggle_writable:
  assumes "writable_flags cpu W"
  shows "toggle_x86_flags cpu msk = (cpu, x86_flags cpu, x86_flags cpu XOR (msk AND W))"
proof -
  have "(f AND NOT W) OR ((f XOR msk) AND W) = f XOR (msk AND W)" for f
    by (rule bit_word_eqI) (auto simp: bit_simps)
  moreover have "((f XOR (msk AND W)) AND NOT W) OR (f AND W) = f" for f
    by (rule bit_word_eqI) (auto simp: bit_simps)
  ultimately show ?thesis
    using assms by (simp add: toggle_x86_flags_def writable_flags_def Let_def)
qed

lemma toggled_bit:
  fixes f W :: u64
  assumes "n < 64"
  shows "(f AND push_bit n 1) = ((f XOR (push_bit n 1 AND W)) AND push_bit n 1) \<longleftrightarrow> \<not> bit W n"
proof
  assume "(f AND push_bit n 1) = ((f XOR (push_bit n 1 AND W)) AND push_bit n 1)"
  then have "bit (f AND push_bit n 1) n = bit ((f XOR (push_bit n 1 AND W)) AND push_bit n 1) n"
    by simp
  with assms show "\<not> bit W n"
    by (simp only: bit_and_iff bit_xor_iff bit_push_bit_iff) (auto simp: bit_simps)
next
  assume "\<not> bit W n"
  then show "(f AND push_bit n 1) = ((f XOR (push_bit n 1 AND W)) AND push_bit n 1)"
    by (intro bit_word_eqI, simp only: bit_and_iff bit_xor_iff bit_push_bit_iff)
       (auto simp: bit_1_iff)
qed

lemma can_cpuid_eq:
  assumes "writable_flags cpu W"
  shows "can_cpuid cpu =
    (cpu, (if \<not> bit W 18 then -10 else if \<not> bit W 21 then -11 else 0), bit W 18 \<and> bit W 21)"
  using toggled_bit[of 18 "x86_flags cpu" W] toggled_bit[of 21 "x86_flags cpu" W]
  by (simp only: can_cpuid_def toggle_writable[OF assms] Let_def prod.case) simp

lemma cpuid_can_cpuid_eq:
  assumes "writable_flags cpu W"
  shows "cpuid_can_cpuid cpu = (cpu, bit W 18 \<and> bit W 21)"
  using toggled_bit[of 18 "x86_flags cpu" W] toggled_bit[of 21 "x86_flags cpu" W]
  by (simp only: cpuid_can_cpuid_def toggle_writable[OF assms] Let_def prod.case) simp

text \<open>
  A processor with \<open>cpuid\<close>: among the flags a program can write are AC (18) and ID (21), whatever
  the others are (the reserved bits, IF and IOPL are not), and leaf 1 exists and fills four
  registers.
\<close>

definition modern_cpu :: "x86 \<Rightarrow> bool" where
  "modern_cpu cpu \<longleftrightarrow> (\<exists>W. writable_flags cpu W \<and> bit W 18 \<and> bit W 21) \<and>
     1 \<le> x86_max_leaf cpu \<and> length (x86_cpuid cpu 1) = 4"

lemma modern_can_cpuid: "modern_cpu cpu \<Longrightarrow> can_cpuid cpu = (cpu, 0, True)"
  by (auto simp: modern_cpu_def can_cpuid_eq)

lemma modern_cpuid_can_cpuid: "modern_cpu cpu \<Longrightarrow> cpuid_can_cpuid cpu = (cpu, True)"
  by (auto simp: modern_cpu_def cpuid_can_cpuid_eq)

text \<open>
  A processor of the first generation with SSE 4.2, as a user program sees it: of the flags
  \<open>popf\<close> writes CF, PF, AF, ZF, SF, TF, DF, OF, NT, AC and ID and no others. And one of the last
  before \<open>cpuid\<close>, which has AC and no ID.
\<close>

definition nehalem :: x86 where
  "nehalem = \<lparr>x86_flags = 0x202,
     x86_popf = (\<lambda>f g. (f AND NOT 0x244DD5) OR (g AND 0x244DD5)),
     x86_cpuid = (\<lambda>leaf. if leaf = 0 then [11, 0x756E6547, 0x6C65746E, 0x49656E69]
        else if leaf = 1 then [0x106A5, 0x100800, 0x9CE3BD, 0xBFEBFBFF] else [0, 0, 0, 0]),
     x86_max_leaf = 11\<rparr>"

definition i486 :: x86 where
  "i486 = \<lparr>x86_flags = 2, x86_popf = (\<lambda>f g. (f AND NOT 0x44DD5) OR (g AND 0x44DD5)),
     x86_cpuid = (\<lambda>_. []), x86_max_leaf = 0\<rparr>"

lemma nehalem_flags: "writable_flags nehalem 0x244DD5"
  by (simp add: writable_flags_def nehalem_def)

lemma nehalem_modern: "modern_cpu nehalem"
  unfolding modern_cpu_def
  by (intro conjI exI[of _ "0x244DD5"] nehalem_flags) (simp_all add: bit_numeral_word_iff nehalem_def)

lemma i486_flags: "writable_flags i486 0x44DD5"
  by (simp add: writable_flags_def i486_def)

definition sse42_model :: crc_insn where
  "sse42_model = \<lparr>crc_u8 = (\<lambda>r c. crc_shift poly_castagnoli 8 (r XOR ucast c)),
     crc_u64 = (\<lambda>r w. ucast (crc_shift poly_castagnoli 32
        (crc_shift poly_castagnoli 32 (ucast r XOR ucast w) XOR ucast (drop_bit 32 w))))\<rparr>"

lemma sse42_model: "sse42_crc sse42_model"
  by (simp add: sse42_crc_def sse42_model_def)

lemma crc32c_intel_byte_eq: "crc32c_intel_le_hw_byte cpu r buf p n = crc32c_hw_byte cpu r buf p n"
  by (induction n arbitrary: p r) simp_all

lemma crc32c_intel_eq: "crc32c_intel_le_hw cpu r p len = crc32c_hw cpu r p len"
  unfolding crc32c_intel_le_hw_def crc32c_hw_def crc32c_intel_byte_eq ..

lemma and_bit_20: "((w::u64) AND push_bit 20 1 = 0) = ((ucast w :: u32) AND push_bit 20 1 = 0)"
  by (simp only: push_bit_of_1 and_exp_eq_0_iff_not_bit) (simp add: bit_simps)

lemma cpuid_main_modern:
  assumes "modern_cpu cpu"
  shows "\<exists>names. cpuid_main cpu = Inr (names, 0) \<and>
    (''sse4_2'' \<in> set names \<longleftrightarrow> cpu_has cpu 2 = Inr (cpu, 1))"
proof -
  have "length (x86_cpuid cpu 1) = 4"
    using assms by (simp add: modern_cpu_def)
  then show ?thesis
    using assms
    by (simp add: cpuid_main_def get_cpuid_xfeatures_def cpu_has_def modern_can_cpuid
        modern_cpuid_can_cpuid cpu_ftr_def Let_def)
qed

section \<open>Properties\<close>

lemma hw_is_sw:
  assumes "sse42_crc cpu" and "unat len \<le> length p"
  shows "crc32c_hw cpu crc p (unat len) = crc32c crc addr p len"
    and "crc32c_hw_fi cpu crc p (unat len) = crc32c crc addr p len"
proof -
  have "unat len < 2 ^ 32"
    using unsigned_less[of len] by simp
  then have "unat len < 2 ^ 35"
    by simp
  moreover show "crc32c_hw_fi cpu crc p (unat len) = crc32c crc addr p len"
    using assms by (simp only: crc32c_hw_fi_eq crc32c_eq)
  ultimately show "crc32c_hw cpu crc p (unat len) = crc32c crc addr p len"
    by (simp only: crc32c_hw_small)
qed

text \<open>
  C14: on a processor whose crc32 instruction does what its manual says, the three hardware
  routines give the checksum of the table routine \<open>crc32c\<close> for every buffer that the latter
  can take (lengths below \<open>2 ^ 32\<close>), at every address.
\<close>
theorem crc32c_hw_eq_sw:
  assumes "sse42_crc cpu" and "unat len \<le> length p"
  shows "[crc32c_hw cpu crc p (unat len), crc32c_hw_fi cpu crc p (unat len),
      crc32c_intel_le_hw cpu crc p (unat len)] = replicate 3 (crc32c crc addr p len)"
  using hw_is_sw[OF assms]
  by (simp only: crc32c_intel_eq) (simp add: numeral_3_eq_3)

theorem crc32c_hw_eq_sw_witness:
  "[crc32c_hw sse42_model 0 [1, 2, 3, 4, 5, 6, 7, 8, 9] 9, crc32c_hw_fi sse42_model 0 [1, 2, 3, 4, 5, 6, 7, 8, 9] 9,
    crc32c_intel_le_hw sse42_model 0 [1, 2, 3, 4, 5, 6, 7, 8, 9] 9] =
   replicate 3 (crc32c 0 5 [1, 2, 3, 4, 5, 6, 7, 8, 9] 9)"
  using crc32c_hw_eq_sw[OF sse42_model, of 9 "[1, 2, 3, 4, 5, 6, 7, 8, 9]" 0 5] by simp

text \<open>
  The counter of \<open>crc32c_hw\<close> in \<open>cpu_feature.c\<close> is \<open>unsigned int\<close>: of a buffer of
  \<open>2 ^ 35\<close> bytes it reads nothing and returns the start value.
\<close>
theorem crc32c_hw_wraps:
  "crc32c_hw cpu crc p (2 ^ 35) = Inr crc"
  by (simp add: crc32c_hw_def)

lemma cpu_has_sse42_eq:
  assumes "modern_cpu cpu"
  shows "cpu_has cpu 2 = cbind (sse42_enabled_cpu cpu) (\<lambda>r. Inr (cpu, r))"
  using assms and_bit_20[of "x86_cpuid cpu 1 ! 2"]
  by (simp add: cpu_has_def modern_can_cpuid sse42_enabled_cpu_def cpu_ftr_def modern_cpu_def Let_def)

text \<open>
  On a processor with \<open>cpuid\<close>, \<open>cpu_has\<close> of the SSE 4.2 feature (number 2) answers what
  \<open>sse42_enabled_cpu\<close> answers, and leaves the flags register as it found it.
\<close>
theorem cpu_has_sse42:
  assumes "modern_cpu cpu"
  shows "cpu_has cpu 2 = cbind (sse42_enabled_cpu cpu) (\<lambda>r. Inr (cpu, r))"
  using assms by (rule cpu_has_sse42_eq)

theorem cpu_has_sse42_witness: "cpu_has nehalem 2 = Inr (nehalem, 1)"
  using cpu_has_sse42[OF nehalem_modern]
  by (simp add: sse42_enabled_cpu_def nehalem_def)

text \<open>
  The range check of \<open>cpu_has\<close> lets the first number past the table through: on a
  processor with \<open>cpuid\<close> a feature number of exactly 4 reads past \<open>cpu_ftr\<close>, only larger ones
  give \<open>-ERANGE\<close>.
\<close>
theorem cpu_has_range:
  assumes "modern_cpu cpu"
  shows "cpu_has cpu (4 + n) = (if n = 0 then Inl OutOfBounds else Inr (cpu, - ERANGE))"
  using assms by (simp add: cpu_has_def modern_can_cpuid cpu_ftr_def Let_def aget_def)

theorem cpu_has_range_witness:
  "(cpu_has nehalem 4, cpu_has nehalem 5) = (Inl OutOfBounds, Inr (nehalem, - 34))"
  using cpu_has_range[OF nehalem_modern, of 0] cpu_has_range[OF nehalem_modern, of 1] by simp

text \<open>
  A processor that cannot toggle AC or ID is reported by \<open>cpu_has\<close> with the private codes
  -10 and -11, whatever the feature asked for, and its flags are restored.
\<close>
theorem cpu_has_unsupported:
  assumes "writable_flags cpu W" and "\<not> (bit W 18 \<and> bit W 21)"
  shows "cpu_has cpu feature = Inr (cpu, if bit W 18 then -11 else -10)"
  using assms by (auto simp: cpu_has_def can_cpuid_eq)

theorem cpu_has_unsupported_witness: "cpu_has i486 2 = Inr (i486, -11)"
  using cpu_has_unsupported[OF i486_flags, of 2] by (simp add: bit_numeral_word_iff)

end
