(* ===== verification/Xvdat.thy ===== *)
theory Xvdat
  imports Prelude
begin

text \<open>
  \<open>fdwatch/xvdat.c\<close>: the growing array (\<open>xvec\<close>) and the slot list on top of it
  (\<open>xvlst\<close>), whose first fields are those of \<open>xvec\<close> so that the code casts one to the other;
  here the record of the list extends that of the array.  A block of memory is the list of its
  bytes; whether \<open>realloc\<close> succeeds is a parameter (a predicate of the requested size, one for
  the data and one for the flags), and so is what fresh memory holds.
\<close>

section \<open>Memory\<close>

definition c_realloc :: "(nat \<Rightarrow> bool) \<Rightarrow> u8 \<Rightarrow> u8 list option \<Rightarrow> nat \<Rightarrow> u8 list option" where
  "c_realloc ok junk p n =
     (if ok n then
        (let old = (case p of None \<Rightarrow> [] | Some b \<Rightarrow> b) in
         Some (take n old @ replicate (n - length old) junk))
      else None)"

definition pget :: "u8 list option \<Rightarrow> int \<Rightarrow> u8 cresult" where
  "pget p i = (case p of None \<Rightarrow> Inl BadPointer | Some b \<Rightarrow> aget b i)"

definition pset :: "u8 list option \<Rightarrow> int \<Rightarrow> u8 \<Rightarrow> u8 list option cresult" where
  "pset p i c = (case p of None \<Rightarrow> Inl BadPointer
     | Some b \<Rightarrow> cbind (aset b i c) (\<lambda>b. Inr (Some b)))"

text \<open>\<open>memset (&b[from], 0, n)\<close> and \<open>memchr (&b[from], 0, n)\<close>, the latter as an index into \<open>b\<close>.\<close>

definition c_bzero :: "u8 list \<Rightarrow> nat \<Rightarrow> nat \<Rightarrow> u8 list cresult" where
  "c_bzero b from n =
     (if from + n \<le> length b then Inr (take from b @ replicate n 0 @ drop (from + n) b)
      else Inl OutOfBounds)"

definition c_memchr0 :: "u8 list \<Rightarrow> nat \<Rightarrow> nat \<Rightarrow> int option cresult" where
  "c_memchr0 b from n =
     (if from + n \<le> length b then
        (let k = length (takeWhile (\<lambda>c. c \<noteq> 0) (take n (drop from b))) in
         Inr (if k < n then Some (int (from + k)) else None))
      else Inl OutOfBounds)"

section \<open>The growing array\<close>

record xvec =
  data :: "u8 list option"
  xlen :: nat
  max_len :: nat

definition xvec_reserve ::
  "(nat \<Rightarrow> bool) \<Rightarrow> u8 \<Rightarrow> 'z xvec_scheme \<Rightarrow> nat \<Rightarrow> nat \<Rightarrow> nat \<Rightarrow> ('z xvec_scheme \<times> int) cresult" where
  "xvec_reserve ok junk v new_max blksz growblk =
     cbind (cassert (0 < growblk)) (\<lambda>_.
     if new_max < max_len v then Inr (v, 0)
     else
       (let nblk = size_mul (size_add 1 (size_sub new_max 1 div growblk)) growblk in
        case c_realloc ok junk (data v) (size_mul nblk blksz) of
          None \<Rightarrow> Inr (v, -1)
        | Some p \<Rightarrow> Inr (v\<lparr>data := Some p, max_len := nblk\<rparr>, 0)))"

definition xvec_expand ::
  "(nat \<Rightarrow> bool) \<Rightarrow> u8 \<Rightarrow> 'z xvec_scheme \<Rightarrow> nat \<Rightarrow> nat \<Rightarrow> nat \<Rightarrow> ('z xvec_scheme \<times> int) cresult" where
  "xvec_expand ok junk v extra blksz growblk =
     cbind (cassert (0 < extra \<and> 0 < blksz \<and> 0 < growblk)) (\<lambda>_.
     xvec_reserve ok junk v (size_add (xlen v) extra) blksz growblk)"

section \<open>The slot list\<close>

record xvlst = xvec +
  taken :: "u8 list option"
  last_ix :: nat
  avail :: int

definition xvlst_reserve ::
  "(nat \<Rightarrow> bool) \<Rightarrow> (nat \<Rightarrow> bool) \<Rightarrow> u8 \<Rightarrow> xvlst \<Rightarrow> nat \<Rightarrow> nat \<Rightarrow> nat \<Rightarrow> (xvlst \<times> int) cresult" where
  "xvlst_reserve okd okt junk l new_max blksz growblk =
     (if new_max \<le> max_len l then Inr (l, 0)
      else
        (let old_max = max_len l in
         cbind (xvec_reserve okd junk l new_max blksz growblk) (\<lambda>(l, rc).
         if rc \<noteq> 0 then Inr (l, rc)
         else if max_len l \<le> old_max then Inr (l, rc)
         else
           (let l = l\<lparr>taken := c_realloc okt junk (taken l) (max_len l)\<rparr> in
            case taken l of
              None \<Rightarrow> Inr (l, -1)
            | Some b \<Rightarrow>
                cbind (c_bzero b old_max (max_len l - old_max)) (\<lambda>b.
                let l = l\<lparr>taken := Some b\<rparr> in
                Inr (if avail l < 0 then l\<lparr>avail := to_ssize old_max\<rparr> else l, 0))))))"

definition xvlst_expand ::
  "(nat \<Rightarrow> bool) \<Rightarrow> (nat \<Rightarrow> bool) \<Rightarrow> u8 \<Rightarrow> xvlst \<Rightarrow> nat \<Rightarrow> nat \<Rightarrow> nat \<Rightarrow> (xvlst \<times> int) cresult" where
  "xvlst_expand okd okt junk l extra blksz growblk =
     cbind (cassert (0 < extra \<and> 0 < blksz \<and> 0 < growblk)) (\<lambda>_.
     xvlst_reserve okd okt junk l (size_add (xlen l) extra) blksz growblk)"

text \<open>The second half of \<open>xvlst_add\<close>: slot \<open>i\<close> has been marked; find the next free one.\<close>

definition xvlst_next_avail :: "xvlst \<Rightarrow> int \<Rightarrow> xvlst cresult" where
  "xvlst_next_avail l i =
     (if i = to_ssize (last_ix l) then
        (let l = l\<lparr>avail := i + 1\<rparr> in
         if to_ssize (max_len l) \<le> avail l then Inr (l\<lparr>avail := -1\<rparr>)
         else cbind (pget (taken l) (avail l)) (\<lambda>c. cbind (cassert (c = 0)) (\<lambda>_. Inr l)))
      else cbind (pget (taken l) (i + 1)) (\<lambda>c.
        if c = 0 then Inr (l\<lparr>avail := i + 1\<rparr>)
        else case taken l of
            None \<Rightarrow> Inl BadPointer
          | Some b \<Rightarrow>
              cbind (c_memchr0 b (nat i + 1) (size_sub (size_sub (max_len l) (to_size i)) 1)) (\<lambda>found.
              Inr (l\<lparr>avail := (case found of None \<Rightarrow> -1 | Some k \<Rightarrow> k)\<rparr>))))"

definition xvlst_add ::
  "(nat \<Rightarrow> bool) \<Rightarrow> (nat \<Rightarrow> bool) \<Rightarrow> u8 \<Rightarrow> xvlst \<Rightarrow> nat \<Rightarrow> nat \<Rightarrow> (xvlst \<times> int) cresult" where
  "xvlst_add okd okt junk l blksz growblk =
     cbind (cassert (avail l < to_ssize (max_len l))) (\<lambda>_.
     cbind (xvlst_expand okd okt junk l 1 blksz growblk) (\<lambda>(l, rc).
     if rc \<noteq> 0 then Inr (l, - ENOMEM)
     else if avail l < 0 then Inr (l, -1)
     else
       (let i = avail l in
        cbind (pset (taken l) i 1) (\<lambda>t.
        let l = l\<lparr>taken := t\<rparr>;
            l = (if to_ssize (last_ix l) < i then l\<lparr>last_ix := to_size i\<rparr> else l) in
        cbind (xvlst_next_avail l i) (\<lambda>l.
        Inr (l\<lparr>xlen := size_add (xlen l) 1\<rparr>, i))))))"

definition xvlst_del :: "xvlst \<Rightarrow> nat \<Rightarrow> (xvlst \<times> int) cresult" where
  "xvlst_del l index =
     (if last_ix l < index then Inr (l, ERANGE)
      else cbind (pget (taken l) (int index)) (\<lambda>c.
        if c = 0 then Inr (l, EALREADY)
        else cbind (pset (taken l) (int index) 0) (\<lambda>t.
          let l = l\<lparr>taken := t\<rparr>;
              l = (if avail l < 0 \<or> to_ssize index < avail l then l\<lparr>avail := to_ssize index\<rparr> else l) in
          cbind (cassert (xlen l \<noteq> 0)) (\<lambda>_.
          Inr (l\<lparr>xlen := size_sub (xlen l) 1\<rparr>, 0)))))"

section \<open>The array grows to a multiple of the block\<close>

lemma round_up:
  fixes n g :: nat
  assumes "0 < n" and "0 < g"
  shows "n \<le> (1 + (n - 1) div g) * g" and "(1 + (n - 1) div g) * g < n + g"
proof -
  define q r where "q = (n - 1) div g" and "r = (n - 1) mod g"
  have "q * g + r = n - 1" "r < g"
    using assms(2) by (simp_all add: q_def r_def)
  then have "n \<le> g + q * g \<and> g + q * g < n + g"
    using assms by linarith
  then show "n \<le> (1 + (n - 1) div g) * g" "(1 + (n - 1) div g) * g < n + g"
    unfolding q_def[symmetric] by simp_all
qed

lemma xvec_nblk:
  assumes "0 < n" and "0 < g" and "n + g \<le> 2 ^ 64"
  shows "size_mul (size_add 1 (size_sub n 1 div g)) g = (1 + (n - 1) div g) * g"
proof -
  define q where "q = (n - 1) div g"
  have r: "(1 + q) * g < 2 ^ 64"
    using round_up(2)[OF assms(1,2)] assms(3) by (simp add: q_def)
  have "1 + q \<le> (1 + q) * g"
    using mult_le_mono2[of 1 g "1 + q"] assms(2) by simp
  with r have "1 + q < 2 ^ 64"
    by linarith
  then show ?thesis
    using r assms by (simp add: q_def)
qed

lemma xvec_reserve_eq:
  assumes "0 < g" and "0 < n" and "max_len v \<le> n" and "n + g \<le> 2 ^ 64"
  defines "N \<equiv> (1 + (n - 1) div g) * g"
  shows "xvec_reserve ok junk v n bs g =
    (case c_realloc ok junk (data v) (size_mul N bs) of None \<Rightarrow> Inr (v, -1)
     | Some p \<Rightarrow> Inr (v\<lparr>data := Some p, max_len := N\<rparr>, 0))"
  using assms(1-4) unfolding xvec_reserve_def xvec_nblk[OF assms(2,1,4)] Let_def N_def by simp

text \<open>The bytes of the block; growing only appends to them.\<close>

definition bytes :: "'z xvec_scheme \<Rightarrow> u8 list" where
  "bytes v = (case data v of None \<Rightarrow> [] | Some b \<Rightarrow> b)"

definition extends :: "u8 \<Rightarrow> 'z xvec_scheme \<Rightarrow> 'z xvec_scheme \<Rightarrow> bool" where
  "extends junk v' v \<longleftrightarrow> (\<exists>k. bytes v' = bytes v @ replicate k junk)"

lemma block_extends_same: "data v' = data v \<Longrightarrow> extends junk v' v"
  by (auto simp: extends_def bytes_def intro!: exI[of _ 0])

section \<open>The invariant of the slot list\<close>

definition flags :: "xvlst \<Rightarrow> u8 list" where
  "flags l = (case taken l of None \<Rightarrow> [] | Some b \<Rightarrow> b)"

definition used_slots :: "xvlst \<Rightarrow> nat set" where
  "used_slots l = {i. i < length (flags l) \<and> flags l ! i \<noteq> 0}"

definition first_free :: "u8 list \<Rightarrow> nat" where
  "first_free t = length (takeWhile (\<lambda>c. c \<noteq> 0) t)"

definition xvlst_ok :: "nat \<Rightarrow> xvlst \<Rightarrow> bool" where
  "xvlst_ok bs l \<longleftrightarrow>
     length (flags l) = max_len l \<and> max_len l < 2 ^ 63 \<and>
     (case data l of None \<Rightarrow> max_len l = 0 | Some d \<Rightarrow> length d = max_len l * bs) \<and>
     xlen l = card (used_slots l) \<and>
     (last_ix l < max_len l \<or> last_ix l = 0) \<and>
     (\<forall>i\<in>used_slots l. i \<le> last_ix l) \<and>
     avail l = (if 0 < max_len l \<and> first_free (flags l) = max_len l then -1
                else int (first_free (flags l)))"

lemma first_free_le [simp]: "first_free t \<le> length t"
  by (simp add: first_free_def length_takeWhile_le)

lemma first_free_nth: "j < first_free t \<Longrightarrow> t ! j \<noteq> 0"
  using nth_mem[of j "takeWhile (\<lambda>c. c \<noteq> 0) t"] set_takeWhileD[of _ "\<lambda>c. c \<noteq> 0" t]
  by (force simp: first_free_def takeWhile_nth)

lemma first_free_at: "first_free t < length t \<Longrightarrow> t ! first_free t = 0"
  using nth_length_takeWhile[of "\<lambda>c. c \<noteq> 0" t] by (simp add: first_free_def)

lemma first_freeI:
  "n \<le> length t \<Longrightarrow> (\<And>j. j < n \<Longrightarrow> t ! j \<noteq> 0) \<Longrightarrow> (n < length t \<Longrightarrow> t ! n = 0) \<Longrightarrow> first_free t = n"
  using first_free_at[of t] first_free_nth[of n t] first_free_le[of t]
  by (cases "first_free t" n rule: linorder_cases) auto

lemma finite_used [simp]: "finite (used_slots l)"
  by (simp add: used_slots_def)

lemma card_used_le: "card (used_slots l) \<le> length (flags l)"
  using card_mono[of "{..<length (flags l)}" "used_slots l"] by (auto simp: used_slots_def)

lemma first_free_room:
  assumes "card (used_slots l) < length (flags l)"
  shows "first_free (flags l) < length (flags l)"
proof (rule ccontr)
  assume "\<not> ?thesis"
  then have "first_free (flags l) = length (flags l)"
    using first_free_le[of "flags l"] by linarith
  then have "used_slots l = {..<length (flags l)}"
    using first_free_nth[of _ "flags l"] by (auto simp: used_slots_def)
  with assms show False
    by simp
qed

lemma first_free_append_zeros:
  "first_free (t @ replicate n 0) = first_free t"
proof (cases "0 \<in> set t")
  case False
  then have nz: "t ! j \<noteq> 0" if "j < length t" for j
    using that nth_mem by metis
  have "first_free (t @ replicate n 0) = length t"
    by (rule first_freeI) (use nz in \<open>auto simp: nth_append\<close>)
  moreover have "first_free t = length t"
    by (rule first_freeI) (use nz in auto)
  ultimately show ?thesis
    by simp
qed (auto simp: first_free_def)

lemma used_slots_grow:
  assumes "flags l' = flags l @ replicate n 0"
  shows "used_slots l' = used_slots l"
proof -
  have "i < length (flags l)"
    if "i < length (flags l) + n" "replicate n (0::u8) ! (i - length (flags l)) \<noteq> 0" for i
  proof (rule ccontr)
    assume "\<not> i < length (flags l)"
    with that(1) have "i - length (flags l) < n"
      by linarith
    with that(2) show False
      by simp
  qed
  with assms show ?thesis
    by (auto simp: used_slots_def nth_append split: if_splits)
qed

text \<open>The list after it has grown to \<open>N\<close> slots.\<close>

definition grown :: "u8 \<Rightarrow> nat \<Rightarrow> nat \<Rightarrow> xvlst \<Rightarrow> xvlst" where
  "grown junk bs N l = l\<lparr>data := Some (take (N * bs) (bytes l) @ replicate (N * bs - length (bytes l)) junk),
     max_len := N, taken := Some (flags l @ replicate (N - max_len l) 0),
     avail := (if avail l < 0 then int (max_len l) else avail l)\<rparr>"

lemma grown_simps [simp]:
  "flags (grown junk bs N l) = flags l @ replicate (N - max_len l) 0" "max_len (grown junk bs N l) = N"
  "xlen (grown junk bs N l) = xlen l" "last_ix (grown junk bs N l) = last_ix l"
  "used_slots (grown junk bs N l) = used_slots l"
  using used_slots_grow[of "grown junk bs N l" l] by (simp_all add: grown_def flags_def)

text \<open>
  The number of slots a list grows to when it needs \<open>n\<close>, and what becomes of the growth: granted,
  refused with nothing changed, or half done, with a larger array and the flags lost.
\<close>

definition blocks_for :: "nat \<Rightarrow> nat \<Rightarrow> nat" where
  "blocks_for g n = (1 + (n - 1) div g) * g"

datatype growth = Granted | Refused | FlagsLost

definition grant :: "(nat \<Rightarrow> bool) \<Rightarrow> (nat \<Rightarrow> bool) \<Rightarrow> nat \<Rightarrow> nat \<Rightarrow> growth" where
  "grant okd okt bs m = (if \<not> okd (m * bs) then Refused else if \<not> okt m then FlagsLost else Granted)"

lemma grant_all: "(\<And>k. okd k) \<Longrightarrow> (\<And>k. okt k) \<Longrightarrow> grant okd okt bs m = Granted"
  by (simp add: grant_def)

lemma xvlst_reserve_grown:
  assumes ok: "xvlst_ok bs l" and pos: "0 < g" "max_len l < n" and small: "n + g \<le> 2 ^ 63" "(n + g) * bs \<le> 2 ^ 64"
    and bs: "0 < bs"
  defines "m \<equiv> blocks_for g n"
  shows "n \<le> m" and "m < n + g"
    and "grant okd okt bs m = Granted \<Longrightarrow> xvlst_reserve okd okt junk l n bs g = Inr (grown junk bs m l, 0)"
    and "grant okd okt bs m = Refused \<Longrightarrow> xvlst_reserve okd okt junk l n bs g = Inr (l, -1)"
    and "grant okd okt bs m = FlagsLost \<Longrightarrow> xvlst_reserve okd okt junk l n bs g =
      Inr ((grown junk bs m l)\<lparr>taken := None, avail := avail l\<rparr>, -1)"
proof -
  have n: "0 < n"
    using pos(2) by simp
  show N: "n \<le> m" "m < n + g"
    using round_up[OF n pos(1)] by (simp_all add: m_def blocks_for_def)
  have "m * bs < (n + g) * bs"
    using N(2) bs by simp
  then have Nbs: "size_mul m bs = m * bs"
    using small(2) by (intro size_mul_small) linarith
  have vec: "xvec_reserve okd junk l n bs g =
      (case c_realloc okd junk (data l) (m * bs) of None \<Rightarrow> Inr (l, -1)
       | Some p \<Rightarrow> Inr (l\<lparr>data := Some p, max_len := m\<rparr>, 0))"
    unfolding m_def blocks_for_def Nbs[symmetric, unfolded m_def blocks_for_def]
    using pos n small(1) by (intro xvec_reserve_eq) simp_all
  have fl: "(case taken l of None \<Rightarrow> [] | Some b \<Rightarrow> b) = flags l"
    by (simp add: flags_def)
  note run = xvlst_reserve_def vec c_realloc_def fl c_bzero_def grown_def xvlst_ok_def Let_def grant_def bytes_def
  show "grant okd okt bs m = Granted \<Longrightarrow> xvlst_reserve okd okt junk l n bs g = Inr (grown junk bs m l, 0)"
    using N pos ok by (simp add: run split: if_splits)
  show "grant okd okt bs m = Refused \<Longrightarrow> xvlst_reserve okd okt junk l n bs g = Inr (l, -1)"
    using pos by (simp add: run split: if_splits)
  show "grant okd okt bs m = FlagsLost \<Longrightarrow> xvlst_reserve okd okt junk l n bs g =
      Inr ((grown junk bs m l)\<lparr>taken := None, avail := avail l\<rparr>, -1)"
    using N pos by (simp add: run split: if_splits)
qed

lemma grown_ok:
  assumes ok: "xvlst_ok bs l" and N: "max_len l < N" "N < 2 ^ 63"
  shows "xvlst_ok bs (grown junk bs N l)" and "extends junk (grown junk bs N l) l"
proof -
  have len: "length (flags l) = max_len l" "length (bytes l) = max_len l * bs"
    using ok by (auto simp: xvlst_ok_def bytes_def split: option.splits)
  have d: "length (bytes l) \<le> N * bs"
    using N len(2) by simp
  have "avail (grown junk bs N l) = (if first_free (flags l) = N then -1 else int (first_free (flags l)))"
    using ok N len(1) first_free_le[of "flags l"] by (auto simp: grown_def xvlst_ok_def)
  moreover have "last_ix l < N \<or> last_ix l = 0"
    using ok N by (auto simp: xvlst_ok_def)
  moreover have "data (grown junk bs N l) = Some (bytes l @ replicate (N * bs - length (bytes l)) junk)"
    using d by (simp add: grown_def)
  ultimately show "xvlst_ok bs (grown junk bs N l)"
    using ok N len d by (simp add: xvlst_ok_def first_free_append_zeros)
  show "extends junk (grown junk bs N l) l"
    using d by (auto simp: extends_def bytes_def grown_def)
qed

lemma xvlst_reserve_granted:
  assumes ok: "xvlst_ok bs l" and pos: "0 < g" "0 < n" and small: "n + g \<le> 2 ^ 63" "(n + g) * bs \<le> 2 ^ 64"
    and mem: "max_len l < n \<Longrightarrow> grant okd okt bs (blocks_for g n) = Granted" and bs: "0 < bs"
  shows "\<exists>l'. xvlst_reserve okd okt junk l n bs g = Inr (l', 0) \<and> xvlst_ok bs l' \<and>
    flags l' = flags l @ replicate (max_len l' - max_len l) 0 \<and> n \<le> max_len l' \<and>
    max_len l \<le> max_len l' \<and> xlen l' = xlen l \<and> last_ix l' = last_ix l \<and> extends junk l' l \<and>
    max_len l' = (if max_len l < n then blocks_for g n else max_len l)"
proof (cases "n \<le> max_len l")
  case True
  then show ?thesis
    using ok by (intro exI[of _ l]) (simp add: xvlst_reserve_def block_extends_same)
next
  case False
  define m where "m = blocks_for g n"
  have less: "max_len l < n"
    using False by simp
  note B = xvlst_reserve_grown(1,2)[OF ok pos(1) less small bs, folded m_def]
  note G = xvlst_reserve_grown(3)[where okd = okd and okt = okt and junk = junk, OF ok pos(1) less small bs,
      folded m_def]
  have N: "n \<le> m" "m < n + g" "xvlst_reserve okd okt junk l n bs g = Inr (grown junk bs m l, 0)"
    using B G less mem by (simp_all add: m_def)
  moreover have "max_len l < m" "m < 2 ^ 63"
    using False N small(1) by linarith+
  ultimately show ?thesis
    using grown_ok[OF ok, of m junk] False
    by (intro exI[of _ "grown junk bs m l"]) (simp add: m_def)
qed

lemma xvlst_reserve_ok:
  assumes ok: "xvlst_ok bs l" and pos: "0 < g" "0 < n" and small: "n + g \<le> 2 ^ 63" "(n + g) * bs \<le> 2 ^ 64"
    and mem: "\<And>k. okd k" "\<And>k. okt k" and bs: "0 < bs"
  shows "\<exists>l'. xvlst_reserve okd okt junk l n bs g = Inr (l', 0) \<and> xvlst_ok bs l' \<and>
    flags l' = flags l @ replicate (max_len l' - max_len l) 0 \<and> n \<le> max_len l' \<and>
    max_len l \<le> max_len l' \<and> xlen l' = xlen l \<and> last_ix l' = last_ix l \<and> extends junk l' l"
  using xvlst_reserve_granted[where okd = okd and okt = okt and junk = junk,
      OF ok pos small grant_all[OF mem] bs] by blast

section \<open>Adding and deleting\<close>

lemma xvlst_okD:
  assumes "xvlst_ok bs l"
  shows "length (flags l) = max_len l" and "max_len l < 2 ^ 63" and "xlen l = card (used_slots l)"
    and "last_ix l < max_len l \<or> last_ix l = 0" and "i \<in> used_slots l \<Longrightarrow> i \<le> last_ix l"
    and "0 < max_len l \<Longrightarrow> taken l = Some (flags l)"
    and "0 < max_len l \<Longrightarrow> last_ix l < max_len l"
  using assms by (auto simp: xvlst_ok_def flags_def split: option.splits)

lemma first_free_memchr:
  assumes "\<And>j. j \<le> i \<Longrightarrow> t ! j \<noteq> 0" and "i < length t"
  shows "c_memchr0 t (Suc i) (length t - Suc i) =
    Inr (if first_free t = length t then None else Some (int (first_free t)))"
proof -
  define k where "k = length (takeWhile (\<lambda>c. c \<noteq> 0) (drop (Suc i) t))"
  have "takeWhile (\<lambda>c. c \<noteq> 0) (take (Suc i) t) = take (Suc i) t"
    using assms by (auto simp: takeWhile_eq_all_conv in_set_conv_nth)
  then have "first_free (take (Suc i) t @ drop (Suc i) t) = Suc i + k"
    using assms(2) unfolding first_free_def
    by (subst takeWhile_append2) (auto simp: k_def takeWhile_eq_all_conv)
  then have ff: "first_free t = Suc i + k"
    by simp
  have "k \<le> length t - Suc i"
    using length_takeWhile_le[of "\<lambda>c. c \<noteq> 0" "drop (Suc i) t"] by (simp add: k_def)
  then show ?thesis
    using assms(2) ff by (auto simp: c_memchr0_def Let_def k_def[symmetric])
qed

text \<open>
  The search for the next free slot, when everything up to \<open>i\<close> is in use and nothing is behind
  the highest slot ever used.
\<close>

lemma xvlst_next_avail_eq:
  assumes tk: "taken l = Some t" "length t = max_len l" "max_len l < 2 ^ 63"
    and i: "i \<le> last_ix l" "last_ix l < max_len l"
    and upto: "\<And>j. j \<le> i \<Longrightarrow> t ! j \<noteq> 0" and behind: "\<And>j. last_ix l < j \<Longrightarrow> j < max_len l \<Longrightarrow> t ! j = 0"
  shows "xvlst_next_avail l (int i) =
    Inr (l\<lparr>avail := (if first_free t = max_len l then -1 else int (first_free t))\<rparr>)"
proof -
  have ffI: "first_free t = i + 1" if "i + 1 < max_len l \<Longrightarrow> t ! (i + 1) = 0"
    using that upto tk(2) i by (intro first_freeI) auto
  show ?thesis
  proof (cases "i = last_ix l")
    case True
    then show ?thesis
      using ffI behind tk i by (auto simp: xvlst_next_avail_def pget_def)
  next
    case False
    then have c: "int i \<noteq> to_ssize (last_ix l)" "i + 1 < max_len l"
        "size_sub (size_sub (max_len l) i) (Suc 0) = length t - Suc i"
      using i tk(2,3) by (simp_all add: size_sub_small)
    have "c_memchr0 t (Suc i) (length t - Suc i) =
        Inr (if first_free t = max_len l then None else Some (int (first_free t)))"
      using first_free_memchr[of i t] upto i tk(2) by auto
    then show ?thesis
      using c ffI tk i by (simp add: xvlst_next_avail_def pget_def)
  qed
qed

text \<open>Marking the first free slot \<open>i\<close> of a list with room re-establishes the invariant.\<close>

lemma xvlst_mark:
  assumes ok: "xvlst_ok bs l" and room: "xlen l < max_len l"
  defines "i \<equiv> first_free (flags l)"
  defines "l1 \<equiv> l\<lparr>taken := Some ((flags l)[i := 1]), last_ix := max (last_ix l) i\<rparr>"
  defines "l2 \<equiv> l1\<lparr>avail := (if first_free (flags l1) = max_len l then -1 else int (first_free (flags l1))),
    xlen := xlen l + 1\<rparr>"
  shows "i < max_len l" and "avail l = int i" and "xvlst_next_avail l1 (int i) = Inr (l2\<lparr>xlen := xlen l\<rparr>)"
    and "xvlst_ok bs l2" and "used_slots l2 = insert i (used_slots l)" and "i \<notin> used_slots l"
    and "\<forall>j<i. j \<in> used_slots l" and "last_ix l2 = max (last_ix l) i"
proof -
  note D = xvlst_okD[OF ok]
  show i: "i < max_len l"
    using first_free_room[of l] room D(1,3) by (simp add: i_def)
  then have pos: "0 < max_len l" and av: "avail l = int i"
    using ok by (auto simp: xvlst_ok_def i_def)
  then show "avail l = int i"
    by simp
  have zero: "flags l ! i = 0"
    using first_free_at[of "flags l"] i D(1) by (simp add: i_def)
  have below: "flags l ! j \<noteq> 0" if "j < i" for j
    using first_free_nth that by (simp add: i_def)
  have f1: "flags l1 = (flags l)[i := 1]" "flags l2 = flags l1"
    by (simp_all add: flags_def l1_def l2_def)
  have len1: "length (flags l1) = max_len l"
    using D(1) by (simp add: f1)
  show used: "used_slots l2 = insert i (used_slots l)"
    using i D(1) by (auto simp: used_slots_def f1 nth_list_update)
  show new: "i \<notin> used_slots l"
    using zero by (simp add: used_slots_def)
  show "\<forall>j<i. j \<in> used_slots l"
    using below i D(1) by (auto simp: used_slots_def)
  show "last_ix l2 = max (last_ix l) i"
    by (simp add: l1_def l2_def)
  have lst: "max (last_ix l) i < max_len l" and lx: "last_ix l1 = max (last_ix l) i" "max_len l1 = max_len l"
    using i D(7)[OF pos] by (simp_all add: l1_def)
  have "xvlst_next_avail l1 (int i) = Inr (l1\<lparr>avail := (if first_free (flags l1) = max_len l1 then -1
      else int (first_free (flags l1)))\<rparr>)"
  proof (rule xvlst_next_avail_eq)
    show "flags l1 ! j \<noteq> 0" if "j \<le> i" for j
      using that below[of j] i D(1) by (auto simp: f1 nth_list_update)
    show "flags l1 ! j = 0" if "last_ix l1 < j" "j < max_len l1" for j
      using that lx D(1) D(5)[of j] by (auto simp: f1 used_slots_def nth_list_update)
  qed (use lst len1 D(2) in \<open>simp_all add: l1_def flags_def\<close>)
  then show "xvlst_next_avail l1 (int i) = Inr (l2\<lparr>xlen := xlen l\<rparr>)"
    by (simp add: l2_def l1_def)
  have "max_len l2 = max_len l" "data l2 = data l" "xlen l2 = xlen l + 1"
      "last_ix l2 = max (last_ix l) i"
      "avail l2 = (if first_free (flags l2) = max_len l then -1 else int (first_free (flags l2)))"
    by (simp_all add: l1_def l2_def flags_def)
  moreover have "length (flags l2) = max_len l"
    using len1 by (simp add: f1)
  moreover have "card (used_slots l2) = card (used_slots l) + 1"
    using used new by simp
  moreover have "j \<le> max (last_ix l) i" if "j \<in> used_slots l2" for j
    using that D(5)[of j] by (auto simp: used)
  ultimately show "xvlst_ok bs l2"
    using ok pos lst by (simp add: xvlst_ok_def split: option.splits)
qed

definition grow_ok :: "nat \<Rightarrow> nat \<Rightarrow> nat \<Rightarrow> bool" where
  "grow_ok bs g cap \<longleftrightarrow> 0 < bs \<and> 0 < g \<and> cap + g \<le> 2 ^ 63 \<and> (cap + g) * bs \<le> 2 ^ 64"

definition slots_ok :: "nat \<Rightarrow> xvlst \<Rightarrow> bool" where
  "slots_ok bs l \<longleftrightarrow> xvlst_ok bs l \<and> 0 < max_len l"

lemma xvlst_add_granted:
  assumes ok: "slots_ok bs l" and cap: "grow_ok bs g cap" "card (used_slots l) < cap"
    and mem: "card (used_slots l) = max_len l \<Longrightarrow> grant okd okt bs (blocks_for g (max_len l + 1)) = Granted"
  shows "\<exists>l'. xvlst_add okd okt junk l bs g = Inr (l', int (first_free (flags l))) \<and> slots_ok bs l' \<and>
    used_slots l' = insert (first_free (flags l)) (used_slots l) \<and>
    first_free (flags l) \<notin> used_slots l \<and> (\<forall>j<first_free (flags l). j \<in> used_slots l) \<and>
    last_ix l' = max (last_ix l) (first_free (flags l)) \<and> extends junk l' l \<and>
    max_len l' = (if card (used_slots l) = max_len l then blocks_for g (max_len l + 1) else max_len l)"
proof -
  let ?i = "first_free (flags l)"
  have okl: "xvlst_ok bs l" and pos: "0 < max_len l"
    using ok by (simp_all add: slots_ok_def)
  note D = xvlst_okD[OF okl]
  have assert: "avail l < to_ssize (max_len l)"
    using okl pos D(1,2) first_free_le[of "flags l"] by (auto simp: xvlst_ok_def)
  have c: "0 < bs" "0 < g" "xlen l + 1 + g \<le> 2 ^ 63" "(xlen l + 1 + g) * bs \<le> 2 ^ 64"
    using cap D(3) mult_le_mono1[of "xlen l + 1 + g" "cap + g" bs] by (simp_all add: grow_ok_def)
  have full: "max_len l < xlen l + 1 \<longleftrightarrow> card (used_slots l) = max_len l"
    using card_used_le[of l] D(1,3) by linarith
  then have mem': "max_len l < xlen l + 1 \<Longrightarrow> grant okd okt bs (blocks_for g (xlen l + 1)) = Granted"
    using mem D(3) by simp
  obtain l' where l': "xvlst_reserve okd okt junk l (xlen l + 1) bs g = Inr (l', 0)" "xvlst_ok bs l'"
      "flags l' = flags l @ replicate (max_len l' - max_len l) 0" "xlen l + 1 \<le> max_len l'"
      "max_len l \<le> max_len l'" "xlen l' = xlen l" "last_ix l' = last_ix l" "extends junk l' l"
      "max_len l' = (if max_len l < xlen l + 1 then blocks_for g (xlen l + 1) else max_len l)"
    using xvlst_reserve_granted[where okd = okd and okt = okt and junk = junk, OF okl c(2) _ c(3,4) mem' c(1)]
    by auto
  have ff: "first_free (flags l') = ?i"
    by (simp add: l'(3) first_free_append_zeros)
  have used: "used_slots l' = used_slots l"
    by (rule used_slots_grow) (rule l'(3))
  define l1 where "l1 = l'\<lparr>taken := Some ((flags l')[?i := 1]), last_ix := max (last_ix l') ?i\<rparr>"
  define l2 where "l2 = l1\<lparr>avail := (if first_free (flags l1) = max_len l' then -1 else int (first_free (flags l1))),
    xlen := xlen l' + 1\<rparr>"
  have room: "xlen l' < max_len l'"
    using l'(4,6) by simp
  note M = xvlst_mark[OF l'(2) room, unfolded ff, folded l1_def, folded l2_def]
  note D' = xvlst_okD[OF l'(2)]
  have tk: "taken l' = Some (flags l')"
    using D'(6) room by simp
  have upd: "(if to_ssize (last_ix l') < int ?i then l'\<lparr>taken := Some ((flags l')[?i := 1]), last_ix := to_size (int ?i)\<rparr>
      else l'\<lparr>taken := Some ((flags l')[?i := 1])\<rparr>) = l1"
    using D'(2,7) room M(1) by (auto simp: l1_def max_def intro!: xvlst.equality)
  have xl: "size_add (xlen l') 1 = xlen l' + 1"
    using room D'(2) by simp
  have ex: "xvlst_expand okd okt junk l 1 bs g = Inr (l', 0)"
    using c l'(1) by (simp add: xvlst_expand_def)
  have "xvlst_add okd okt junk l bs g =
      cbind (xvlst_next_avail l1 (int ?i)) (\<lambda>l. Inr (l\<lparr>xlen := size_add (xlen l) 1\<rparr>, int ?i))"
    using assert ex M(1,2) D'(1,2) upd
    by (simp add: xvlst_add_def tk pset_def Let_def split del: if_split)
  also have "\<dots> = Inr (l2, int ?i)"
    using M(3) xl by (simp add: l2_def)
  finally have "xvlst_add okd okt junk l bs g = Inr (l2, int ?i)" .
  moreover have "slots_ok bs l2"
    using M(1,4) pos l'(5) by (simp add: slots_ok_def l2_def l1_def)
  moreover have "extends junk l2 l"
    using l'(8) by (simp add: extends_def bytes_def l2_def l1_def)
  moreover have "max_len l2 = (if card (used_slots l) = max_len l then blocks_for g (max_len l + 1) else max_len l)"
    using l'(9) D(3) unfolding full by (auto simp: l2_def l1_def)
  ultimately show ?thesis
    using M(5-8) used l'(7) by (intro exI[of _ l2]) simp
qed

lemma xvlst_add_ok:
  assumes ok: "slots_ok bs l" and cap: "grow_ok bs g cap" "card (used_slots l) < cap"
    and mem: "\<And>k. okd k" "\<And>k. okt k"
  shows "\<exists>l'. xvlst_add okd okt junk l bs g = Inr (l', int (first_free (flags l))) \<and> slots_ok bs l' \<and>
    used_slots l' = insert (first_free (flags l)) (used_slots l) \<and>
    first_free (flags l) \<notin> used_slots l \<and> (\<forall>j<first_free (flags l). j \<in> used_slots l) \<and>
    last_ix l' = max (last_ix l) (first_free (flags l)) \<and> extends junk l' l"
  using xvlst_add_granted[where okd = okd and okt = okt and junk = junk, OF ok cap grant_all[OF mem]] by blast

text \<open>
  A list whose flags were lost when it grew: it is full by its own books, and nothing but
  \<open>xvlst_del\<close> looks at the flags any more.
\<close>

definition slots_lost :: "xvlst \<Rightarrow> bool" where
  "slots_lost l \<longleftrightarrow> taken l = None \<and> avail l = -1 \<and> xlen l < max_len l \<and> max_len l < 2 ^ 63"

lemma xvlst_lost:
  assumes "slots_lost l" and "grow_ok bs g cap"
  shows "xvlst_add okd okt junk l bs g = Inr (l, -1)"
    and "xvlst_del l k = (if last_ix l < k then Inr (l, ERANGE) else Inl BadPointer)"
proof -
  have l: "taken l = None" "avail l = -1" "xlen l + 1 \<le> max_len l" "max_len l < 2 ^ 63"
    using assms(1) by (simp_all add: slots_lost_def)
  have "to_ssize (max_len l) = int (max_len l)" "size_add (xlen l) 1 = xlen l + 1"
    using l(3,4) by simp_all
  moreover have "0 < bs" "0 < g"
    using assms(2) by (simp_all add: grow_ok_def)
  ultimately show "xvlst_add okd okt junk l bs g = Inr (l, -1)"
    using l by (simp add: xvlst_add_def xvlst_expand_def xvlst_reserve_def)
  show "xvlst_del l k = (if last_ix l < k then Inr (l, ERANGE) else Inl BadPointer)"
    using l(1) by (simp add: xvlst_del_def pget_def)
qed

lemma xvlst_add_failed:
  assumes ok: "slots_ok bs l" and cap: "grow_ok bs g cap" "card (used_slots l) < cap"
    and full: "card (used_slots l) = max_len l"
  defines "m \<equiv> blocks_for g (max_len l + 1)"
  shows "grant okd okt bs m = Refused \<Longrightarrow> xvlst_add okd okt junk l bs g = Inr (l, - ENOMEM)"
    and "grant okd okt bs m = FlagsLost \<Longrightarrow> \<exists>l'. xvlst_add okd okt junk l bs g = Inr (l', - ENOMEM) \<and>
      slots_lost l' \<and> last_ix l' = last_ix l \<and> max_len l' = m"
proof -
  have okl: "xvlst_ok bs l" and pos: "0 < max_len l"
    using ok by (simp_all add: slots_ok_def)
  note D = xvlst_okD[OF okl]
  have av: "avail l < to_ssize (max_len l)"
    using okl pos D(1,2) first_free_le[of "flags l"] by (auto simp: xvlst_ok_def)
  have c: "0 < bs" "0 < g" "max_len l + 1 + g \<le> 2 ^ 63" "(max_len l + 1 + g) * bs \<le> 2 ^ 64"
    using cap full mult_le_mono1[of "max_len l + 1 + g" "cap + g" bs] by (simp_all add: grow_ok_def)
  have less: "max_len l < max_len l + 1"
    by simp
  note B = xvlst_reserve_grown(1,2)[OF okl c(2) less c(3,4,1), folded m_def]
  note G = xvlst_reserve_grown(4,5)[where okd = okd and okt = okt and junk = junk, OF okl c(2) less c(3,4,1),
      folded m_def]
  have ex: "xvlst_expand okd okt junk l 1 bs g = xvlst_reserve okd okt junk l (max_len l + 1) bs g"
    using c D(2,3) full by (simp add: xvlst_expand_def)
  show "xvlst_add okd okt junk l bs g = Inr (l, - ENOMEM)" if "grant okd okt bs m = Refused"
    using av ex G(1)[OF that] by (simp add: xvlst_add_def)
  show "\<exists>l'. xvlst_add okd okt junk l bs g = Inr (l', - ENOMEM) \<and> slots_lost l' \<and> last_ix l' = last_ix l \<and>
      max_len l' = m" if "grant okd okt bs m = FlagsLost"
  proof -
    have "used_slots l = {..<max_len l}"
      using full D(1) by (intro card_subset_eq) (auto simp: used_slots_def)
    then have "first_free (flags l) = max_len l"
      using first_free_at[of "flags l"] first_free_le[of "flags l"] D(1)
      by (metis (mono_tags, lifting) le_neq_implies_less lessThan_iff mem_Collect_eq used_slots_def)
    then have "avail l = -1"
      using okl pos by (simp add: xvlst_ok_def)
    moreover have "max_len l + 1 \<le> m" "m < 2 ^ 63"
      using B c(3) by simp_all
    ultimately show ?thesis
      using av ex G(2)[OF that] full D(3) by (auto simp: xvlst_add_def slots_lost_def)
  qed
qed

lemma xvlst_del_ok:
  assumes ok: "slots_ok bs l"
  shows "\<exists>l' rc. xvlst_del l k = Inr (l', rc) \<and> slots_ok bs l' \<and> last_ix l' = last_ix l \<and>
    rc = (if last_ix l < k then ERANGE else if k \<notin> used_slots l then EALREADY else 0) \<and>
    used_slots l' = used_slots l - {k} \<and> data l' = data l \<and> max_len l' = max_len l"
proof -
  have okl: "xvlst_ok bs l" and pos: "0 < max_len l"
    using ok by (simp_all add: slots_ok_def)
  note D = xvlst_okD[OF okl]
  show ?thesis
  proof (cases "last_ix l < k \<or> k \<notin> used_slots l")
    case True
    moreover have "k \<notin> used_slots l"
      using True D(5)[of k] by auto
    ultimately show ?thesis
      using ok D(1,6,7) pos by (auto simp: xvlst_del_def used_slots_def pget_def)
  next
    case False
    then have k: "k \<in> used_slots l" "k < max_len l" "flags l ! k \<noteq> 0" "\<not> last_ix l < k"
      using D(1) by (auto simp: used_slots_def)
    define t where "t = (flags l)[k := 0]"
    define l' where "l' = l\<lparr>taken := Some t, avail := (if avail l < 0 \<or> int k < avail l then int k else avail l),
      xlen := xlen l - 1\<rparr>"
    have fl: "flags l' = t" "max_len l' = max_len l" "last_ix l' = last_ix l" "data l' = data l"
      by (simp_all add: l'_def flags_def)
    have used: "used_slots l' = used_slots l - {k}"
      using k D(1) by (auto simp: used_slots_def fl t_def nth_list_update)
    have c: "0 < card (used_slots l)" "card (used_slots l) < 2 ^ 64"
      using k(1) card_used_le[of l] D(1,2) by (auto simp: card_gt_0_iff)
    have ff: "first_free t = min k (first_free (flags l))"
      using k(2,3) D(1) first_free_nth[of _ "flags l"] first_free_at[of "flags l"] first_free_le[of "flags l"]
      by (intro first_freeI) (auto simp: t_def nth_list_update min_def split: if_splits)
    have "xvlst_del l k = Inr (l', 0)"
      using k D(1,2,3,6) pos c
      by (simp add: xvlst_del_def pget_def pset_def l'_def t_def Let_def)
    moreover have "slots_ok bs l'"
    proof -
      have "first_free t < max_len l"
        using ff k(2) by simp
      moreover have "avail l' = int (first_free t)"
        using okl pos ff k(2) by (auto simp: l'_def xvlst_ok_def min_def)
      moreover have "card (used_slots l') = card (used_slots l) - 1"
        using k(1) by (simp add: used)
      moreover have "xlen l' = xlen l - 1" "length t = max_len l"
        using D(1) by (simp_all add: l'_def t_def)
      ultimately show ?thesis
        using okl pos D(4) by (simp add: slots_ok_def xvlst_ok_def fl used split: option.splits)
    qed
    ultimately show ?thesis
      using False by (intro exI[of _ l'] exI[of _ 0]) (simp add: used fl)
  qed
qed

section \<open>The slot table as an interface\<close>

text \<open>
  What a caller of the slot list relies on.  The abstract table is the list of slots in use, the
  highest slot ever handed out, the number of slots there is memory for, and whether the flags
  are still there.  \<open>answer m\<close> is what becomes of a growth to \<open>m\<close> slots.
\<close>

datatype slot_op = SlotAdd | SlotDel nat

record slot_spec =
  in_use :: "nat list"
  highest :: nat
  room :: nat
  intact :: bool

definition lowest_gap :: "nat list \<Rightarrow> nat" where
  "lowest_gap us = length (takeWhile (\<lambda>j. j \<in> set us) [0..<length us])"

definition hand_out :: "slot_spec \<Rightarrow> slot_spec \<times> int" where
  "hand_out t = (let i = lowest_gap (in_use t) in
     (t\<lparr>in_use := i # in_use t, highest := max (highest t) i\<rparr>, int i))"

definition spec_add :: "(nat \<Rightarrow> growth) \<Rightarrow> nat \<Rightarrow> slot_spec \<Rightarrow> (slot_spec \<times> int) cresult" where
  "spec_add answer g t =
     (if \<not> intact t then Inr (t, -1)
      else if length (in_use t) < room t then Inr (hand_out t)
      else
        (let m = blocks_for g (room t + 1) in
         case answer m of
           Granted \<Rightarrow> Inr (hand_out (t\<lparr>room := m\<rparr>))
         | Refused \<Rightarrow> Inr (t, - ENOMEM)
         | FlagsLost \<Rightarrow> Inr (t\<lparr>room := m, intact := False\<rparr>, - ENOMEM)))"

definition spec_del :: "slot_spec \<Rightarrow> nat \<Rightarrow> (slot_spec \<times> int) cresult" where
  "spec_del t k =
     (if highest t < k then Inr (t, ERANGE)
      else if \<not> intact t then Inl BadPointer
      else if k \<notin> set (in_use t) then Inr (t, EALREADY)
      else Inr (t\<lparr>in_use := removeAll k (in_use t)\<rparr>, 0))"

lemma lowest_gap_props:
  "lowest_gap us \<notin> set us" "j < lowest_gap us \<Longrightarrow> j \<in> set us"
proof -
  show "j \<in> set us" if "j < lowest_gap us" for j
    using that nth_mem[of j "takeWhile (\<lambda>j. j \<in> set us) [0..<length us]"]
      set_takeWhileD[of _ "\<lambda>j. j \<in> set us" "[0..<length us]"]
      length_takeWhile_le[of "\<lambda>j. j \<in> set us" "[0..<length us]"]
    by (auto simp: lowest_gap_def takeWhile_nth)
  show "lowest_gap us \<notin> set us"
  proof
    assume in_us: "lowest_gap us \<in> set us"
    have "lowest_gap us \<le> length us"
      using length_takeWhile_le[of "\<lambda>j. j \<in> set us" "[0..<length us]"] by (simp add: lowest_gap_def)
    moreover have "\<not> lowest_gap us < length us"
      using nth_length_takeWhile[of "\<lambda>j. j \<in> set us" "[0..<length us]"] in_us
      by (auto simp: lowest_gap_def)
    ultimately have eq: "lowest_gap us = length us"
      by simp
    have "{..length us} \<subseteq> set us"
      using in_us eq \<open>\<And>j. j < lowest_gap us \<Longrightarrow> j \<in> set us\<close> by (auto simp: le_less)
    then have "Suc (length us) \<le> card (set us)"
      using card_mono[of "set us" "{..length us}"] by simp
    then show False
      using card_length[of us] by simp
  qed
qed

lemma lowest_gapI: "i \<notin> set us \<Longrightarrow> (\<And>j. j < i \<Longrightarrow> j \<in> set us) \<Longrightarrow> lowest_gap us = i"
  using lowest_gap_props by (metis linorder_neqE_nat)

fun run_slots ::
  "('s \<Rightarrow> ('s \<times> int) cresult) \<Rightarrow> ('s \<Rightarrow> nat \<Rightarrow> ('s \<times> int) cresult) \<Rightarrow> 's \<Rightarrow> slot_op list \<Rightarrow>
    ('s \<times> int list) cresult" where
  "run_slots add del s [] = Inr (s, [])"
| "run_slots add del s (SlotAdd # qs) =
     cbind (add s) (\<lambda>(s, r). cbind (run_slots add del s qs) (\<lambda>(s, rs). Inr (s, r # rs)))"
| "run_slots add del s (SlotDel k # qs) =
     cbind (del s k) (\<lambda>(s, r). cbind (run_slots add del s qs) (\<lambda>(s, rs). Inr (s, r # rs)))"

text \<open>A table whose flags are never lost never traps.\<close>

lemma spec_total:
  assumes "\<And>m. answer m \<noteq> FlagsLost" and "intact t"
  shows "\<exists>t' rs. run_slots (spec_add answer g) spec_del t qs = Inr (t', rs) \<and> intact t'"
  using assms(2)
proof (induction qs arbitrary: t)
  case (Cons q qs)
  have "\<exists>t1 r. (case q of SlotAdd \<Rightarrow> spec_add answer g t | SlotDel k \<Rightarrow> spec_del t k) = Inr (t1, r) \<and> intact t1"
    using Cons.prems assms(1)
    by (auto simp: spec_add_def spec_del_def hand_out_def Let_def split: slot_op.split growth.split)
  then obtain t1 r where q: "(case q of SlotAdd \<Rightarrow> spec_add answer g t | SlotDel k \<Rightarrow> spec_del t k) = Inr (t1, r)"
      "intact t1"
    by blast
  obtain t2 rs where "run_slots (spec_add answer g) spec_del t1 qs = Inr (t2, rs)" "intact t2"
    using Cons.IH[OF q(2)] by blast
  then show ?case
    using q(1) by (cases q) simp_all
qed simp

text \<open>Two runs agree when both trap alike, or both end with the same answers in related states.\<close>

abbreviation agree :: "('s \<Rightarrow> 't \<Rightarrow> bool) \<Rightarrow> ('s \<times> 'r) cresult \<Rightarrow> ('t \<times> 'r) cresult \<Rightarrow> bool" where
  "agree R \<equiv> rel_sum (=) (rel_prod R (=))"

lemma agree_cbind:
  assumes "agree R x y" and "\<And>s t r. R s t \<Longrightarrow> agree Q (f (s, r)) (h (t, r))"
  shows "agree Q (cbind x f) (cbind y h)"
  using assms(1) by (cases x; cases y) (auto intro: assms(2))

lemma agree_run:
  assumes "\<And>s t n. R n s t \<Longrightarrow> 0 < n \<Longrightarrow> agree (R (n - 1)) (add s) (add' t)"
    and "\<And>s t n k. R n s t \<Longrightarrow> 0 < n \<Longrightarrow> agree (R (n - 1)) (del s k) (del' t k)"
  shows "R (length qs) s t \<Longrightarrow> agree (R 0) (run_slots add del s qs) (run_slots add' del' t qs)"
proof (induction qs arbitrary: s t)
  case (Cons q qs)
  have IH: "agree (R 0) (cbind (run_slots add del s' qs) (\<lambda>(s, rs). Inr (s, r # rs)))
      (cbind (run_slots add' del' t' qs) (\<lambda>(t, rs). Inr (t, r # rs)))" if "R (length qs) s' t'" for s' t' r
    by (rule agree_cbind[OF Cons.IH[OF that]]) simp
  show ?case
    using assms(1)[OF Cons.prems] assms(2)[OF Cons.prems]
    by (cases q) (auto intro!: agree_cbind[where R = "R (length qs)"] IH)
qed simp

locale slot_table =
  fixes add :: "'s \<Rightarrow> ('s \<times> int) cresult"
    and del :: "'s \<Rightarrow> nat \<Rightarrow> ('s \<times> int) cresult"
    and used :: "'s \<Rightarrow> nat set"
    and high :: "'s \<Rightarrow> nat"
    and slots :: "'s \<Rightarrow> nat"
    and ok :: "'s \<Rightarrow> bool"
    and lost :: "'s \<Rightarrow> bool"
    and answer :: "nat \<Rightarrow> growth"
    and g :: nat
    and cap :: nat
  assumes add_law: "ok s \<Longrightarrow> card (used s) < cap \<Longrightarrow>
      card (used s) = slots s \<longrightarrow> answer (blocks_for g (slots s + 1)) = Granted \<Longrightarrow>
      \<exists>s' i. add s = Inr (s', int i) \<and> ok s' \<and> used s' = insert i (used s) \<and>
        i \<notin> used s \<and> (\<forall>j<i. j \<in> used s) \<and> high s' = max (high s) i \<and>
        slots s' = (if card (used s) = slots s then blocks_for g (slots s + 1) else slots s)"
    and refused_law: "ok s \<Longrightarrow> card (used s) < cap \<Longrightarrow> card (used s) = slots s \<Longrightarrow>
      answer (blocks_for g (slots s + 1)) = Refused \<Longrightarrow> add s = Inr (s, - ENOMEM)"
    and lost_law: "ok s \<Longrightarrow> card (used s) < cap \<Longrightarrow> card (used s) = slots s \<Longrightarrow>
      answer (blocks_for g (slots s + 1)) = FlagsLost \<Longrightarrow>
      \<exists>s'. add s = Inr (s', - ENOMEM) \<and> lost s' \<and> high s' = high s \<and> slots s' = blocks_for g (slots s + 1)"
    and del_law: "ok s \<Longrightarrow>
      \<exists>s' rc. del s k = Inr (s', rc) \<and> ok s' \<and> high s' = high s \<and> slots s' = slots s \<and>
        rc = (if high s < k then ERANGE else if k \<notin> used s then EALREADY else 0) \<and>
        used s' = used s - {k}"
    and lost_add: "lost s \<Longrightarrow> add s = Inr (s, -1)"
    and lost_del: "lost s \<Longrightarrow> del s k = (if high s < k then Inr (s, ERANGE) else Inl BadPointer)"
    and used_high: "ok s \<Longrightarrow> i \<in> used s \<Longrightarrow> i \<le> high s"
    and used_slots_le: "ok s \<Longrightarrow> card (used s) \<le> slots s"
begin

definition rel :: "'s \<Rightarrow> slot_spec \<Rightarrow> bool" where
  "rel s t \<longleftrightarrow> high s = highest t \<and> slots s = room t \<and>
     (if intact t then ok s \<and> used s = set (in_use t) \<and> distinct (in_use t) else lost s)"

definition rel_left :: "nat \<Rightarrow> 's \<Rightarrow> slot_spec \<Rightarrow> bool" where
  "rel_left n s t \<longleftrightarrow> rel s t \<and> length (in_use t) + n \<le> cap"

lemma hand_out_refines:
  assumes "rel s t" and "intact t" and "length (in_use t) + n \<le> cap" and "0 < n"
    and "length (in_use t) = room t \<longrightarrow> answer (blocks_for g (room t + 1)) = Granted"
  shows "agree (rel_left (n - 1)) (add s)
    (Inr (hand_out (if length (in_use t) < room t then t else t\<lparr>room := blocks_for g (room t + 1)\<rparr>)))"
proof -
  have R: "ok s" "used s = set (in_use t)" "distinct (in_use t)" "high s = highest t" "slots s = room t"
    using assms(1,2) by (simp_all add: rel_def)
  then have c: "card (used s) = length (in_use t)"
    by (simp add: distinct_card)
  obtain s' i where s': "add s = Inr (s', int i)" "ok s'" "used s' = insert i (used s)"
      "i \<notin> used s" "\<forall>j<i. j \<in> used s" "high s' = max (high s) i"
      "slots s' = (if card (used s) = slots s then blocks_for g (slots s + 1) else slots s)"
    using add_law[OF R(1)] assms(3-5) c R(5) by auto
  have "lowest_gap (in_use t) = i"
    using s'(4,5) R(2) by (intro lowest_gapI) auto
  moreover have "length (in_use t) \<le> room t"
    using used_slots_le[OF R(1)] c R(5) by simp
  ultimately show ?thesis
    using s' R c assms(2-4) by (auto simp: rel_left_def rel_def hand_out_def Let_def)
qed

lemma add_refines:
  assumes "rel_left n s t" and "0 < n"
  shows "agree (rel_left (n - 1)) (add s) (spec_add answer g t)"
proof (cases "intact t")
  case False
  then show ?thesis
    using assms lost_add[of s] by (auto simp: rel_left_def rel_def spec_add_def)
next
  case True
  have R: "rel s t" "length (in_use t) + n \<le> cap" "ok s" "card (used s) = length (in_use t)" "slots s = room t"
      "length (in_use t) \<le> room t"
    using assms(1) True used_slots_le[of s] by (auto simp: rel_left_def rel_def distinct_card)
  show ?thesis
  proof (cases "length (in_use t) < room t")
    case less: True
    then show ?thesis
      using hand_out_refines[OF R(1) True R(2) assms(2)] True by (simp add: spec_add_def)
  next
    case False
    then have full: "length (in_use t) = room t"
      using R(6) by simp
    then have c: "card (used s) < cap" "card (used s) = slots s"
      using R assms(2) by simp_all
    show ?thesis
    proof (cases "answer (blocks_for g (room t + 1))")
      case Granted
      then show ?thesis
        using hand_out_refines[OF R(1) True R(2) assms(2)] True full by (simp add: spec_add_def Let_def)
    next
      case Refused
      then show ?thesis
        using refused_law[OF R(3) c] R True full by (simp add: spec_add_def Let_def rel_left_def)
    next
      case FlagsLost
      then show ?thesis
        using lost_law[OF R(3) c] R True full
        by (auto simp: spec_add_def Let_def rel_left_def rel_def)
    qed
  qed
qed

lemma del_refines:
  assumes "rel_left n s t"
  shows "agree (rel_left (n - 1)) (del s k) (spec_del t k)"
proof (cases "intact t")
  case False
  then show ?thesis
    using assms lost_del[of s k] by (auto simp: rel_left_def rel_def spec_del_def)
next
  case True
  then have ok: "ok s"
    using assms by (simp add: rel_left_def rel_def)
  obtain s' rc where s': "del s k = Inr (s', rc)" "ok s'" "high s' = high s" "slots s' = slots s"
      "rc = (if high s < k then ERANGE else if k \<notin> used s then EALREADY else 0)" "used s' = used s - {k}"
    using del_law[OF ok, of k] by auto
  moreover have "\<not> (highest t < k \<and> k \<in> set (in_use t))"
    using used_high[OF ok, of k] assms True by (auto simp: rel_left_def rel_def)
  moreover have "length (in_use t) + (n - Suc 0) \<le> cap" "length (removeAll k (in_use t)) + (n - Suc 0) \<le> cap"
    using assms length_removeAll_less_eq[of k "in_use t"] unfolding rel_left_def by linarith+
  ultimately show ?thesis
    using assms True
    by (cases "highest t < k"; cases "k \<in> set (in_use t)")
       (simp_all add: rel_left_def rel_def spec_del_def distinct_removeAll)
qed

lemma run_refines:
  assumes "rel s t" and "length (in_use t) + length qs \<le> cap"
  shows "agree rel (run_slots add del s qs) (run_slots (spec_add answer g) spec_del t qs)"
proof -
  have "agree (rel_left 0) (run_slots add del s qs) (run_slots (spec_add answer g) spec_del t qs)"
    by (rule agree_run[where R = rel_left])
       (use assms add_refines del_refines in \<open>auto simp: rel_left_def\<close>)
  then show ?thesis
    by (rule sum.rel_mono_strong) (auto simp: rel_left_def)
qed

end

text \<open>The list of the code and an abstract table.\<close>

definition slots_match :: "nat \<Rightarrow> xvlst \<Rightarrow> slot_spec \<Rightarrow> bool" where
  "slots_match bs l t \<longleftrightarrow> last_ix l = highest t \<and> max_len l = room t \<and>
     (if intact t then slots_ok bs l \<and> used_slots l = set (in_use t) \<and> distinct (in_use t)
      else slots_lost l)"

interpretation xl: slot_table
  "\<lambda>l. xvlst_add okd okt junk l bs g" xvlst_del used_slots last_ix max_len
  "\<lambda>l. slots_ok bs l \<and> grow_ok bs g cap" "\<lambda>l. slots_lost l \<and> grow_ok bs g cap" "grant okd okt bs" g cap
  for okd okt junk bs g cap
proof
  fix l :: xvlst and k
  show "xvlst_add okd okt junk l bs g = Inr (l, -1)"
    "xvlst_del l k = (if last_ix l < k then Inr (l, ERANGE) else Inl BadPointer)"
    if "slots_lost l \<and> grow_ok bs g cap"
    using xvlst_lost[of l bs g cap] that by blast+
  assume "slots_ok bs l \<and> grow_ok bs g cap"
  then have a: "slots_ok bs l" "grow_ok bs g cap"
    by auto
  show "\<exists>l' rc. xvlst_del l k = Inr (l', rc) \<and> (slots_ok bs l' \<and> grow_ok bs g cap) \<and> last_ix l' = last_ix l \<and>
      max_len l' = max_len l \<and>
      rc = (if last_ix l < k then ERANGE else if k \<notin> used_slots l then EALREADY else 0) \<and>
      used_slots l' = used_slots l - {k}"
    using xvlst_del_ok[OF a(1), of k] a by blast
  show "i \<in> used_slots l \<Longrightarrow> i \<le> last_ix l" for i
    using a(1) xvlst_okD(5) by (auto simp: slots_ok_def)
  show "card (used_slots l) \<le> max_len l"
    using card_used_le[of l] a(1) xvlst_okD(1) by (auto simp: slots_ok_def)
  assume c: "card (used_slots l) < cap"
  show "\<exists>l' i. xvlst_add okd okt junk l bs g = Inr (l', int i) \<and> (slots_ok bs l' \<and> grow_ok bs g cap) \<and>
      used_slots l' = insert i (used_slots l) \<and> i \<notin> used_slots l \<and> (\<forall>j<i. j \<in> used_slots l) \<and>
      last_ix l' = max (last_ix l) i \<and>
      max_len l' = (if card (used_slots l) = max_len l then blocks_for g (max_len l + 1) else max_len l)"
    if "card (used_slots l) = max_len l \<longrightarrow> grant okd okt bs (blocks_for g (max_len l + 1)) = Granted"
    using xvlst_add_granted[where okd = okd and okt = okt and junk = junk, OF a c] that a by blast
  assume full: "card (used_slots l) = max_len l"
  show "grant okd okt bs (blocks_for g (max_len l + 1)) = Refused \<Longrightarrow>
      xvlst_add okd okt junk l bs g = Inr (l, - ENOMEM)"
    using xvlst_add_failed(1)[OF a c full] by blast
  show "grant okd okt bs (blocks_for g (max_len l + 1)) = FlagsLost \<Longrightarrow>
      \<exists>l'. xvlst_add okd okt junk l bs g = Inr (l', - ENOMEM) \<and> (slots_lost l' \<and> grow_ok bs g cap) \<and>
        last_ix l' = last_ix l \<and> max_len l' = blocks_for g (max_len l + 1)"
    using xvlst_add_failed(2)[OF a c full] a(2) by blast
qed

section \<open>Properties\<close>

definition xvec_zero :: xvec where
  "xvec_zero = \<lparr>data = None, xlen = 0, max_len = 0\<rparr>"

definition xvlst_zero :: xvlst where
  "xvlst_zero = \<lparr>data = None, xlen = 0, max_len = 0, taken = None, last_ix = 0, avail = 0\<rparr>"

lemma xvlst_zero_ok: "xvlst_ok bs xvlst_zero"
  by (simp add: xvlst_ok_def xvlst_zero_def flags_def used_slots_def first_free_def)

lemma xvlst_reserve_zero:
  assumes "grow_ok bs g cap" and "0 < n" and "n \<le> cap" and "grant okd okt bs (blocks_for g n) = Granted"
  shows "\<exists>l. xvlst_reserve okd okt junk xvlst_zero n bs g = Inr (l, 0) \<and> slots_ok bs l \<and>
    used_slots l = {} \<and> last_ix l = 0 \<and> max_len l = blocks_for g n"
proof -
  have "(n + g) * bs \<le> (cap + g) * bs"
    using assms(3) by (intro mult_le_mono1) simp
  then have c: "0 < g" "n + g \<le> 2 ^ 63" "(n + g) * bs \<le> 2 ^ 64" "0 < bs"
    using assms(1,3) unfolding grow_ok_def by linarith+
  obtain l where l: "xvlst_reserve okd okt junk xvlst_zero n bs g = Inr (l, 0)" "xvlst_ok bs l"
      "flags l = flags xvlst_zero @ replicate (max_len l - max_len xvlst_zero) 0" "n \<le> max_len l"
      "last_ix l = last_ix xvlst_zero" "max_len l = (if max_len xvlst_zero < n then blocks_for g n else max_len xvlst_zero)"
    using xvlst_reserve_granted[where okd = okd and okt = okt and junk = junk,
        OF xvlst_zero_ok c(1) assms(2) c(2,3) assms(4) c(4)] by auto
  have "used_slots l = used_slots xvlst_zero"
    by (rule used_slots_grow) (rule l(3))
  then show ?thesis
    using l assms(2) by (intro exI[of _ l]) (simp add: slots_ok_def xvlst_zero_def used_slots_def flags_def)
qed

lemma xvlst_reserve_zero_failed:
  assumes "grow_ok bs g cap" and "0 < n" and "n \<le> cap" and "grant okd okt bs (blocks_for g n) \<noteq> Granted"
  shows "\<exists>l. xvlst_reserve okd okt junk xvlst_zero n bs g = Inr (l, -1)"
proof -
  have "(n + g) * bs \<le> (cap + g) * bs"
    using assms(3) by (intro mult_le_mono1) simp
  then have c: "0 < g" "n + g \<le> 2 ^ 63" "(n + g) * bs \<le> 2 ^ 64" "0 < bs"
    using assms(1,3) unfolding grow_ok_def by linarith+
  have less: "max_len xvlst_zero < n"
    using assms(2) by (simp add: xvlst_zero_def)
  note G = xvlst_reserve_grown(4,5)[where okd = okd and okt = okt and junk = junk,
      OF xvlst_zero_ok c(1) less c(2,3,4)]
  show ?thesis
    using G assms(4) by (cases "grant okd okt bs (blocks_for g n)") blast+
qed

definition new_table :: "nat \<Rightarrow> slot_spec" where
  "new_table m = \<lparr>in_use = [], highest = 0, room = m, intact = True\<rparr>"

text \<open>
  C8: whatever the allocator grants or refuses, a slot list that was reserved once answers every
  sequence of additions and deletions as the abstract table does, and ends in a state that
  matches it. An addition hands out the lowest slot not in use. When all slots are in use it
  first grows to the next multiple of the block: it answers \<open>-ENOMEM\<close> and changes nothing when
  the array cannot grow, and \<open>-ENOMEM\<close> with the flags lost when the array can and the flags cannot.
  A deletion answers 0, \<open>ERANGE\<close> or \<open>EALREADY\<close>. With the flags lost every addition answers -1, and
  the deletion of a slot up to the highest one dereferences the null pointer that the failed
  \<open>realloc\<close> of the flags has left; that is the only trap of the table and of the list. The sizes are
  such that no product wraps.
\<close>
theorem xvlst_run_refines:
  assumes "grow_ok bs g cap" and "0 < n" and "n \<le> cap" and "length qs \<le> cap"
    and "xvlst_reserve okd okt junk xvlst_zero n bs g = Inr (l0, 0)"
  shows "case run_slots (spec_add (grant okd okt bs) g) spec_del (new_table (blocks_for g n)) qs of
      Inl e \<Rightarrow> run_slots (\<lambda>l. xvlst_add okd okt junk l bs g) xvlst_del l0 qs = Inl e
    | Inr (t, rs) \<Rightarrow> \<exists>l. run_slots (\<lambda>l. xvlst_add okd okt junk l bs g) xvlst_del l0 qs = Inr (l, rs) \<and>
        slots_match bs l t"
proof -
  have granted: "grant okd okt bs (blocks_for g n) = Granted"
    using xvlst_reserve_zero_failed[OF assms(1-3), of okd okt junk] assms(5) by fastforce
  have l0: "slots_ok bs l0" "used_slots l0 = {}" "last_ix l0 = 0" "max_len l0 = blocks_for g n"
    using xvlst_reserve_zero[OF assms(1-3) granted, of junk] assms(5) by auto
  have "agree (xl.rel bs g cap) (run_slots (\<lambda>l. xvlst_add okd okt junk l bs g) xvlst_del l0 qs)
      (run_slots (spec_add (grant okd okt bs) g) spec_del (new_table (blocks_for g n)) qs)"
    using l0 assms(1,4) by (intro xl.run_refines) (unfold xl.rel_def new_table_def, simp_all)
  moreover have "slots_match bs l t" if "xl.rel bs g cap l t" for l t
    using that by (auto simp: xl.rel_def slots_match_def)
  ultimately show ?thesis
    by (auto simp: rel_sum.simps split: sum.split)
qed

definition few_slots :: "slot_op list" where
  "few_slots = [SlotAdd, SlotAdd, SlotAdd, SlotAdd, SlotAdd, SlotDel 1, SlotAdd, SlotDel 2, SlotDel 2, SlotDel 7]"

lemma slot_traces:
  "run_slots (spec_add (grant (\<lambda>k. k \<le> 64) (\<lambda>_. True) 16) 2) spec_del (new_table (blocks_for 2 2)) few_slots =
   Inr (\<lparr>in_use = [1, 3, 0], highest = 3, room = 4, intact = True\<rparr>, [0, 1, 2, 3, -12, 0, 1, 0, 114, 34])"
  "run_slots (spec_add (grant (\<lambda>_. True) (\<lambda>k. k \<le> 4) 16) 2) spec_del (new_table (blocks_for 2 2)) few_slots = Inl BadPointer"
  by code_simp+

theorem xvlst_run_refines_witness:
  "(\<exists>l0 l. xvlst_reserve (\<lambda>k. k \<le> 64) (\<lambda>_. True) 0 xvlst_zero 2 16 2 = Inr (l0, 0) \<and>
     run_slots (\<lambda>l. xvlst_add (\<lambda>k. k \<le> 64) (\<lambda>_. True) 0 l 16 2) xvlst_del l0 few_slots =
       Inr (l, [0, 1, 2, 3, -12, 0, 1, 0, 114, 34]) \<and> used_slots l = {0, 1, 3} \<and> max_len l = 4) \<and>
   (\<exists>l0. xvlst_reserve (\<lambda>_. True) (\<lambda>k. k \<le> 4) 0 xvlst_zero 2 16 2 = Inr (l0, 0) \<and>
     run_slots (\<lambda>l. xvlst_add (\<lambda>_. True) (\<lambda>k. k \<le> 4) 0 l 16 2) xvlst_del l0 few_slots = Inl BadPointer)"
proof -
  have g: "grow_ok 16 2 100" "0 < (2 :: nat)" "(2 :: nat) \<le> 100" "length few_slots \<le> 100"
    by (simp_all add: grow_ok_def few_slots_def)
  obtain l1 where l1: "xvlst_reserve (\<lambda>k. k \<le> 64) (\<lambda>_. True) 0 xvlst_zero 2 16 2 = Inr (l1, 0)"
    using xvlst_reserve_zero[OF g(1-3), of "\<lambda>k. k \<le> 64" "\<lambda>_. True" 0] by (auto simp: grant_def blocks_for_def)
  obtain l2 where l2: "xvlst_reserve (\<lambda>_. True) (\<lambda>k. k \<le> 4) 0 xvlst_zero 2 16 2 = Inr (l2, 0)"
    using xvlst_reserve_zero[OF g(1-3), of "\<lambda>_. True" "\<lambda>k. k \<le> 4" 0] by (auto simp: grant_def blocks_for_def)
  show ?thesis
    using xvlst_run_refines[OF g l1] xvlst_run_refines[OF g l2] l1 l2
    unfolding slot_traces by (auto simp: slots_match_def)
qed

text \<open>
  \<open>xvec_reserve\<close> grows an array to the smallest multiple of the growth block that holds
  the requested number of elements, and keeps the old contents, when the sizes involved stay
  below \<open>2 ^ 64\<close>.
\<close>
theorem xvec_reserve_grows:
  assumes "0 < g" and "0 < bs" and "0 < n" and "max_len v \<le> n" and "(n + g) * bs \<le> 2 ^ 64"
    and "data v = Some d" and "length d = max_len v * bs" and "\<forall>k. ok k"
  shows "\<exists>m d'. xvec_reserve ok junk v n bs g = Inr (v\<lparr>data := Some d', max_len := m\<rparr>, 0) \<and>
    g dvd m \<and> n \<le> m \<and> m < n + g \<and> length d' = m * bs \<and> take (length d) d' = d"
proof -
  define m where "m = (1 + (n - 1) div g) * g"
  have m: "n \<le> m" "m < n + g"
    using round_up[OF assms(3,1)] by (simp_all add: m_def)
  have "n + g \<le> (n + g) * bs" "m * bs < (n + g) * bs" "length d \<le> m * bs"
    using m assms by simp_all
  then have ng: "n + g \<le> 2 ^ 64" and mb: "size_mul m bs = m * bs" and ld: "length d \<le> m * bs"
    using assms(5) by (linarith, intro size_mul_small, linarith, simp)
  have "xvec_reserve ok junk v n bs g = (case c_realloc ok junk (data v) (size_mul m bs) of
      None \<Rightarrow> Inr (v, -1) | Some p \<Rightarrow> Inr (v\<lparr>data := Some p, max_len := m\<rparr>, 0))"
    unfolding m_def using assms ng by (intro xvec_reserve_eq) simp_all
  moreover have dvd: "g dvd m"
    by (simp add: m_def)
  ultimately show ?thesis
    using assms(6,8) ld m
    by (intro exI[of _ m] exI[of _ "d @ replicate (m * bs - length d) junk"])
       (simp add: c_realloc_def mb Let_def dvd)
qed

theorem xvec_reserve_grows_witness:
  "\<exists>m d'. xvec_reserve (\<lambda>_. True) 0 \<lparr>data = Some [7, 8, 9, 1], xlen = 2, max_len = 2\<rparr> 5 2 4 =
     Inr (\<lparr>data = Some d', xlen = 2, max_len = m\<rparr>, 0) \<and>
    4 dvd m \<and> 5 \<le> m \<and> m < 9 \<and> length d' = m * 2 \<and> take (length [7, 8, 9, 1 :: u8]) d' = [7, 8, 9, 1]"
  using xvec_reserve_grows[of 4 2 5 "\<lparr>data = Some [7, 8, 9, 1], xlen = 2, max_len = 2\<rparr>" "[7, 8, 9, 1]" "\<lambda>_. True" 0]
  by simp

text \<open>
  The product of element count and element size is not checked: a request for
  \<open>2 ^ 61\<close> elements of 8 bytes succeeds with a block of 64 bytes.
\<close>
theorem xvec_reserve_overflow:
  "xvec_reserve (\<lambda>_. True) junk xvec_zero (2 ^ 61) 8 10 =
     Inr (\<lparr>data = Some (replicate 64 junk), xlen = 0, max_len = 2 ^ 61 + 8\<rparr>, 0)"
  by (simp add: xvec_reserve_def xvec_zero_def c_realloc_def size_arith)

text \<open>
  When the array can grow but the flags cannot, \<open>xvlst_add\<close> reports \<open>-ENOMEM\<close> and loses the
  flags: the next deletion of any slot up to the highest one dereferences a null pointer.
\<close>
theorem xvlst_add_loses_flags:
  assumes "slots_ok bs l" and "grow_ok bs g cap" and "card (used_slots l) = max_len l"
    and "max_len l < cap" and "k \<le> last_ix l"
  shows "\<exists>l'. xvlst_add (\<lambda>_. True) (\<lambda>_. False) junk l bs g = Inr (l', - ENOMEM) \<and>
    xvlst_del l' k = Inl BadPointer"
proof -
  have okl: "xvlst_ok bs l" and pos: "0 < max_len l"
    using assms(1) by (simp_all add: slots_ok_def)
  note D = xvlst_okD[OF okl]
  define m where "m = (1 + max_len l div g) * g"
  have m': "m = (1 + (max_len l + 1 - 1) div g) * g"
    by (simp add: m_def)
  have c: "0 < g" "0 < bs" "max_len l + 1 + g \<le> 2 ^ 64"
    using assms(2,4) by (simp_all add: grow_ok_def)
  have m: "max_len l + 1 \<le> m"
    using round_up(1)[of "max_len l + 1" g] c(1) by (simp add: m_def)
  have av: "avail l < to_ssize (max_len l)"
    using okl pos D(1,2) first_free_le[of "flags l"] by (auto simp: xvlst_ok_def)
  have "xvec_reserve (\<lambda>_. True) junk l (max_len l + 1) bs g =
      (case c_realloc (\<lambda>_. True) junk (data l) (size_mul m bs) of
        None \<Rightarrow> Inr (l, -1) | Some p \<Rightarrow> Inr (l\<lparr>data := Some p, max_len := m\<rparr>, 0))"
    unfolding m' by (rule xvec_reserve_eq) (use c in simp_all)
  then obtain p where "xvec_reserve (\<lambda>_. True) junk l (max_len l + 1) bs g =
      Inr (l\<lparr>data := Some p, max_len := m\<rparr>, 0)"
    by (simp add: c_realloc_def Let_def)
  then have "xvlst_reserve (\<lambda>_. True) (\<lambda>_. False) junk l (max_len l + 1) bs g =
      Inr (l\<lparr>data := Some p, max_len := m, taken := None\<rparr>, -1)"
    using m by (simp add: xvlst_reserve_def c_realloc_def Let_def)
  then have "xvlst_add (\<lambda>_. True) (\<lambda>_. False) junk l bs g =
      Inr (l\<lparr>data := Some p, max_len := m, taken := None\<rparr>, - ENOMEM)"
    using av c assms(3) D(2,3) by (simp add: xvlst_add_def xvlst_expand_def)
  then show ?thesis
    using assms(5) by (simp add: xvlst_del_def pget_def)
qed

definition one_slot :: xvlst where
  "one_slot = \<lparr>data = Some [5], xlen = 1, max_len = 1, taken = Some [1], last_ix = 0, avail = -1\<rparr>"

lemma one_slot_ok: "used_slots one_slot = {0}" "slots_ok 1 one_slot"
proof -
  show u: "used_slots one_slot = {0}"
    by (auto simp: one_slot_def flags_def used_slots_def)
  show "slots_ok 1 one_slot"
    by (simp add: slots_ok_def xvlst_ok_def u) (simp add: one_slot_def flags_def first_free_def)
qed

theorem xvlst_add_loses_flags_witness:
  "\<exists>l'. xvlst_add (\<lambda>_. True) (\<lambda>_. False) 0 one_slot 1 1 = Inr (l', - ENOMEM) \<and>
    xvlst_del l' 0 = Inl BadPointer"
  using xvlst_add_loses_flags[OF one_slot_ok(2), of 1 100 0 0]
  by (simp add: one_slot_ok grow_ok_def) (simp add: one_slot_def)

end
