(* ===== verification/Fdio.thy ===== *)
theory Fdio
  imports Prelude
begin

unbundle bit_operations_syntax

text \<open>
  \<open>fdwatch/fdio.c\<close>: reading and writing until everything is transferred.  The kernel is a script
  of answers, one per system call; a function that has used up its script has not returned yet
  (\<open>None\<close>).  The state holds errno, the diagnostics printed, the bytes the output descriptor
  has accepted and the bytes the input descriptor still holds.
\<close>

section \<open>The kernel\<close>

datatype answer = Accept nat | Fail int

record io =
  errno :: int
  diag :: "string list"
  sink :: "u8 list"
  source :: "u8 list"
  content :: "u8 list"

definition c_perror :: "string \<Rightarrow> io \<Rightarrow> io" where
  "c_perror msg s = s\<lparr>diag := diag s @ [msg]\<rparr>"

text \<open>\<open>write\<close>, \<open>read\<close> and \<open>pread\<close>.\<close>

fun sys_write :: "io \<Rightarrow> u8 list \<Rightarrow> answer \<Rightarrow> io \<times> int" where
  "sys_write s p (Accept k) =
     (let n = min k (length p) in (s\<lparr>sink := sink s @ take n p\<rparr>, int n))"
| "sys_write s p (Fail e) = (s\<lparr>errno := e\<rparr>, -1)"

fun sys_read :: "io \<Rightarrow> nat \<Rightarrow> answer \<Rightarrow> io \<times> int \<times> u8 list" where
  "sys_read s n (Accept k) =
     (let r = take (min k n) (source s) in (s\<lparr>source := drop (length r) (source s)\<rparr>, int (length r), r))"
| "sys_read s n (Fail e) = (s\<lparr>errno := e\<rparr>, -1, [])"

fun sys_pread :: "io \<Rightarrow> nat \<Rightarrow> int \<Rightarrow> answer \<Rightarrow> io \<times> int \<times> u8 list" where
  "sys_pread s n pos (Accept k) =
     (if pos < 0 then (s\<lparr>errno := EINVAL\<rparr>, -1, [])
      else let r = take (min k n) (drop (nat pos) (content s)) in (s, int (length r), r))"
| "sys_pread s n pos (Fail e) = (s\<lparr>errno := e\<rparr>, -1, [])"

section \<open>The flags\<close>

definition FDIO_QUIET_EAGAIN :: u32 where "FDIO_QUIET_EAGAIN = 1"
definition FDIO_QUIET_EPIPE :: u32 where "FDIO_QUIET_EPIPE = 2"
definition FDIO_QUIET_EINTR :: u32 where "FDIO_QUIET_EINTR = 4"
definition FDIO_SENDFILE :: u32 where "FDIO_SENDFILE = 8"

text \<open>\<open>EWOULDBLOCK\<close> is \<open>EAGAIN\<close>.\<close>

definition quiet_eagain :: "u32 \<Rightarrow> int \<Rightarrow> bool" where
  "quiet_eagain fl err \<longleftrightarrow> fl AND FDIO_QUIET_EAGAIN \<noteq> 0 \<and> err = EAGAIN"

definition quiet_epipe :: "u32 \<Rightarrow> int \<Rightarrow> bool" where
  "quiet_epipe fl err \<longleftrightarrow> fl AND FDIO_QUIET_EPIPE \<noteq> 0 \<and> err = EPIPE"

definition eintr_diag :: "u32 \<Rightarrow> string \<Rightarrow> io \<Rightarrow> io" where
  "eintr_diag fl msg s = (if fl AND FDIO_QUIET_EINTR = 0 then c_perror msg s else s)\<lparr>errno := 0\<rparr>"

definition set_errno :: "int \<Rightarrow> io \<Rightarrow> io" where
  "set_errno err s = (if err \<noteq> 0 then s\<lparr>errno := err\<rparr> else s)"

section \<open>nwrite\<close>

fun nwrite_loop ::
  "u32 \<Rightarrow> u8 list \<Rightarrow> nat \<Rightarrow> int \<Rightarrow> int \<Rightarrow> io \<Rightarrow> answer list \<Rightarrow> (io \<times> int \<times> answer list) option" where
  "nwrite_loop fl buf tot nwr err s [] =
     (if tot < length buf then None
      else Some (set_errno err s, if nwr < 0 then nwr else int tot, []))"
| "nwrite_loop fl buf tot nwr err s (a # as) =
     (if tot < length buf then
        (case sys_write s (drop tot buf) a of (s, nwr) \<Rightarrow>
         if nwr \<le> 0 then
           (let err = errno s in
            if err = EINTR then nwrite_loop fl buf tot nwr 0 (eintr_diag fl ''writev'' s) as
            else
              (let s = (if quiet_eagain fl err \<or> quiet_epipe fl err then s else c_perror ''writev'' s) in
               Some (set_errno err s, if nwr < 0 then nwr else int tot, as)))
         else nwrite_loop fl buf (tot + nat nwr) nwr err s as)
      else Some (set_errno err s, if nwr < 0 then nwr else int tot, a # as))"

definition nwrite :: "u32 \<Rightarrow> u8 list \<Rightarrow> io \<Rightarrow> answer list \<Rightarrow> (io \<times> int \<times> answer list) option" where
  "nwrite fl buf s as = nwrite_loop fl buf 0 0 0 s as"

section \<open>nwritev\<close>

text \<open>
  The inner loop: advance over the vectors that have been written. It counts a copy of \<open>nbytes\<close> down;
  what the code leaves in \<open>nbytes\<close> is not read again before the next \<open>writev\<close> sets it.
\<close>

fun iov_advance :: "u8 list list \<Rightarrow> nat \<Rightarrow> u8 list list" where
  "iov_advance [] nbytes = []"
| "iov_advance (v # iov) nbytes =
     (if nbytes < length v then drop nbytes v # iov else iov_advance iov (nbytes - length v))"

fun nwritev_loop ::
  "u32 \<Rightarrow> u8 list list \<Rightarrow> int \<Rightarrow> int \<Rightarrow> int \<Rightarrow> io \<Rightarrow> answer list \<Rightarrow>
    (io \<times> int \<times> u8 list list \<times> answer list) option" where
  "nwritev_loop fl iov nbytes tot err s [] =
     (if iov \<noteq> [] then None
      else Some (set_errno err s, if err \<noteq> 0 then nbytes else tot, iov, []))"
| "nwritev_loop fl iov nbytes tot err s (a # as) =
     (if iov \<noteq> [] then
        (case sys_write s (concat iov) a of (s, nbytes) \<Rightarrow>
         if nbytes \<le> 0 then
           (let err = errno s in
            if err = EINTR then
              nwritev_loop fl (iov_advance iov 0) 0 tot 0 (eintr_diag fl ''writev'' s) as
            else
              (let s = (if quiet_eagain fl err \<or> quiet_epipe fl err then s else c_perror ''writev'' s);
                   s = (if nbytes < 0 \<and> concat iov \<noteq> [] then c_perror ''underwrote'' s else s) in
               Some (set_errno err s, if err \<noteq> 0 then nbytes else tot, iov, as)))
         else nwritev_loop fl (iov_advance iov (nat nbytes)) nbytes (tot + nbytes) err s as)
      else Some (set_errno err s, if err \<noteq> 0 then nbytes else tot, iov, a # as))"

definition nwritev ::
  "u32 \<Rightarrow> u8 list list \<Rightarrow> io \<Rightarrow> answer list \<Rightarrow> (io \<times> int \<times> u8 list list \<times> answer list) option cresult" where
  "nwritev fl iov s as = cbind (cassert (iov \<noteq> [])) (\<lambda>_. Inr (nwritev_loop fl iov 0 0 0 s as))"

section \<open>nread and npread\<close>

text \<open>The bytes read so far, which the code has stored at the start of its buffer, are \<open>got\<close>.\<close>

fun nread_loop ::
  "u32 \<Rightarrow> nat \<Rightarrow> u8 list \<Rightarrow> int \<Rightarrow> io \<Rightarrow> answer list \<Rightarrow> (io \<times> u8 list \<times> answer list) option" where
  "nread_loop fl count got err s [] =
     (if length got < count then None else Some (set_errno err s, got, []))"
| "nread_loop fl count got err s (a # as) =
     (if length got < count then
        (case sys_read s (count - length got) a of (s, nrd, r) \<Rightarrow>
         if nrd = -1 then
           (let err = errno s in
            if err = EINTR then nread_loop fl count got 0 (eintr_diag fl ''writev'' s) as
            else
              (let s = (if quiet_eagain fl err then s else c_perror ''read'' s) in
               Some (set_errno err s, got, as)))
         else if nrd = 0 then Some (s, got, as)
         else nread_loop fl count (got @ r) err s as)
      else Some (set_errno err s, got, a # as))"

definition nread :: "u32 \<Rightarrow> nat \<Rightarrow> io \<Rightarrow> answer list \<Rightarrow> (io \<times> u8 list \<times> answer list) option" where
  "nread fl count s as = nread_loop fl count [] 0 s as"

fun npread_loop ::
  "u32 \<Rightarrow> nat \<Rightarrow> int \<Rightarrow> u8 list \<Rightarrow> int \<Rightarrow> io \<Rightarrow> answer list \<Rightarrow>
    (io \<times> u8 list \<times> answer list) option" where
  "npread_loop fl count off got err s [] =
     (if length got < count then None else Some (set_errno err s, got, []))"
| "npread_loop fl count off got err s (a # as) =
     (if length got < count then
        (case sys_pread s (count - length got) off a of (s, nrd, r) \<Rightarrow>
         if nrd = -1 then
           (let err = errno s in
            if err = EINTR then npread_loop fl count off got 0 (eintr_diag fl ''writev'' s) as
            else
              (let s = (if quiet_eagain fl err then s else c_perror ''read'' s) in
               Some (set_errno err s, got, as)))
         else if nrd = 0 then Some (s, got, as)
         else npread_loop fl count (off + nrd) (got @ r) err s as)
      else Some (set_errno err s, got, a # as))"

definition npread ::
  "u32 \<Rightarrow> nat \<Rightarrow> int \<Rightarrow> io \<Rightarrow> answer list \<Rightarrow> (io \<times> u8 list \<times> answer list) option" where
  "npread fl count offset s as = npread_loop fl count offset [] 0 s as"

section \<open>sendfile\<close>

text \<open>
  FreeBSD: \<open>sendfile\<close> answers with its return code, errno and the number of bytes it sent, which
  it also reports on failure.  \<open>lseek\<close> gives the position of the input (-1 on failure).
\<close>

record bsd_answer =
  ba_fail :: bool
  ba_errno :: int
  ba_sbytes :: int

fun bsd_loop ::
  "u32 \<Rightarrow> nat \<Rightarrow> int \<Rightarrow> int \<Rightarrow> int \<Rightarrow> int \<Rightarrow> io \<Rightarrow> bsd_answer list \<Rightarrow>
    (io \<times> int \<times> int \<times> int \<times> int) option" where
  "bsd_loop fl count off tot sbytes err s [] =
     (if tot < int count then None else Some (s, off, tot, sbytes, err))"
| "bsd_loop fl count off tot sbytes err s (a # as) =
     (if tot < int count then
        (let sbytes = ba_sbytes a in
         if ba_fail a then
           (let err = ba_errno a; s = s\<lparr>errno := err\<rparr> in
            if err = EINTR then
              bsd_loop fl count (off + sbytes) (tot + sbytes) sbytes 0 (eintr_diag fl ''sendfile'' s) as
            else
              (let s = (if quiet_eagain fl err \<or> quiet_epipe fl err then s else c_perror ''sendfile'' s) in
               Some (s, off, tot, sbytes, err)))
         else bsd_loop fl count (off + sbytes) (tot + sbytes) sbytes err s as)
      else Some (s, off, tot, sbytes, err))"

text \<open>
  The result is the state, the value of \<open>*offset\<close> and the return value; \<open>seek_cur\<close> and
  \<open>seek_set\<close> are the answers of the two calls of \<open>lseek\<close>.
\<close>

definition bsd_nsendfile ::
  "u32 \<Rightarrow> int option \<Rightarrow> nat \<Rightarrow> int \<Rightarrow> (int \<Rightarrow> int) \<Rightarrow> io \<Rightarrow> bsd_answer list \<Rightarrow>
    (io \<times> int option \<times> int) option" where
  "bsd_nsendfile fl offset count seek_cur seek_set s as =
     (if offset = None \<and> seek_cur = -1 then Some (c_perror ''lseek [current]'' s, None, -1)
      else
        (let start = (case offset of None \<Rightarrow> seek_cur | Some p \<Rightarrow> p) in
         if start < 0 then Some (s\<lparr>errno := EINVAL\<rparr>, offset, -1)
         else
           (case bsd_loop fl count start 0 0 0 s as of
              None \<Rightarrow> None
            | Some (s, off, tot, sbytes, err) \<Rightarrow>
                (let pos = (if offset = None then (if 0 < tot then seek_set (start + tot) else off) else 0);
                     err = (if pos = -1 \<and> err = 0 then errno s else err);
                     s = (if pos = -1 then c_perror ''lseek [set]'' s else s) in
                 Some (set_errno err s, map_option (\<lambda>_. off + sbytes) offset, sbytes)))))"

text \<open>Linux: \<open>nsendfile\<close> is one call of \<open>sendfile\<close>, which copies from the file or the stream.\<close>

fun sys_sendfile :: "io \<Rightarrow> int option \<Rightarrow> nat \<Rightarrow> answer \<Rightarrow> io \<times> int option \<times> int" where
  "sys_sendfile s None n a =
     (case sys_read s n a of (s, rc, r) \<Rightarrow> (s\<lparr>sink := sink s @ r\<rparr>, None, rc))"
| "sys_sendfile s (Some p) n a =
     (case sys_pread s n p a of (s, rc, r) \<Rightarrow>
      (s\<lparr>sink := sink s @ r\<rparr>, Some (if rc < 0 then p else p + rc), rc))"

definition nsendfile ::
  "int option \<Rightarrow> nat \<Rightarrow> io \<Rightarrow> answer list \<Rightarrow> (io \<times> int option \<times> int \<times> answer list) option" where
  "nsendfile offset count s as =
     (case as of [] \<Rightarrow> None
      | a # as \<Rightarrow> (case sys_sendfile s offset count a of (s, offset, rc) \<Rightarrow> Some (s, offset, rc, as)))"

section \<open>transfer\<close>

definition TRFBUF_LIMIT :: nat where "TRFBUF_LIMIT = 1024 * 10"

text \<open>The result is the state, the value of \<open>*offset\<close>, the return value and the answers left.\<close>

definition transfer ::
  "u32 \<Rightarrow> int option \<Rightarrow> nat \<Rightarrow> io \<Rightarrow> answer list \<Rightarrow>
    (io \<times> int option \<times> int \<times> answer list) option cresult" where
  "transfer fl offset count s as =
     (if fl AND FDIO_SENDFILE \<noteq> 0 then Inr (nsendfile offset count s as)
      else
        (let nbytes = (if count = 0 \<or> TRFBUF_LIMIT < count then TRFBUF_LIMIT else count) in
         case (case offset of Some p \<Rightarrow> npread fl nbytes p s as | None \<Rightarrow> nread fl nbytes s as) of
           None \<Rightarrow> Inr None
         | Some (s, trf_buf, as) \<Rightarrow>
             (let nrd = int (length trf_buf); err = errno s in
              if nrd \<le> 0 \<or> err \<noteq> 0 then Inr (Some (set_errno err s, offset, 0, as))
              else
                (case nwrite fl trf_buf s as of
                   None \<Rightarrow> Inr None
                 | Some (s, nwr, as) \<Rightarrow>
                     if nwr = nrd then
                       Inr (Some (s, map_option (\<lambda>p. p + nwr) offset, nwr, as))
                     else if nwr < nrd then
                       Inr (Some (c_perror ''underwrite'' s, map_option (\<lambda>p. p + nwr) offset, nwr, as))
                     else Inl Aborted))))"

section \<open>Answers\<close>

text \<open>
  A clean script has no failure but interruptions, and every other answer makes progress.
  \<open>accepted\<close> is the number of bytes it lets through, \<open>accepts\<close> the number of its
  successful calls.
\<close>

fun clean_answer :: "answer \<Rightarrow> bool" where
  "clean_answer (Accept k) = (0 < k)"
| "clean_answer (Fail e) = (e = EINTR)"

fun accepted :: "answer list \<Rightarrow> nat" where
  "accepted [] = 0"
| "accepted (Accept k # as) = k + accepted as"
| "accepted (Fail e # as) = accepted as"

fun accepts :: "answer list \<Rightarrow> nat" where
  "accepts [] = 0"
| "accepts (Accept k # as) = Suc (accepts as)"
| "accepts (Fail e # as) = accepts as"

lemma accepts_le_accepted: "list_all clean_answer as \<Longrightarrow> accepts as \<le> accepted as"
  by (induction as rule: accepts.induct) auto

lemma io_diag_simps [simp]:
  "sink (eintr_diag fl m s) = sink s" "source (eintr_diag fl m s) = source s"
  "content (eintr_diag fl m s) = content s" "errno (eintr_diag fl m s) = 0"
  "sink (c_perror m s) = sink s" "source (c_perror m s) = source s"
  "content (c_perror m s) = content s" "errno (c_perror m s) = errno s"
  "sink (set_errno e s) = sink s" "source (set_errno e s) = source s"
  "content (set_errno e s) = content s" "set_errno 0 s = s"
  "errno (set_errno e s) = (if e \<noteq> 0 then e else errno s)"
  by (simp_all add: eintr_diag_def c_perror_def set_errno_def)

lemma EINTR_not_quiet [simp]: "\<not> quiet_eagain fl EINTR" "\<not> quiet_epipe fl EINTR"
  by (simp_all add: quiet_eagain_def quiet_epipe_def)

section \<open>nwrite writes a prefix, all of it when nothing fails\<close>

lemma nwrite_accept:
  assumes "tot < length buf" and "0 < k"
  shows "nwrite_loop fl buf tot nwr err s (Accept k # as) =
    nwrite_loop fl buf (tot + min k (length buf - tot)) (int (min k (length buf - tot))) err
      (s\<lparr>sink := sink s @ take (min k (length buf - tot)) (drop tot buf)\<rparr>) as"
proof -
  have "\<not> int (min k (length buf - tot)) \<le> 0"
    using assms by simp
  with assms(1) show ?thesis
    by (simp add: Let_def del: of_nat_min min_less_iff_conj)
qed

lemma nwrite_eintr:
  "tot < length buf \<Longrightarrow> nwrite_loop fl buf tot nwr err s (Fail EINTR # as) =
    nwrite_loop fl buf tot (-1) 0 (eintr_diag fl ''writev'' (s\<lparr>errno := EINTR\<rparr>)) as"
  by simp

lemma take_extend:
  "tot + m \<le> n \<Longrightarrow> take m (drop tot buf) @ take (n - (tot + m)) (drop (tot + m) buf) = take (n - tot) (drop tot buf)"
proof -
  assume "tot + m \<le> n"
  then have "n - tot = m + (n - (tot + m))"
    by simp
  then show ?thesis
    by (simp only: take_add drop_drop add.commute)
qed

lemma nwrite_loop_prefix:
  assumes "nwrite_loop fl buf tot nwr err s as = Some (s', r, rest)"
    and "tot \<le> length buf" and "nwr < 0 \<Longrightarrow> tot < length buf"
  shows "\<exists>n. tot \<le> n \<and> n \<le> length buf \<and> sink s' = sink s @ take (n - tot) (drop tot buf) \<and>
    (r = int n \<or> r = -1 \<and> n < length buf)"
  using assms
proof (induction fl buf tot nwr err s as rule: nwrite_loop.induct)
  case (1 fl buf tot nwr err s)
  then show ?case
    by (intro exI[of _ tot]) (auto split: if_splits)
next
  case (2 fl buf tot nwr err s a as)
  show ?case
  proof (cases "tot < length buf")
    case False
    with 2 show ?thesis
      by (intro exI[of _ tot]) (auto split: if_splits)
  next
    case True
    show ?thesis
    proof (cases a)
      case (Fail e)
      show ?thesis
      proof (cases "e = EINTR")
        case eintr: True
        then show ?thesis
          using 2(1)[OF True, of "s\<lparr>errno := e\<rparr>" "-1"] 2(3-) True Fail by (auto split: if_splits)
      next
        case False
        then show ?thesis
          using 2(3-) True Fail by (intro exI[of _ tot]) (auto split: if_splits)
      qed
    next
      case (Accept k)
      define m where "m = min k (length buf - tot)"
      show ?thesis
      proof (cases "m = 0")
        case zero: True
        then have k: "k = 0"
          using True by (simp add: m_def)
        show ?thesis
        proof (cases "errno s = EINTR")
          case True
          then show ?thesis
            using 2(1)[of s 0] 2(3-) \<open>tot < length buf\<close> Accept k by (auto split: if_splits)
        next
          case False
          then show ?thesis
            using 2(3-) True Accept k by (intro exI[of _ tot]) (auto simp: Let_def split: if_splits)
        qed
      next
        case False
        let ?s = "s\<lparr>sink := sink s @ take m (drop tot buf)\<rparr>"
        have "nwrite_loop fl buf (tot + m) (int m) err ?s as = Some (s', r, rest)" "tot + m \<le> length buf"
          using 2(3) True Accept False nwrite_accept[of tot buf k fl nwr err s as] by (simp_all add: m_def)
        then obtain n where "tot + m \<le> n" "n \<le> length buf"
            "sink s' = sink ?s @ take (n - (tot + m)) (drop (tot + m) buf)" "r = int n \<or> r = -1 \<and> n < length buf"
          using 2(2)[OF True, of ?s "int m"] Accept False True by (auto simp: m_def Let_def)
        then show ?thesis
          using take_extend[of tot m n buf] by (intro exI[of _ n]) simp
      qed
    qed
  qed
qed

text \<open>Clean answers that do not fill the buffer only move the position.\<close>

lemma nwrite_loop_skip:
  assumes "list_all clean_answer as1" and "tot + accepted as1 < length buf" and "errno s = 0"
  shows "\<exists>s1 nwr1. nwrite_loop fl buf tot nwr 0 s (as1 @ as2) =
      nwrite_loop fl buf (tot + accepted as1) nwr1 0 s1 as2 \<and>
    s1\<lparr>diag := []\<rparr> = s\<lparr>sink := sink s @ take (accepted as1) (drop tot buf), diag := []\<rparr>"
  using assms
proof (induction as1 arbitrary: tot nwr s)
  case Nil
  then show ?case
    by auto
next
  case (Cons a as1)
  show ?case
  proof (cases a)
    case (Fail e)
    have d: "(eintr_diag fl m (s\<lparr>errno := 4\<rparr>))\<lparr>diag := []\<rparr> = s\<lparr>diag := []\<rparr>" for m
      using Cons.prems(3) by (simp add: eintr_diag_def c_perror_def)
    have "tot < length buf"
      using Cons.prems(2) by simp
    then have "nwrite_loop fl buf tot nwr 0 s ((a # as1) @ as2) =
        nwrite_loop fl buf tot (-1) 0 (eintr_diag fl ''writev'' (s\<lparr>errno := EINTR\<rparr>)) (as1 @ as2)"
      using Cons.prems(1) Fail by simp
    moreover obtain s1 nwr1 where "nwrite_loop fl buf tot (-1) 0 (eintr_diag fl ''writev'' (s\<lparr>errno := EINTR\<rparr>)) (as1 @ as2) =
        nwrite_loop fl buf (tot + accepted as1) nwr1 0 s1 as2"
        "s1\<lparr>diag := []\<rparr> = (eintr_diag fl ''writev'' (s\<lparr>errno := EINTR\<rparr>))\<lparr>sink := sink s @ take (accepted as1) (drop tot buf), diag := []\<rparr>"
      using Cons.IH[of tot "eintr_diag fl ''writev'' (s\<lparr>errno := EINTR\<rparr>)" "-1"] Cons.prems(1,2) Fail
      by auto
    ultimately show ?thesis
      using Fail Cons.prems(3) by (intro exI[of _ s1] exI[of _ nwr1]) (simp add: eintr_diag_def c_perror_def)
  next
    case (Accept k)
    then have k: "0 < k" "k < length buf - tot" "tot < length buf" "list_all clean_answer as1"
      using Cons.prems(1,2) by auto
    define s2 where "s2 = s\<lparr>sink := sink s @ take k (drop tot buf)\<rparr>"
    have "nwrite_loop fl buf tot nwr 0 s ((a # as1) @ as2) =
        nwrite_loop fl buf (tot + k) (int k) 0 s2 (as1 @ as2)"
      using nwrite_accept[of tot buf k fl nwr 0 s "as1 @ as2"] Accept k by (simp add: s2_def min_def)
    moreover obtain s1 nwr1 where "nwrite_loop fl buf (tot + k) (int k) 0 s2 (as1 @ as2) =
        nwrite_loop fl buf (tot + k + accepted as1) nwr1 0 s1 as2"
        "s1\<lparr>diag := []\<rparr> = s2\<lparr>sink := sink s2 @ take (accepted as1) (drop (tot + k) buf), diag := []\<rparr>"
      using Cons.IH[of "tot + k" s2 "int k"] Cons.prems Accept k by (auto simp: s2_def)
    ultimately show ?thesis
      using Accept by (intro exI[of _ s1] exI[of _ nwr1]) (simp add: s2_def take_add ac_simps)
  qed
qed

lemma nwrite_loop_clean:
  assumes "list_all clean_answer as" and "length buf - tot \<le> accepts as" and "tot \<le> length buf"
    and "nwr < 0 \<Longrightarrow> tot < length buf" and "errno s = 0"
  shows "\<exists>s' rest. nwrite_loop fl buf tot nwr 0 s as = Some (s', int (length buf), rest) \<and>
    s'\<lparr>diag := []\<rparr> = s\<lparr>sink := sink s @ drop tot buf, diag := []\<rparr>"
  using assms
proof (induction as arbitrary: tot nwr s)
  case Nil
  then show ?case
    by auto
next
  case (Cons a as)
  show ?case
  proof (cases "tot < length buf")
    case False
    with Cons.prems show ?thesis
      by (intro exI[of _ s] exI[of _ "a # as"]) auto
  next
    case True
    show ?thesis
    proof (cases a)
      case (Fail e)
      define s2 where "s2 = eintr_diag fl ''writev'' (s\<lparr>errno := EINTR\<rparr>)"
      have s2: "s2\<lparr>diag := []\<rparr> = s\<lparr>diag := []\<rparr>" "errno s2 = 0"
        using Cons.prems(5) by (simp_all add: s2_def eintr_diag_def c_perror_def)
      have "nwrite_loop fl buf tot nwr 0 s (a # as) = nwrite_loop fl buf tot (-1) 0 s2 as"
        using True Fail Cons.prems(1) by (simp add: s2_def)
      moreover have "(s2\<lparr>sink := sink s2 @ drop tot buf, diag := []\<rparr>) = s\<lparr>sink := sink s @ drop tot buf, diag := []\<rparr>"
        using s2(1) by (simp add: s2_def eintr_diag_def c_perror_def Cons.prems(5))
      ultimately show ?thesis
        using Cons.IH[of tot "-1" s2] Cons.prems True Fail s2(2) by simp
    next
      case (Accept k)
      define m where "m = min k (length buf - tot)"
      define s2 where "s2 = s\<lparr>sink := sink s @ take m (drop tot buf)\<rparr>"
      have m: "0 < m" "tot + m \<le> length buf"
        using Accept Cons.prems(1) True by (auto simp: m_def)
      have "nwrite_loop fl buf tot nwr 0 s (a # as) = nwrite_loop fl buf (tot + m) (int m) 0 s2 as"
        using nwrite_accept[of tot buf k fl nwr 0 s as] True Accept m by (simp add: s2_def m_def)
      moreover have "take m (drop tot buf) @ drop (tot + m) buf = drop tot buf"
        by (metis append_take_drop_id drop_drop add.commute)
      ultimately show ?thesis
        using Cons.IH[of "tot + m" "int m" s2] Cons.prems Accept m by (simp add: s2_def)
    qed
  qed
qed

section \<open>nwritev is nwrite of the concatenation\<close>

lemma concat_iov_advance: "concat (iov_advance iov n) = drop n (concat iov)"
  by (induction iov n rule: iov_advance.induct) auto

lemma iov_advance_Nil:
  "n \<le> length (concat iov) \<Longrightarrow> iov_advance iov n = [] \<longleftrightarrow> n = length (concat iov)"
  by (induction iov n rule: iov_advance.induct) (auto simp: le_diff_conv)

fun progress :: "answer \<Rightarrow> bool" where
  "progress (Accept k) = (0 < k)"
| "progress (Fail e) = (0 < e)"

definition nwritev_view ::
  "(io \<times> int \<times> u8 list list \<times> answer list) option \<Rightarrow> (io \<times> int \<times> answer list) option" where
  "nwritev_view = map_option (\<lambda>(s, r, iov, rest). (s\<lparr>diag := []\<rparr>, r, rest))"

definition nwrite_view :: "(io \<times> int \<times> answer list) option \<Rightarrow> (io \<times> int \<times> answer list) option" where
  "nwrite_view = map_option (\<lambda>(s, r, rest). (s\<lparr>diag := []\<rparr>, r, rest))"

lemmas views = nwritev_view_def nwrite_view_def

lemma set_errno_diag [simp]: "(set_errno e s)\<lparr>diag := d\<rparr> = set_errno e (s\<lparr>diag := d\<rparr>)"
  by (simp add: set_errno_def)

lemma c_perror_diag [simp]: "(c_perror m s)\<lparr>diag := d\<rparr> = s\<lparr>diag := d\<rparr>"
  by (simp add: c_perror_def)

lemma iov_advance_at:
  assumes "concat iov = drop tot buf" "tot + m \<le> length buf"
  shows "iov_advance iov m = [] \<longleftrightarrow> length buf \<le> tot + m" and "concat (iov_advance iov m) = drop (tot + m) buf"
  using iov_advance_Nil[of m iov] assms by (auto simp: concat_iov_advance add.commute)

lemma nwritev_accept:
  assumes "iov \<noteq> []" "concat iov = drop tot buf" "m = min k (length buf - tot)" "0 < m"
  shows "nwritev_loop fl iov nb (int tot) err s (Accept k # as) =
    nwritev_loop fl (iov_advance iov m) (int m) (int (tot + m)) err (s\<lparr>sink := sink s @ take m (drop tot buf)\<rparr>) as"
proof -
  have "sys_write s (concat iov) (Accept k) = (s\<lparr>sink := sink s @ take m (drop tot buf)\<rparr>, int m)"
    using assms(2,3) by (simp add: Let_def)
  moreover have "\<not> int m \<le> 0"
    using assms(4) by simp
  ultimately show ?thesis
    using assms(1) by simp
qed

lemma nwritev_sim:
  assumes "list_all progress as" and "concat iov = drop tot buf" and "iov = [] \<longleftrightarrow> length buf \<le> tot"
    and "tot \<le> length buf" and "nwr < 0 \<Longrightarrow> tot < length buf" and "s1\<lparr>diag := []\<rparr> = s2\<lparr>diag := []\<rparr>"
  shows "nwritev_view (nwritev_loop fl iov nb (int tot) 0 s1 as) =
    nwrite_view (nwrite_loop fl buf tot nwr 0 s2 as)"
  using assms
proof (induction as arbitrary: iov tot nb nwr s1 s2)
  case Nil
  then show ?case
    by (auto simp: views)
next
  case (Cons a as)
  show ?case
  proof (cases "tot < length buf")
    case False
    with Cons.prems show ?thesis
      by (auto simp: views)
  next
    case True
    then have iov: "iov \<noteq> []" "concat iov \<noteq> []"
      using Cons.prems(2,3) by auto
    consider "a = Fail EINTR" | e where "a = Fail e" "e \<noteq> EINTR" | k where "a = Accept k"
      by (cases a) auto
    then show ?thesis
    proof cases
      case 1
      let ?t1 = "eintr_diag fl ''writev'' (s1\<lparr>errno := EINTR\<rparr>)"
      let ?t2 = "eintr_diag fl ''writev'' (s2\<lparr>errno := EINTR\<rparr>)"
      have "?t1\<lparr>diag := []\<rparr> = ?t2\<lparr>diag := []\<rparr>"
        using Cons.prems(6) by (cases s1; cases s2) (simp add: eintr_diag_def c_perror_def)
      then have "nwritev_view (nwritev_loop fl (iov_advance iov 0) 0 (int tot) 0 ?t1 as) =
          nwrite_view (nwrite_loop fl buf tot (-1) 0 ?t2 as)"
        using Cons.prems(1,4) True iov_advance_at[OF Cons.prems(2), of 0] by (intro Cons.IH) auto
      then show ?thesis
        using True iov 1 by simp
    next
      case 2
      have "(s1\<lparr>errno := e\<rparr>)\<lparr>diag := []\<rparr> = (s2\<lparr>errno := e\<rparr>)\<lparr>diag := []\<rparr>"
        using Cons.prems(6) by (cases s1; cases s2) simp
      then show ?thesis
        using 2 True iov Cons.prems(1) by (auto simp: views)
    next
      case 3
      define m where "m = min k (length buf - tot)"
      have k: "0 < k" and m: "0 < m" "tot + m \<le> length buf"
        using 3 Cons.prems(1) True by (auto simp: m_def)
      let ?t1 = "s1\<lparr>sink := sink s1 @ take m (drop tot buf)\<rparr>"
      let ?t2 = "s2\<lparr>sink := sink s2 @ take m (drop tot buf)\<rparr>"
      have "?t1\<lparr>diag := []\<rparr> = ?t2\<lparr>diag := []\<rparr>"
        using Cons.prems(6) by (cases s1; cases s2) simp
      then have "nwritev_view (nwritev_loop fl (iov_advance iov m) (int m) (int (tot + m)) 0 ?t1 as) =
          nwrite_view (nwrite_loop fl buf (tot + m) (int m) 0 ?t2 as)"
        using Cons.prems(1) m iov_advance_at[OF Cons.prems(2) m(2)] by (intro Cons.IH) auto
      then show ?thesis
        unfolding 3 nwritev_accept[OF iov(1) Cons.prems(2) m_def m(1)]
        using nwrite_accept[OF True k] by (simp add: m_def)
    qed
  qed
qed

section \<open>Reading\<close>

lemma nread_accept:
  assumes "length got < count"
  shows "nread_loop fl count got err s (Accept k # as) =
    (let r = take (min k (count - length got)) (source s); s2 = s\<lparr>source := drop (length r) (source s)\<rparr> in
     if r = [] then Some (s2, got, as) else nread_loop fl count (got @ r) err s2 as)"
proof -
  define r where "r = take (min k (count - length got)) (source s)"
  have "sys_read s (count - length got) (Accept k) =
      (s\<lparr>source := drop (length r) (source s)\<rparr>, int (length r), r)"
    by (simp only: sys_read.simps r_def Let_def)
  with assms show ?thesis
    unfolding r_def[symmetric] by (simp add: Let_def del: sys_read.simps)
qed

lemma nread_accept_r:
  assumes "length got < count" and "r = take (min k (count - length got)) (source s)"
  shows "nread_loop fl count got err s (Accept k # as) =
    (if r = [] then Some (s\<lparr>source := drop (length r) (source s)\<rparr>, got, as)
     else nread_loop fl count (got @ r) err (s\<lparr>source := drop (length r) (source s)\<rparr>) as)"
  unfolding nread_accept[OF assms(1)] assms(2)[symmetric] by (simp only: Let_def)

lemma nread_loop_prefix:
  assumes "nread_loop fl count got err s as = Some (s', got', rest)" and "length got \<le> count"
  shows "\<exists>n. n \<le> length (source s) \<and> n \<le> count - length got \<and> got' = got @ take n (source s) \<and>
    source s' = drop n (source s) \<and> sink s' = sink s \<and> content s' = content s"
  using assms
proof (induction as arbitrary: got err s)
  case Nil
  then show ?case
    by (intro exI[of _ 0]) (auto split: if_splits)
next
  case (Cons a as)
  show ?case
  proof (cases "length got < count")
    case False
    with Cons.prems show ?thesis
      by (intro exI[of _ 0]) auto
  next
    case True
    show ?thesis
    proof (cases a)
      case (Fail e)
      then show ?thesis
        using Cons.prems True Cons.IH[of got 0 "eintr_diag fl ''writev'' (s\<lparr>errno := EINTR\<rparr>)"]
        by (cases "e = EINTR") (auto simp: Let_def intro!: exI[of _ 0])
    next
      case (Accept k)
      define r where "r = take (min k (count - length got)) (source s)"
      show ?thesis
      proof (cases "r = []")
        case True
        then show ?thesis
          using Cons.prems nread_accept[OF \<open>length got < count\<close>, of fl err s k as] Accept
          by (intro exI[of _ 0]) (simp add: r_def[symmetric] Let_def)
      next
        case False
        have "nread_loop fl count (got @ r) err (s\<lparr>source := drop (length r) (source s)\<rparr>) as = Some (s', got', rest)"
          using Cons.prems nread_accept[OF True, of fl err s k as] Accept False
          by (simp add: r_def[symmetric] Let_def)
        moreover have r: "length r \<le> count - length got" "r = take (length r) (source s)" "length r \<le> length (source s)"
          by (auto simp: r_def min_def)
        ultimately obtain n where n: "n \<le> length (source s) - length r" "n \<le> count - length got - length r"
            "got' = got @ r @ take n (drop (length r) (source s))"
            "source s' = drop n (drop (length r) (source s))" "sink s' = sink s" "content s' = content s"
          using Cons.IH[of "got @ r" err "s\<lparr>source := drop (length r) (source s)\<rparr>"] Cons.prems(2) True
          by (auto simp: le_diff_conv2)
        have "r @ take n (drop (length r) (source s)) = take (length r + n) (source s)"
          using r(2) by (metis take_add)
        with n r show ?thesis
          by (intro exI[of _ "length r + n"]) (auto simp: add.commute)
      qed
    qed
  qed
qed

text \<open>One answer that delivers the bytes \<open>r\<close>: what is enough before is enough after it.\<close>

lemma nread_enough:
  assumes "r = take (min k (count - length got)) (source s)" "r \<noteq> []" "length got \<le> count"
    and "count - length got \<le> Suc n \<or> length (source s) < Suc n"
  defines "s2 \<equiv> s\<lparr>source := drop (length r) (source s)\<rparr>"
  shows "length (got @ r) \<le> count" and "count - length (got @ r) \<le> n \<or> length (source s2) < n"
    and "(got @ r) @ take (count - length (got @ r)) (source s2) = got @ take (count - length got) (source s)"
    and "n \<le> n' + min (count - length (got @ r)) (length (source s2)) + 1 \<Longrightarrow>
      Suc n \<le> n' + min (count - length got) (length (source s)) + 1"
proof -
  have r: "length r \<le> count - length got" "length r \<le> length (source s)" "0 < length r"
      "r = take (length r) (source s)"
    using assms(1,2) by (auto simp: min_def)
  have "r @ take (count - length got - length r) (drop (length r) (source s)) = take (count - length got) (source s)"
    using r by (metis le_add_diff_inverse take_add)
  then show "(got @ r) @ take (count - length (got @ r)) (source s2) = got @ take (count - length got) (source s)"
    by (simp add: s2_def)
  show "length (got @ r) \<le> count" "count - length (got @ r) \<le> n \<or> length (source s2) < n"
      "n \<le> n' + min (count - length (got @ r)) (length (source s2)) + 1 \<Longrightarrow>
        Suc n \<le> n' + min (count - length got) (length (source s)) + 1"
    using assms(3,4) r(1-3) by (simp_all add: s2_def, linarith+)
qed

lemma nread_loop_clean:
  assumes "list_all clean_answer as" and "errno s = 0" and "length got \<le> count"
    and "count - length got \<le> accepts as \<or> length (source s) < accepts as"
  shows "\<exists>s' rest. nread_loop fl count got 0 s as = Some (s', got @ take (count - length got) (source s), rest) \<and>
    errno s' = 0 \<and> list_all clean_answer rest \<and>
    accepts as \<le> accepts rest + min (count - length got) (length (source s)) + 1"
  using assms
proof (induction as arbitrary: got s)
  case Nil
  then show ?case
    by auto
next
  case (Cons a as)
  consider "\<not> length got < count" | e where "length got < count" "a = Fail e"
    | k where "length got < count" "a = Accept k"
    by (cases a) auto
  then show ?case
  proof cases
    case 1
    with Cons.prems show ?thesis
      by (intro exI[of _ s] exI[of _ "a # as"]) auto
  next
    case 2
    then show ?thesis
      using Cons.prems Cons.IH[of "eintr_diag fl ''writev'' (s\<lparr>errno := EINTR\<rparr>)" got] by simp
  next
    case 3
    define r where "r = take (min k (count - length got)) (source s)"
    define s2 where "s2 = s\<lparr>source := drop (length r) (source s)\<rparr>"
    have step: "nread_loop fl count got 0 s (a # as) =
        (if r = [] then Some (s2, got, as) else nread_loop fl count (got @ r) 0 s2 as)"
      unfolding 3(2) s2_def by (rule nread_accept_r[OF 3(1) r_def])
    show ?thesis
    proof (cases "r = []")
      case True
      then have "source s = []"
        using 3 Cons.prems(1) by (auto simp: r_def min_def split: if_splits)
      with True step Cons.prems 3(2) show ?thesis
        by (intro exI[of _ s2] exI[of _ as]) (simp add: s2_def)
    next
      case False
      have "count - length got \<le> Suc (accepts as) \<or> length (source s) < Suc (accepts as)"
        using Cons.prems(4) 3(2) by simp
      note E = nread_enough[OF r_def False Cons.prems(3) this, folded s2_def]
      obtain s' rest where "nread_loop fl count (got @ r) 0 s2 as =
          Some (s', (got @ r) @ take (count - length (got @ r)) (source s2), rest)"
          "errno s' = 0" "list_all clean_answer rest"
          "accepts as \<le> accepts rest + min (count - length (got @ r)) (length (source s2)) + 1"
        using Cons.IH[of s2 "got @ r"] Cons.prems(1,2) E(1,2) by (auto simp: s2_def)
      then show ?thesis
        using step False E(3) E(4)[of "accepts rest"] 3(2) by (intro exI[of _ s'] exI[of _ rest]) simp
    qed
  qed
qed

lemma npread_sim:
  assumes "0 \<le> off" and "nread_loop fl count got err (s\<lparr>source := drop (nat off) (content s)\<rparr>) as = res"
  shows "npread_loop fl count off got err s as =
    map_option (\<lambda>(s', got, rest). (s'\<lparr>source := source s\<rparr>, got, rest)) res"
  using assms
proof (induction as arbitrary: off got err s res)
  case Nil
  then show ?case
    by (auto simp: set_errno_def)
next
  case (Cons a as)
  show ?case
  proof (cases "length got < count")
    case False
    with Cons.prems show ?thesis
      by (auto simp: set_errno_def)
  next
    case True
    show ?thesis
    proof (cases a)
      case (Fail e)
      show ?thesis
      proof (cases "e = EINTR")
        case eintr: True
        have "(eintr_diag fl ''writev'' (s\<lparr>errno := EINTR\<rparr>))\<lparr>source := x\<rparr> =
            eintr_diag fl ''writev'' (s\<lparr>source := x, errno := EINTR\<rparr>)" for x
          by (simp add: eintr_diag_def c_perror_def)
        then show ?thesis
          using Cons.prems True Fail eintr
            Cons.IH[of off got 0 "eintr_diag fl ''writev'' (s\<lparr>errno := EINTR\<rparr>)" res]
          by (simp add: fun_upd_def)
      next
        case False
        then show ?thesis
          using Cons.prems True Fail by (auto simp: Let_def set_errno_def c_perror_def)
      qed
    next
      case (Accept k)
      define r where "r = take (min k (count - length got)) (drop (nat off) (content s))"
      have "nread_loop fl count got err (s\<lparr>source := drop (nat off) (content s)\<rparr>) (a # as) =
          (if r = [] then Some (s\<lparr>source := drop (nat off) (content s)\<rparr>, got, as)
           else nread_loop fl count (got @ r) err (s\<lparr>source := drop (nat (off + int (length r))) (content s)\<rparr>) as)"
        using nread_accept_r[OF True, of r k "s\<lparr>source := drop (nat off) (content s)\<rparr>" fl err as] Cons.prems(1)
        by (simp add: Accept r_def[symmetric] nat_add_distrib add.commute del: nread_loop.simps)
      moreover have "npread_loop fl count off got err s (a # as) =
          (if r = [] then Some (s, got, as) else npread_loop fl count (off + int (length r)) (got @ r) err s as)"
      proof -
        have "sys_pread s (count - length got) off (Accept k) = (s, int (length r), r)"
          using Cons.prems(1) by (simp add: r_def Let_def)
        then show ?thesis
          using True Accept by (simp del: sys_pread.simps)
      qed
      ultimately show ?thesis
        using Cons.prems Cons.IH[of "off + int (length r)" "got @ r" err s res]
        by (cases "r = []") (auto simp del: nread_loop.simps npread_loop.simps)
    qed
  qed
qed

section \<open>The two readers as one interface\<close>

text \<open>
  What \<open>transfer\<close> needs of a reader: it delivers a prefix of what is available, all of it up to
  the count when the answers are clean, and does not touch the output.
\<close>

locale reader =
  fixes rd :: "nat \<Rightarrow> io \<Rightarrow> answer list \<Rightarrow> (io \<times> u8 list \<times> answer list) option"
    and available :: "io \<Rightarrow> u8 list"
  assumes rd_prefix: "rd n s as = Some (s', got, rest) \<Longrightarrow>
      sink s' = sink s \<and> content s' = content s \<and> got = take (length got) (available s) \<and> length got \<le> n"
    and rd_clean: "list_all clean_answer as \<Longrightarrow> errno s = 0 \<Longrightarrow>
      n \<le> accepts as \<or> length (available s) < accepts as \<Longrightarrow>
      \<exists>s' rest. rd n s as = Some (s', take n (available s), rest) \<and> errno s' = 0 \<and>
        list_all clean_answer rest \<and> accepts as \<le> accepts rest + min n (length (available s)) + 1"
begin

lemma copy_clean:
  assumes "list_all clean_answer as" and "errno s = 0" and "2 * n + 1 \<le> accepts as"
  shows "\<exists>s' rest s'' rest'. rd n s as = Some (s', take n (available s), rest) \<and> errno s' = 0 \<and>
    nwrite fl (take n (available s)) s' rest = Some (s'', int (min n (length (available s))), rest') \<and>
    sink s'' = sink s @ take n (available s) \<and> errno s'' = 0"
proof -
  let ?got = "take n (available s)"
  obtain s' rest where rd: "rd n s as = Some (s', ?got, rest)" "errno s' = 0" "list_all clean_answer rest"
      "accepts as \<le> accepts rest + min n (length (available s)) + 1"
    using rd_clean[OF assms(1,2), of n] assms(3) by auto
  have "length ?got - 0 \<le> accepts rest"
    using rd(4) assms(3) by simp
  then obtain s'' rest' where wr: "nwrite fl ?got s' rest = Some (s'', int (length ?got), rest')"
      "s''\<lparr>diag := []\<rparr> = s'\<lparr>sink := sink s' @ ?got, diag := []\<rparr>"
    using nwrite_loop_clean[OF rd(3), of ?got 0 0 s' fl] rd(2) by (auto simp: nwrite_def)
  have "sink s'' = sink s' @ ?got" "errno s'' = errno s'"
    using arg_cong[OF wr(2), of sink] arg_cong[OF wr(2), of errno] by simp_all
  then show ?thesis
    using rd wr(1) rd_prefix[OF rd(1)]
    by (intro exI[of _ s'] exI[of _ rest] exI[of _ s''] exI[of _ rest']) (simp add: min.commute)
qed

end

interpretation stream: reader "\<lambda>n s as. nread fl n s as" source for fl
proof
  fix n as got rest and s s' :: io
  assume "nread fl n s as = Some (s', got, rest)"
  then show "sink s' = sink s \<and> content s' = content s \<and> got = take (length got) (source s) \<and> length got \<le> n"
    using nread_loop_prefix[of fl n "[]" 0 s as s' got rest] by (auto simp: nread_def min_def)
next
  fix n and s :: io and as :: "answer list"
  assume "list_all clean_answer as" and "errno s = 0" and "n \<le> accepts as \<or> length (source s) < accepts as"
  then show "\<exists>s' rest. nread fl n s as = Some (s', take n (source s), rest) \<and> errno s' = 0 \<and>
      list_all clean_answer rest \<and> accepts as \<le> accepts rest + min n (length (source s)) + 1"
    using nread_loop_clean[of as s "[]" n fl] by (auto simp: nread_def)
qed

interpretation positional: reader "\<lambda>n s as. npread fl n (int off) s as" "\<lambda>s. drop off (content s)" for fl off
proof
  fix n as got rest and s s' :: io
  assume "npread fl n (int off) s as = Some (s', got, rest)"
  then obtain s1 where "nread fl n (s\<lparr>source := drop off (content s)\<rparr>) as = Some (s1, got, rest)"
      "s' = s1\<lparr>source := source s\<rparr>"
    using npread_sim[of "int off" fl n "[]" 0 s as] by (auto simp: npread_def nread_def)
  then show "sink s' = sink s \<and> content s' = content s \<and> got = take (length got) (drop off (content s)) \<and> length got \<le> n"
    using stream.rd_prefix by fastforce
next
  fix n and s :: io and as :: "answer list"
  let ?s = "s\<lparr>source := drop off (content s)\<rparr>"
  assume "list_all clean_answer as" and "errno s = 0" and "n \<le> accepts as \<or> length (drop off (content s)) < accepts as"
  then obtain s' rest where "nread fl n ?s as = Some (s', take n (drop off (content s)), rest)" "errno s' = 0"
      "list_all clean_answer rest" "accepts as \<le> accepts rest + min n (length (drop off (content s))) + 1"
    using stream.rd_clean[of as ?s n fl] by auto
  then show "\<exists>s' rest. npread fl n (int off) s as = Some (s', take n (drop off (content s)), rest) \<and> errno s' = 0 \<and>
      list_all clean_answer rest \<and> accepts as \<le> accepts rest + min n (length (drop off (content s))) + 1"
    using npread_sim[of "int off" fl n "[]" 0 s as] by (auto simp: npread_def nread_def)
qed

definition chunk :: "nat \<Rightarrow> nat" where
  "chunk count = (if count = 0 \<or> TRFBUF_LIMIT < count then TRFBUF_LIMIT else count)"

definition input_data :: "int option \<Rightarrow> nat \<Rightarrow> io \<Rightarrow> u8 list" where
  "input_data offset count s =
     take (chunk count) (case offset of None \<Rightarrow> source s | Some p \<Rightarrow> drop (nat p) (content s))"

lemma transfer_step:
  assumes "fl AND FDIO_SENDFILE = 0"
    and "(case offset of Some p \<Rightarrow> npread fl (chunk count) p s as | None \<Rightarrow> nread fl (chunk count) s as) =
      Some (s1, got, rest)"
  shows "transfer fl offset count s as =
    (if got = [] \<or> errno s1 \<noteq> 0 then Inr (Some (set_errno (errno s1) s1, offset, 0, rest))
     else (case nwrite fl got s1 rest of
         None \<Rightarrow> Inr None
       | Some (s, nwr, as) \<Rightarrow>
           if nwr = int (length got) then Inr (Some (s, map_option (\<lambda>p. p + nwr) offset, nwr, as))
           else if nwr < int (length got) then
             Inr (Some (c_perror ''underwrite'' s, map_option (\<lambda>p. p + nwr) offset, nwr, as))
           else Inl Aborted))"
  using assms by (simp add: transfer_def chunk_def[symmetric] Let_def)

lemma transfer_never_aborts:
  "transfer fl offset count s as \<noteq> Inl Aborted"
proof (cases "fl AND FDIO_SENDFILE = 0")
  case True
  show ?thesis
  proof (cases "case offset of Some p \<Rightarrow> npread fl (chunk count) p s as | None \<Rightarrow> nread fl (chunk count) s as")
    case None
    then show ?thesis
      using True by (simp add: transfer_def chunk_def[symmetric] Let_def)
  next
    case (Some t)
    then obtain s1 got rest where t: "(case offset of Some p \<Rightarrow> npread fl (chunk count) p s as
        | None \<Rightarrow> nread fl (chunk count) s as) = Some (s1, got, rest)"
      by (cases t) auto
    have "nwr \<le> int (length got)" if "nwrite fl got s1 rest = Some (s2, nwr, rest2)" for s2 nwr rest2
      using nwrite_loop_prefix[of fl got 0 0 0 s1 rest s2 nwr rest2] that by (auto simp: nwrite_def)
    then show ?thesis
      using transfer_step[OF True t] by (auto split: option.splits prod.splits)
  qed
qed (simp add: transfer_def)

section \<open>Properties\<close>

text \<open>
  C9: \<open>nwrite\<close> delivers: when the calls fail with interruptions only and enough of them make
  progress, it returns the full count, and the output has received the buffer once, in order.
\<close>
theorem nwrite_delivers:
  assumes "list_all clean_answer as" and "length buf \<le> accepts as" and "errno s = 0"
  shows "\<exists>s' rest. nwrite fl buf s as = Some (s', int (length buf), rest) \<and>
    s'\<lparr>diag := []\<rparr> = s\<lparr>sink := sink s @ buf, diag := []\<rparr>"
  using nwrite_loop_clean[OF assms(1), of buf 0 0 s fl] assms(2,3) by (simp add: nwrite_def)

definition io0 :: io where
  "io0 = \<lparr>errno = 0, diag = [], sink = [], source = [5, 6, 7, 8], content = [1, 2, 3, 4, 5]\<rparr>"

theorem nwrite_delivers_witness:
  "\<exists>s' rest. nwrite 0 [1, 2, 3] io0 [Accept 1, Fail EINTR, Accept 1, Accept 9] = Some (s', 3, rest) \<and>
    s'\<lparr>diag := []\<rparr> = io0\<lparr>sink := [1, 2, 3], diag := []\<rparr>"
  using nwrite_delivers[of "[Accept 1, Fail EINTR, Accept 1, Accept 9]" "[1, 2, 3]" io0 0]
  by (simp add: io0_def)

text \<open>
  C40: when a call fails for good in the middle of the buffer, \<open>nwrite\<close> returns -1 with that error;
  the bytes already written stay written, and their number is lost to the caller.
\<close>
theorem nwrite_fails:
  assumes "list_all clean_answer as" and "accepted as < length buf" and "errno s = 0"
    and "e \<noteq> EINTR" and "0 < e"
  shows "\<exists>s'. nwrite fl buf s (as @ Fail e # rest) = Some (s', -1, rest) \<and> errno s' = e \<and>
    sink s' = sink s @ take (accepted as) buf"
proof -
  obtain s1 nwr1 where s1: "nwrite_loop fl buf 0 0 0 s (as @ Fail e # rest) =
      nwrite_loop fl buf (accepted as) nwr1 0 s1 (Fail e # rest)"
      "s1\<lparr>diag := []\<rparr> = s\<lparr>sink := sink s @ take (accepted as) buf, diag := []\<rparr>"
    using nwrite_loop_skip[OF assms(1), of 0 buf s fl 0 "Fail e # rest"] assms(2,3) by auto
  have "sink s1 = sink s @ take (accepted as) buf"
    using arg_cong[OF s1(2), of sink] by simp
  then show ?thesis
    using s1(1) assms(2,4,5) by (simp add: nwrite_def Let_def)
qed

theorem nwrite_fails_witness:
  "\<exists>s'. nwrite 0 [1, 2, 3] io0 [Accept 2, Fail 11] = Some (s', -1, []) \<and> errno s' = 11 \<and> sink s' = [1, 2]"
  using nwrite_fails[of "[Accept 2]" "[1, 2, 3]" io0 11 0 "[]"] by (simp add: io0_def)

text \<open>
  C24: \<open>nwritev\<close> of a vector is \<open>nwrite\<close> of its concatenation, answer for answer: the same bytes
  go out, the same value is returned, errno and the unused answers are the same.
\<close>
theorem nwritev_eq_nwrite:
  assumes "list_all progress as" and "concat iov \<noteq> []"
  shows "map_option nwritev_view (case nwritev fl iov s as of Inr r \<Rightarrow> Some r | Inl e \<Rightarrow> None) =
    Some (nwrite_view (nwrite fl (concat iov) s as))"
proof -
  have "iov \<noteq> []"
    using assms(2) by auto
  then show ?thesis
    using nwritev_sim[OF assms(1), of iov 0 "concat iov" 0 s s fl 0] assms(2)
    by (simp add: nwritev_def nwrite_def)
qed

theorem nwritev_eq_nwrite_witness:
  "map_option nwritev_view (case nwritev 0 [[1], [], [2, 3]] io0 [Accept 1, Fail EINTR, Accept 2] of
     Inr r \<Rightarrow> Some r | Inl e \<Rightarrow> None) =
   Some (nwrite_view (nwrite 0 [1, 2, 3] io0 [Accept 1, Fail EINTR, Accept 2]))"
  using nwritev_eq_nwrite[of "[Accept 1, Fail EINTR, Accept 2]" "[[1], [], [2, 3]]" 0 io0] by simp

text \<open>
  C29: \<open>transfer\<close> copies one buffer's worth of the input, from the stream or from the file at the
  offset, to the output, returns the number of bytes and advances the offset by it, when the
  calls fail with interruptions only and errno is clear at the start.
\<close>
theorem transfer_copies:
  assumes "fl AND FDIO_SENDFILE = 0" and "list_all clean_answer as" and "errno s = 0"
    and "2 * chunk count + 1 \<le> accepts as" and "case offset of None \<Rightarrow> True | Some p \<Rightarrow> 0 \<le> p"
  shows "\<exists>s' rest. transfer fl offset count s as =
      Inr (Some (s', map_option (\<lambda>p. p + int (length (input_data offset count s))) offset,
        int (length (input_data offset count s)), rest)) \<and>
    sink s' = sink s @ input_data offset count s \<and> errno s' = 0"
proof -
  let ?data = "input_data offset count s"
  have "\<exists>s1 rest s2 rest2. (case offset of Some p \<Rightarrow> npread fl (chunk count) p s as
      | None \<Rightarrow> nread fl (chunk count) s as) = Some (s1, ?data, rest) \<and> errno s1 = 0 \<and> sink s1 = sink s \<and>
    nwrite fl ?data s1 rest = Some (s2, int (length ?data), rest2) \<and> sink s2 = sink s @ ?data \<and> errno s2 = 0"
  proof (cases offset)
    case None
    then show ?thesis
      using stream.copy_clean[OF assms(2-4), of fl fl] stream.rd_prefix
      by (fastforce simp: input_data_def min.commute)
  next
    case (Some q)
    then have q: "int (nat q) = q"
      using assms(5) by simp
    obtain s1 rest s2 rest2 where c: "npread fl (chunk count) (int (nat q)) s as = Some (s1, take (chunk count) (drop (nat q) (content s)), rest)"
        "errno s1 = 0" "nwrite fl (take (chunk count) (drop (nat q) (content s))) s1 rest =
          Some (s2, int (min (chunk count) (length (drop (nat q) (content s)))), rest2)"
        "sink s2 = sink s @ take (chunk count) (drop (nat q) (content s))" "errno s2 = 0"
      using positional.copy_clean[OF assms(2-4)] by blast
    moreover have "sink s1 = sink s"
      using positional.rd_prefix[OF c(1)] by simp
    moreover have "input_data offset count s = take (chunk count) (drop (nat q) (content s))"
      using Some by (simp add: input_data_def)
    ultimately show ?thesis
      using Some q by (intro exI[of _ s1] exI[of _ rest] exI[of _ s2] exI[of _ rest2]) (simp add: min.commute)
  qed
  then obtain s1 rest s2 rest2 where c: "(case offset of Some p \<Rightarrow> npread fl (chunk count) p s as
      | None \<Rightarrow> nread fl (chunk count) s as) = Some (s1, ?data, rest)" "errno s1 = 0" "sink s1 = sink s"
      "nwrite fl ?data s1 rest = Some (s2, int (length ?data), rest2)" "sink s2 = sink s @ ?data" "errno s2 = 0"
    by blast
  show ?thesis
    using transfer_step[OF assms(1) c(1)] c(2-) by (cases "?data = []"; cases offset) auto
qed

theorem transfer_copies_witness:
  "\<exists>s' rest. transfer 0 (Some 2) 2 io0 [Accept 1, Accept 1, Fail EINTR, Accept 1, Accept 1, Accept 1] =
      Inr (Some (s', Some 4, 2, rest)) \<and> sink s' = [3, 4] \<and> errno s' = 0"
  using transfer_copies[of 0 "[Accept 1, Accept 1, Fail EINTR, Accept 1, Accept 1, Accept 1]" io0 2 "Some 2"]
  by (simp add: io0_def input_data_def chunk_def TRFBUF_LIMIT_def)

text \<open>
  After a failed write \<open>transfer\<close> adds the -1 it got to the caller's offset, so that the
  next call starts one byte too early.
\<close>
theorem transfer_moves_offset_back:
  assumes "fl AND FDIO_SENDFILE = 0" and "npread fl (chunk count) p s as = Some (s1, got, Fail e # rest)"
    and "got \<noteq> []" and "errno s1 = 0" and "e \<noteq> EINTR" and "0 < e"
  shows "\<exists>s'. transfer fl (Some p) count s as = Inr (Some (s', Some (p - 1), -1, rest)) \<and> errno s' = e"
proof -
  have "\<exists>s2. nwrite fl got s1 (Fail e # rest) = Some (s2, -1, rest) \<and> errno s2 = e"
    using nwrite_loop_skip[of "[]" 0 got s1 fl 0 "Fail e # rest"] assms(3-)
    by (auto simp: nwrite_def Let_def)
  then show ?thesis
    using transfer_step[OF assms(1), where count = count and offset = "Some p" and s = s and as = as] assms(2-4) by auto
qed

theorem transfer_moves_offset_back_witness:
  "\<exists>s'. transfer 0 (Some 2) 2 io0 [Accept 2, Fail 11] = Inr (Some (s', Some 1, -1, [])) \<and> errno s' = 11"
  using transfer_moves_offset_back[of 0 2 2 io0 "[Accept 2, Fail 11]" io0 "[3, 4]" 11 "[]"]
  by (simp add: io0_def npread_def chunk_def TRFBUF_LIMIT_def Let_def)

text \<open>
  An errno left over from before the call makes \<open>transfer\<close> throw away what it has read: the
  input is consumed, nothing is written, 0 is returned.
\<close>
theorem transfer_drops_on_stale_errno:
  assumes "fl AND FDIO_SENDFILE = 0" and "nread fl (chunk count) s as = Some (s1, got, rest)"
    and "errno s1 \<noteq> 0"
  shows "\<exists>s'. transfer fl None count s as = Inr (Some (s', None, 0, rest)) \<and> sink s' = sink s \<and>
    source s' = drop (length got) (source s)"
proof -
  have "\<exists>n. n \<le> length (source s) \<and> got = take n (source s) \<and> source s1 = drop n (source s) \<and> sink s1 = sink s"
    using nread_loop_prefix[of fl "chunk count" "[]" 0 s as s1 got rest] assms(2) by (auto simp: nread_def)
  then show ?thesis
    using transfer_step[OF assms(1), where count = count and offset = None and s = s and as = as] assms(2,3) by (auto simp: min_def)
qed

theorem transfer_drops_on_stale_errno_witness:
  "\<exists>s'. transfer 0 None 2 (io0\<lparr>errno := 25\<rparr>) [Accept 2] = Inr (Some (s', None, 0, [])) \<and> sink s' = [] \<and>
    source s' = [7, 8]"
  using transfer_drops_on_stale_errno[of 0 2 "io0\<lparr>errno := 25\<rparr>" "[Accept 2]"
      "io0\<lparr>errno := 25, source := [7, 8]\<rparr>" "[5, 6]" "[]"]
  by (simp add: io0_def nread_def chunk_def TRFBUF_LIMIT_def Let_def)

abbreviation "bsd_ok n \<equiv> \<lparr>ba_fail = False, ba_errno = 0, ba_sbytes = n\<rparr>"

text \<open>
  \<open>bsd_nsendfile\<close> of a transfer that takes two calls returns the count of the second
  alone and adds it to the caller's offset twice.
\<close>
theorem bsd_nsendfile_miscounts:
  assumes "0 < a" and "0 < b" and "0 \<le> p"
  shows "bsd_nsendfile fl (Some p) (a + b) cur seek s [bsd_ok (int a), bsd_ok (int b)] =
    Some (s, Some (p + int a + int b + int b), int b)"
  using assms by (simp add: bsd_nsendfile_def Let_def)

theorem bsd_nsendfile_miscounts_witness:
  "bsd_nsendfile 0 (Some 100) 30 0 id io0 [bsd_ok 10, bsd_ok 20] = Some (io0, Some 150, 20)"
  using bsd_nsendfile_miscounts[of 10 20 100 0 0 id io0] by simp

text \<open>
  At the end of the input, where \<open>sendfile\<close> succeeds with zero bytes, \<open>bsd_nsendfile\<close> never
  returns: no number of such answers completes it.
\<close>
theorem bsd_nsendfile_hangs:
  "bsd_nsendfile fl (Some (int p)) (Suc c) cur seek s (replicate n (bsd_ok 0)) = None"
proof -
  have "bsd_loop fl (Suc c) off 0 sb err s (replicate n (bsd_ok 0)) = None" for off sb err
    by (induction n arbitrary: sb) simp_all
  then show ?thesis
    by (simp add: bsd_nsendfile_def)
qed

end
