(* ===== verification/DebugSync.thy ===== *)
theory DebugSync
  imports Prelude
begin

unbundle bit_operations_syntax

text \<open>
  \<open>debugsync/debugsync.c\<close>: the debug synchronization facility.  The first half models the
  operations as they run under the module's mutex; an operation ends by returning or by
  sleeping on the condition variable.  The second half models the threads: every critical
  section is one step, a sleeping thread is woken by a broadcast or spuriously and resumes
  once it has the mutex again.  The mutex, broadcast and wait primitives are taken to succeed
  on the initialised objects; \<open>strndup\<close> may fail.
\<close>

section \<open>State\<close>

definition DS_MAX_POINT_NAME_LEN :: nat where "DS_MAX_POINT_NAME_LEN = 32"
definition DS_MAX_POINT_COUNT :: nat where "DS_MAX_POINT_COUNT = 256"
definition DS_ACTIVE :: u32 where "DS_ACTIVE = 1"
definition DS_GLOBAL :: u32 where "DS_GLOBAL = 2"

record ds_point =
  pname :: string
  is_enabled :: bool
  in_syncwait :: bool
  nblocked :: nat

text \<open>
  The list \<open>point\<close> holds the first \<open>count\<close> elements of the array. The count \<open>nblocked\<close> of blocked threads
  is not taken to wrap, and a change of \<open>activation\<close> is one step.
\<close>

record ds_global =
  activation :: u32
  point :: "ds_point list"

definition upd :: "nat \<Rightarrow> (ds_point \<Rightarrow> ds_point) \<Rightarrow> ds_global \<Rightarrow> ds_global" where
  "upd i f g = g\<lparr>point := (point g)[i := f (point g ! i)]\<rparr>"

definition inactive :: "ds_global \<Rightarrow> bool" where
  "inactive g \<longleftrightarrow> activation g AND DS_ACTIVE = 0"

definition local_inactive :: "ds_global \<Rightarrow> bool" where
  "local_inactive g \<longleftrightarrow> activation g AND (DS_ACTIVE OR DS_GLOBAL) = 0"

definition do_activate :: "bool \<Rightarrow> ds_global \<Rightarrow> ds_global" where
  "do_activate activate g =
     (if activate then g\<lparr>activation := activation g OR DS_ACTIVE\<rparr>
      else g\<lparr>activation := activation g AND NOT DS_ACTIVE\<rparr>)"

definition ds_init :: "u32 \<Rightarrow> ds_global" where
  "ds_init activation_flags = \<lparr>activation = activation_flags, point = []\<rparr>"

text \<open>
  \<open>ds_destroy\<close> releases the names of the points; \<open>alive\<close> says of each whether it is still
  allocated.  The points and their count stay as they are.
\<close>

fun free_names :: "bool list \<Rightarrow> bool list cresult" where
  "free_names [] = Inr []"
| "free_names (a # as) = (if a then cbind (free_names as) (\<lambda>as. Inr (False # as)) else Inl BadPointer)"

definition ds_destroy :: "bool list \<Rightarrow> ds_global \<Rightarrow> bool list cresult" where
  "ds_destroy alive g = free_names (take (length (point g)) alive)"

section \<open>The table of points\<close>

text \<open>\<open>disable_all\<close>: the new state and whether it broadcasts.\<close>

definition disable_all :: "ds_global \<Rightarrow> ds_global \<times> bool" where
  "disable_all g =
     (g\<lparr>point := map (\<lambda>p. p\<lparr>is_enabled := False\<rparr>) (point g)\<rparr>,
      list_ex (\<lambda>p. is_enabled p \<and> 0 < nblocked p) (point g))"

text \<open>\<open>create_new\<close>; \<open>mem\<close> says whether \<open>strndup\<close> succeeds.\<close>

definition create_new :: "bool \<Rightarrow> string \<Rightarrow> ds_global \<Rightarrow> ds_global \<times> nat option" where
  "create_new mem point_name g =
     (if DS_MAX_POINT_COUNT \<le> length (point g) then (g, None)
      else if \<not> mem then (g, None)
      else (g\<lparr>point := point g @ [\<lparr>pname = take DS_MAX_POINT_NAME_LEN point_name,
               is_enabled = True, in_syncwait = False, nblocked = 0\<rparr>]\<rparr>,
            Some (length (point g))))"

fun look_up_from :: "string \<Rightarrow> ds_point list \<Rightarrow> nat \<Rightarrow> nat option" where
  "look_up_from point_name [] i = None"
| "look_up_from point_name (p # ps) i =
     (if point_name = pname p then Some i else look_up_from point_name ps (i + 1))"

definition look_up :: "string \<Rightarrow> ds_global \<Rightarrow> nat option" where
  "look_up point_name g = look_up_from point_name (point g) 0"

definition acquire :: "bool \<Rightarrow> string \<Rightarrow> ds_global \<Rightarrow> ds_global \<times> nat option" where
  "acquire mem point_name g =
     (case look_up point_name g of Some i \<Rightarrow> (g, Some i) | None \<Rightarrow> create_new mem point_name g)"

section \<open>The operations under the mutex\<close>

datatype outcome = Returns int | Sleeps nat

text \<open>An operation gives the new state, whether it broadcast, and how it ended.\<close>

type_synonym action = "ds_global \<times> bool \<times> outcome"

definition ds_disable_all :: "ds_global \<Rightarrow> action" where
  "ds_disable_all g =
     (if inactive g then (g, False, Returns 0)
      else (case disable_all g of (g, b) \<Rightarrow> (g, b, Returns 0)))"

definition ds_activate :: "bool \<Rightarrow> ds_global \<Rightarrow> action" where
  "ds_activate activate g =
     (case (if inactive g then (g, False) else disable_all g) of (g, b) \<Rightarrow>
      (do_activate activate g, b, Returns 0))"

definition ds_enable :: "string \<Rightarrow> bool \<Rightarrow> ds_global \<Rightarrow> action" where
  "ds_enable point_name enable g =
     (if inactive g then (g, False, Returns (-1))
      else (case look_up point_name g of
          None \<Rightarrow> (g, False, Returns (-1))
        | Some i \<Rightarrow>
            (let g = upd i (\<lambda>p. p\<lparr>is_enabled := enable\<rparr>) g in
             (g, \<not> enable \<and> 0 < nblocked (point g ! i), Returns 0))))"

text \<open>The wait loop of \<open>ds_exec\<close> and what follows it, from the loop test on.\<close>

definition ds_exec_loop :: "nat \<Rightarrow> ds_global \<Rightarrow> ds_global \<times> outcome" where
  "ds_exec_loop i g =
     (if in_syncwait (point g ! i) \<and> is_enabled (point g ! i) then (g, Sleeps i)
      else
        (let g = upd i (\<lambda>p. p\<lparr>in_syncwait := False\<rparr>) g in
         (g, Returns (if \<not> is_enabled (point g ! i) then -1 else 0))))"

definition ds_exec :: "bool \<Rightarrow> string \<Rightarrow> ds_global \<Rightarrow> action" where
  "ds_exec mem point_name g =
     (if inactive g then (g, False, Returns (-1))
      else (case acquire mem point_name g of
          (g, None) \<Rightarrow> (g, False, Returns (-1))
        | (g, Some i) \<Rightarrow>
            if is_enabled (point g ! i) \<and> in_syncwait (point g ! i) then (g, False, Returns (-1))
            else if nblocked (point g ! i) = 0 then (g, False, Returns 0)
            else (case ds_exec_loop i (upd i (\<lambda>p. p\<lparr>in_syncwait := True\<rparr>) g) of
                (g, out) \<Rightarrow> (g, True, out))))"

text \<open>The wait loop of \<open>ds_wait\<close> and what follows it.\<close>

definition ds_wait_loop :: "nat \<Rightarrow> ds_global \<Rightarrow> outcome" where
  "ds_wait_loop i g =
     (if \<not> in_syncwait (point g ! i) \<and> is_enabled (point g ! i) then Sleeps i
      else Returns (if \<not> is_enabled (point g ! i) then -1 else 0))"

definition ds_wait :: "bool \<Rightarrow> string \<Rightarrow> ds_global \<Rightarrow> action" where
  "ds_wait mem point_name g =
     (if inactive g then (g, False, Returns (-1))
      else (case acquire mem point_name g of
          (g, None) \<Rightarrow> (g, False, Returns (-1))
        | (g, Some i) \<Rightarrow>
            (let g = upd i (\<lambda>p. p\<lparr>nblocked := nblocked p + 1\<rparr>) g in
             (g, False, ds_wait_loop i g))))"

definition ds_unblock :: "string \<Rightarrow> ds_global \<Rightarrow> action cresult" where
  "ds_unblock point_name g =
     (if inactive g then Inr (g, False, Returns (-1))
      else (case look_up point_name g of
          None \<Rightarrow> Inr (g, False, Returns (-1))
        | Some i \<Rightarrow>
            cbind (cassert (0 < nblocked (point g ! i))) (\<lambda>_.
            let g = upd i (\<lambda>p. p\<lparr>nblocked := nblocked p - 1\<rparr>) g in
            if nblocked (point g ! i) = 0
            then Inr (upd i (\<lambda>p. p\<lparr>in_syncwait := False\<rparr>) g, True, Returns 0)
            else Inr (g, False, Returns 0))))"

section \<open>Threads\<close>

datatype call =
    CExec string
  | CWait string
  | CUnblock string
  | CEnable string bool
  | CDisableAll
  | CActivate bool

text \<open>
  A thread is outside (with the last return value), has passed the unlocked test at the top of
  a call, or is in the wait loop of \<open>ds_exec\<close> or \<open>ds_wait\<close> at a point, asleep or woken.
\<close>

datatype thread = Outside int | Entered call | ExecAt nat bool | WaitAt nat bool

record sys =
  glob :: ds_global
  thr :: "nat \<Rightarrow> thread"

datatype label = Invoke call | Lock bool | Spurious | Resume

fun woken :: "thread \<Rightarrow> thread" where
  "woken (ExecAt i b) = ExecAt i False"
| "woken (WaitAt i b) = WaitAt i False"
| "woken th = th"

text \<open>The thread map after an operation of thread \<open>t\<close>: the broadcast, then where \<open>t\<close> itself is.\<close>

definition settle :: "(nat \<Rightarrow> thread) \<Rightarrow> nat \<Rightarrow> (nat \<Rightarrow> thread) \<Rightarrow> bool \<Rightarrow> outcome \<Rightarrow> nat \<Rightarrow> thread" where
  "settle T t asleep b out =
     (if b then woken \<circ> T else T)
       (t := (case out of Returns rc \<Rightarrow> Outside rc | Sleeps i \<Rightarrow> asleep i))"

definition after :: "sys \<Rightarrow> nat \<Rightarrow> (nat \<Rightarrow> thread) \<Rightarrow> action \<Rightarrow> sys" where
  "after s t asleep r =
     (case r of (g, b, out) \<Rightarrow> \<lparr>glob = g, thr = settle (thr s) t asleep b out\<rparr>)"

text \<open>The unlocked test that opens each call.\<close>

definition invoke :: "sys \<Rightarrow> nat \<Rightarrow> call \<Rightarrow> sys" where
  "invoke s t c =
     (case c of
        CActivate activate \<Rightarrow>
          if local_inactive (glob s) \<and> activate
          then s\<lparr>glob := do_activate activate (glob s), thr := (thr s)(t := Outside 0)\<rparr>
          else s\<lparr>thr := (thr s)(t := Entered c)\<rparr>
      | _ \<Rightarrow>
          if local_inactive (glob s) then s\<lparr>thr := (thr s)(t := Outside 0)\<rparr>
          else s\<lparr>thr := (thr s)(t := Entered c)\<rparr>)"

definition locked :: "bool \<Rightarrow> sys \<Rightarrow> nat \<Rightarrow> call \<Rightarrow> sys cresult" where
  "locked mem s t c =
     (case c of
        CExec n \<Rightarrow> Inr (after s t (\<lambda>i. ExecAt i True) (ds_exec mem n (glob s)))
      | CWait n \<Rightarrow> Inr (after s t (\<lambda>i. WaitAt i True) (ds_wait mem n (glob s)))
      | CUnblock n \<Rightarrow>
          cbind (ds_unblock n (glob s)) (\<lambda>r. Inr (after s t (\<lambda>_. Outside 0) r))
      | CEnable n b \<Rightarrow> Inr (after s t (\<lambda>_. Outside 0) (ds_enable n b (glob s)))
      | CDisableAll \<Rightarrow> Inr (after s t (\<lambda>_. Outside 0) (ds_disable_all (glob s)))
      | CActivate b \<Rightarrow> Inr (after s t (\<lambda>_. Outside 0) (ds_activate b (glob s))))"

text \<open>One step of thread \<open>t\<close>; \<open>None\<close> when the label does not apply to it.\<close>

fun ds_step :: "sys \<Rightarrow> nat \<Rightarrow> label \<Rightarrow> sys cresult option" where
  "ds_step s t (Invoke c) =
     (case thr s t of Outside _ \<Rightarrow> Some (Inr (invoke s t c)) | _ \<Rightarrow> None)"
| "ds_step s t (Lock mem) =
     (case thr s t of Entered c \<Rightarrow> Some (locked mem s t c) | _ \<Rightarrow> None)"
| "ds_step s t Spurious = Some (Inr (s\<lparr>thr := (thr s)(t := woken (thr s t))\<rparr>))"
| "ds_step s t Resume =
     (case thr s t of
        ExecAt i False \<Rightarrow>
          (case ds_exec_loop i (glob s) of (g, out) \<Rightarrow>
           Some (Inr (after s t (\<lambda>i. ExecAt i True) (g, False, out))))
      | WaitAt i False \<Rightarrow>
          Some (Inr (after s t (\<lambda>i. WaitAt i True) (glob s, False, ds_wait_loop i (glob s))))
      | _ \<Rightarrow> None)"

definition sys_init :: "u32 \<Rightarrow> sys" where
  "sys_init fl = \<lparr>glob = ds_init fl, thr = (\<lambda>_. Outside 0)\<rparr>"

inductive reachable :: "u32 \<Rightarrow> sys \<Rightarrow> bool" for fl where
  init: "reachable fl (sys_init fl)"
| step: "reachable fl s \<Longrightarrow> ds_step s t l = Some (Inr s') \<Longrightarrow> reachable fl s'"

inductive_cases reachableE: "reachable fl s"

section \<open>Releasing the names\<close>

lemma free_names_all: "free_names (replicate n True) = Inr (replicate n False)"
  by (induction n) simp_all

text \<open>One call releases every name; a second one releases the first name again.\<close>

lemma ds_destroy_twice:
  assumes "point g \<noteq> []"
  shows "cbind (ds_destroy (replicate (length (point g)) True) g) (\<lambda>alive. ds_destroy alive g) = Inl BadPointer"
  using assms by (cases "point g") (simp_all add: ds_destroy_def free_names_all)

section \<open>Lemmas on the table\<close>

lemma look_up_from_eq:
  "look_up_from n ps k = Some i \<Longrightarrow> k \<le> i \<and> i < k + length ps \<and> pname (ps ! (i - k)) = n"
proof (induction n ps k rule: look_up_from.induct)
  case (2 n p ps k)
  then show ?case
    by (auto simp: nth_Cons' split: if_splits)
qed simp

lemma look_up_lt: "look_up n g = Some i \<Longrightarrow> i < length (point g)"
  using look_up_from_eq[of n "point g" 0 i] by (simp add: look_up_def)

lemma look_up_name: "look_up n g = Some i \<Longrightarrow> pname (point g ! i) = n"
  using look_up_from_eq[of n "point g" 0 i] by (simp add: look_up_def)

lemma look_up_from_None: "look_up_from n ps k = None \<longleftrightarrow> n \<notin> pname ` set ps"
  by (induction n ps k rule: look_up_from.induct) auto

lemma upd_simps [simp]:
  "length (point (upd i f g)) = length (point g)" "activation (upd i f g) = activation g"
  "i < length (point g) \<Longrightarrow> point (upd i f g) ! i = f (point g ! i)"
  "j \<noteq> i \<Longrightarrow> point (upd i f g) ! j = point g ! j"
  by (simp_all add: upd_def)

text \<open>A fresh point is appended; otherwise the table is as before.\<close>

definition fresh_point :: "string \<Rightarrow> ds_point" where
  "fresh_point n = \<lparr>pname = take DS_MAX_POINT_NAME_LEN n, is_enabled = True, in_syncwait = False, nblocked = 0\<rparr>"

lemma acquire_cases:
  obtains (found) i where "acquire mem n g = (g, Some i)" "look_up n g = Some i" "i < length (point g)"
  | (made) "acquire mem n g = (g\<lparr>point := point g @ [fresh_point n]\<rparr>, Some (length (point g)))"
      "look_up n g = None" "length (point g) < DS_MAX_POINT_COUNT"
  | (failed) "acquire mem n g = (g, None)" "look_up n g = None"
proof (cases "look_up n g")
  case None
  then show ?thesis
    using made failed
    by (cases "DS_MAX_POINT_COUNT \<le> length (point g)"; cases mem)
       (auto simp: acquire_def create_new_def fresh_point_def)
next
  case (Some i)
  then show ?thesis
    using found look_up_lt by (simp add: acquire_def)
qed

section \<open>The invariant of points and threads\<close>

definition sync_inv :: "ds_point list \<Rightarrow> (nat \<Rightarrow> thread) \<Rightarrow> bool" where
  "sync_inv P T \<longleftrightarrow>
     (\<forall>t i b. T t = ExecAt i b \<or> T t = WaitAt i b \<longrightarrow> i < length P) \<and>
     (\<forall>t i. T t = ExecAt i True \<longrightarrow> in_syncwait (P ! i) \<and> is_enabled (P ! i)) \<and>
     (\<forall>i<length P. in_syncwait (P ! i) \<longrightarrow> 0 < nblocked (P ! i) \<and> (\<exists>t b. T t = ExecAt i b))"

lemma sync_invD:
  assumes "sync_inv P T"
  shows "T t = ExecAt i b \<or> T t = WaitAt i b \<Longrightarrow> i < length P"
    and "T t = ExecAt i True \<Longrightarrow> in_syncwait (P ! i) \<and> is_enabled (P ! i)"
    and "i < length P \<Longrightarrow> in_syncwait (P ! i) \<Longrightarrow> 0 < nblocked (P ! i) \<and> (\<exists>t b. T t = ExecAt i b)"
  using assms unfolding sync_inv_def by blast+

lemma sync_invI:
  assumes "\<And>t i b. T t = ExecAt i b \<or> T t = WaitAt i b \<Longrightarrow> i < length P"
    and "\<And>t i. T t = ExecAt i True \<Longrightarrow> in_syncwait (P ! i) \<and> is_enabled (P ! i)"
    and "\<And>i. i < length P \<Longrightarrow> in_syncwait (P ! i) \<Longrightarrow> 0 < nblocked (P ! i) \<and> (\<exists>t b. T t = ExecAt i b)"
  shows "sync_inv P T"
  using assms unfolding sync_inv_def by blast

text \<open>The waiters' half: needs that nobody unblocks a point out of turn.\<close>

definition wait_inv :: "ds_point list \<Rightarrow> (nat \<Rightarrow> thread) \<Rightarrow> bool" where
  "wait_inv P T \<longleftrightarrow>
     (\<forall>t i. T t = WaitAt i True \<longrightarrow> \<not> in_syncwait (P ! i) \<and> is_enabled (P ! i))"

lemma woken_eq [simp]:
  "woken th = ExecAt i b \<longleftrightarrow> \<not> b \<and> (\<exists>b'. th = ExecAt i b')"
  "woken th = WaitAt i b \<longleftrightarrow> \<not> b \<and> (\<exists>b'. th = WaitAt i b')"
  by (cases th; auto)+

lemma sync_inv_woken: "sync_inv P T \<Longrightarrow> sync_inv P (woken \<circ> T)"
  unfolding sync_inv_def by (fastforce simp: o_def)

lemma wait_inv_woken: "wait_inv P (woken \<circ> T)"
  by (simp add: wait_inv_def)

lemma sync_inv_append:
  assumes "sync_inv P T"
  shows "sync_inv (P @ [fresh_point n]) T"
proof -
  have lt: "i < length P" if "T t = ExecAt i b \<or> T t = WaitAt i b" for t i b
    using assms that by (auto simp: sync_inv_def)
  show ?thesis
    using assms lt unfolding sync_inv_def
    by (auto simp: nth_append fresh_point_def less_Suc_eq)
qed

lemma wait_inv_append:
  "sync_inv P T \<Longrightarrow> wait_inv P T \<Longrightarrow> wait_inv (P @ [fresh_point n]) T"
  by (auto simp: sync_inv_def wait_inv_def nth_append)

text \<open>A thread outside the wait loop of \<open>ds_exec\<close> moves to a place outside that loop.\<close>

lemma sync_inv_thread:
  assumes "sync_inv P T" and "\<forall>i b. T t \<noteq> ExecAt i b" and "\<forall>i b. th \<noteq> ExecAt i b"
    and "\<forall>i b. th = WaitAt i b \<longrightarrow> i < length P"
  shows "sync_inv P (T(t := th))"
  using assms unfolding sync_inv_def by (auto simp: fun_upd_def) metis

lemma wait_inv_thread:
  assumes "wait_inv P T" and "\<forall>i. th = WaitAt i True \<longrightarrow> \<not> in_syncwait (P ! i) \<and> is_enabled (P ! i)"
  shows "wait_inv P (T(t := th))"
  using assms by (auto simp: wait_inv_def)

text \<open>Points change in the enabled flag and the count only.\<close>

lemma sync_inv_points:
  assumes inv: "sync_inv P T" and len: "length P' = length P"
    and same: "\<And>i. i < length P \<Longrightarrow> in_syncwait (P' ! i) = in_syncwait (P ! i)"
    and pos: "\<And>i. i < length P \<Longrightarrow> in_syncwait (P ! i) \<Longrightarrow> 0 < nblocked (P ! i) \<Longrightarrow> 0 < nblocked (P' ! i)"
    and en: "\<And>i. i < length P \<Longrightarrow> \<not> b \<Longrightarrow> in_syncwait (P ! i) \<Longrightarrow> is_enabled (P ! i) \<Longrightarrow>
      0 < nblocked (P ! i) \<Longrightarrow> is_enabled (P' ! i)"
  shows "sync_inv P' (if b then woken \<circ> T else T)"
proof -
  have lt: "i < length P" if "T t = ExecAt i c \<or> T t = WaitAt i c" for t i c
    using inv that by (auto simp: sync_inv_def)
  have sl: "in_syncwait (P ! i) \<and> is_enabled (P ! i) \<and> 0 < nblocked (P ! i)" if "T t = ExecAt i True" for t i
    using inv that lt[of t i True] by (auto simp: sync_inv_def)
  have ex: "0 < nblocked (P ! i) \<and> (\<exists>t b. T t = ExecAt i b)" if "i < length P" "in_syncwait (P ! i)" for i
    using inv that by (auto simp: sync_inv_def)
  show ?thesis
    unfolding sync_inv_def len using lt sl ex same pos en
    by (cases b) (auto simp: len, blast+)
qed

lemma wait_inv_points:
  assumes inv: "wait_inv P T"
    and same: "\<And>i. in_syncwait (P' ! i) \<Longrightarrow> b \<or> in_syncwait (P ! i)"
    and en: "\<And>t i. \<not> b \<Longrightarrow> T t = WaitAt i True \<Longrightarrow> is_enabled (P ! i) \<Longrightarrow> is_enabled (P' ! i)"
  shows "wait_inv P' (if b then woken \<circ> T else T)"
  using inv same en by (auto simp: wait_inv_def)

text \<open>\<open>ds_exec\<close> takes hold of a point, stays, and lets go of it.\<close>

lemma sync_inv_hold:
  assumes inv: "sync_inv P T" and i: "i < length P" and en: "is_enabled (P ! i)" and pos: "0 < nblocked (P ! i)"
    and t: "\<forall>j b. T t \<noteq> ExecAt j b"
  shows "sync_inv (P[i := (P ! i)\<lparr>in_syncwait := True\<rparr>]) ((woken \<circ> T)(t := ExecAt i True))"
proof (rule sync_invI)
  fix u j b
  assume "((woken \<circ> T)(t := ExecAt i True)) u = ExecAt j b \<or> ((woken \<circ> T)(t := ExecAt i True)) u = WaitAt j b"
  then show "j < length (P[i := (P ! i)\<lparr>in_syncwait := True\<rparr>])"
    using sync_invD(1)[OF inv] i by (auto split: if_splits)
next
  fix u j
  assume "((woken \<circ> T)(t := ExecAt i True)) u = ExecAt j True"
  then show "in_syncwait (P[i := (P ! i)\<lparr>in_syncwait := True\<rparr>] ! j) \<and>
      is_enabled (P[i := (P ! i)\<lparr>in_syncwait := True\<rparr>] ! j)"
    using i en by (auto split: if_splits)
next
  fix j
  assume j: "j < length (P[i := (P ! i)\<lparr>in_syncwait := True\<rparr>])"
    and sw: "in_syncwait (P[i := (P ! i)\<lparr>in_syncwait := True\<rparr>] ! j)"
  show "0 < nblocked (P[i := (P ! i)\<lparr>in_syncwait := True\<rparr>] ! j) \<and>
      (\<exists>u b. ((woken \<circ> T)(t := ExecAt i True)) u = ExecAt j b)"
  proof (cases "j = i")
    case True
    then show ?thesis
      using i pos by auto
  next
    case False
    then obtain u b where "0 < nblocked (P ! j)" "T u = ExecAt j b"
      using sync_invD(3)[OF inv, of j] j sw by auto
    then have "((woken \<circ> T)(t := ExecAt i True)) u = ExecAt j False"
      using t by (auto simp: o_def)
    then show ?thesis
      using \<open>0 < nblocked (P ! j)\<close> False by (auto simp del: fun_upd_apply)
  qed
qed

lemma sync_inv_stay:
  assumes inv: "sync_inv P T" and on: "in_syncwait (P ! i)" "is_enabled (P ! i)" and t: "T t = ExecAt i b"
  shows "sync_inv P (T(t := ExecAt i True))"
proof (rule sync_invI)
  fix u j c
  assume "(T(t := ExecAt i True)) u = ExecAt j c \<or> (T(t := ExecAt i True)) u = WaitAt j c"
  then show "j < length P"
    using sync_invD(1)[OF inv] t by (auto split: if_splits)
next
  fix u j
  assume "(T(t := ExecAt i True)) u = ExecAt j True"
  then show "in_syncwait (P ! j) \<and> is_enabled (P ! j)"
    using sync_invD(2)[OF inv] on by (auto split: if_splits)
next
  fix j
  assume "j < length P" and "in_syncwait (P ! j)"
  then obtain u c where "0 < nblocked (P ! j)" "T u = ExecAt j c"
    using sync_invD(3)[OF inv] by blast
  then have "(T(t := ExecAt i True)) u = ExecAt j (if u = t then True else c)"
    using t by auto
  then show "0 < nblocked (P ! j) \<and> (\<exists>u c. (T(t := ExecAt i True)) u = ExecAt j c)"
    using \<open>0 < nblocked (P ! j)\<close> by blast
qed

lemma sync_inv_leave:
  assumes inv: "sync_inv P T" and i: "i < length P" and off: "\<not> (in_syncwait (P ! i) \<and> is_enabled (P ! i))"
    and t: "\<forall>j b. T t = ExecAt j b \<longrightarrow> j = i"
  shows "sync_inv (P[i := (P ! i)\<lparr>in_syncwait := False\<rparr>]) (T(t := Outside rc))"
proof (rule sync_invI)
  fix u j b
  assume "(T(t := Outside rc)) u = ExecAt j b \<or> (T(t := Outside rc)) u = WaitAt j b"
  then show "j < length (P[i := (P ! i)\<lparr>in_syncwait := False\<rparr>])"
    using sync_invD(1)[OF inv] by (auto split: if_splits)
next
  fix u j
  assume "(T(t := Outside rc)) u = ExecAt j True"
  then have "in_syncwait (P ! j) \<and> is_enabled (P ! j)"
    using sync_invD(2)[OF inv] by (auto split: if_splits)
  then show "in_syncwait (P[i := (P ! i)\<lparr>in_syncwait := False\<rparr>] ! j) \<and>
      is_enabled (P[i := (P ! i)\<lparr>in_syncwait := False\<rparr>] ! j)"
    using off by (cases "j = i") auto
next
  fix j
  assume "j < length (P[i := (P ! i)\<lparr>in_syncwait := False\<rparr>])"
    and "in_syncwait (P[i := (P ! i)\<lparr>in_syncwait := False\<rparr>] ! j)"
  then have j: "j \<noteq> i" "j < length P" "in_syncwait (P ! j)"
    using i by (cases "j = i"; simp)+
  then obtain u b where "0 < nblocked (P ! j)" "T u = ExecAt j b"
    using sync_invD(3)[OF inv] by blast
  then show "0 < nblocked (P[i := (P ! i)\<lparr>in_syncwait := False\<rparr>] ! j) \<and>
      (\<exists>u b. (T(t := Outside rc)) u = ExecAt j b)"
    using j t by (cases "u = t") auto
qed

lemma wait_inv_leave:
  "wait_inv P T \<Longrightarrow> wait_inv (P[i := (P ! i)\<lparr>in_syncwait := False\<rparr>]) T"
  by (cases "i < length P") (auto simp: wait_inv_def nth_list_update list_update_beyond)

section \<open>Every operation keeps the invariant\<close>

lemma sync_inv_returns:
  assumes "sync_inv P (if b then woken \<circ> T else T)" and "\<forall>j c. T t \<noteq> ExecAt j c"
  shows "sync_inv P (settle T t asleep b (Returns rc))"
  unfolding settle_def outcome.case
  by (rule sync_inv_thread[OF assms(1)]) (use assms(2) in \<open>auto simp: o_def\<close>)

lemma sync_inv_acquire:
  assumes "sync_inv (point g) T" and "acquire mem n g = (g', r)"
  shows "sync_inv (point g') T" and "r = Some i \<Longrightarrow> i < length (point g')" and "activation g' = activation g"
  using acquire_cases[of mem n g] assms sync_inv_append[OF assms(1), of n] by (fastforce)+

lemma sync_inv_ds_exec:
  assumes inv: "sync_inv (point g) T" and t: "\<forall>j c. T t \<noteq> ExecAt j c"
    and r: "ds_exec mem n g = (g', b, out)"
  shows "sync_inv (point g') (settle T t (\<lambda>i. ExecAt i True) b out)"
proof (cases "inactive g")
  case True
  then show ?thesis
    using r inv t sync_inv_returns[of "point g" False T t] by (auto simp: ds_exec_def)
next
  case False
  obtain g1 ri where acq: "acquire mem n g = (g1, ri)"
    by fastforce
  note inv1 = sync_inv_acquire(1)[OF inv acq]
  have plain: "sync_inv (point g1) (settle T t asleep False (Returns rc))" for asleep rc
    using inv1 t sync_inv_returns[of "point g1" False T t] by simp
  show ?thesis
  proof (cases ri)
    case None
    then show ?thesis
      using r False acq plain by (auto simp: ds_exec_def)
  next
    case (Some i)
    have i: "i < length (point g1)"
      using sync_inv_acquire(2)[OF inv acq Some] .
    let ?p = "point g1 ! i"
    show ?thesis
    proof (cases "is_enabled ?p \<and> in_syncwait ?p \<or> nblocked ?p = 0")
      case True
      then show ?thesis
        using r False acq Some plain by (auto simp: ds_exec_def split: if_splits)
    next
      case go: False
      show ?thesis
      proof (cases "is_enabled ?p")
        case True
        then have "g' = upd i (\<lambda>p. p\<lparr>in_syncwait := True\<rparr>) g1" "b" "out = Sleeps i"
          using r \<open>\<not> inactive g\<close> acq Some go i by (auto simp: ds_exec_def ds_exec_loop_def)
        then show ?thesis
          using sync_inv_hold[OF inv1 i True _ t] go by (simp add: settle_def upd_def)
      next
        case off: False
        then have g': "g' = upd i (\<lambda>p. p\<lparr>in_syncwait := False\<rparr>) (upd i (\<lambda>p. p\<lparr>in_syncwait := True\<rparr>) g1)"
            "b" "out = Returns (-1)"
          using r \<open>\<not> inactive g\<close> acq Some go i by (auto simp: ds_exec_def ds_exec_loop_def Let_def)
        then have "point g' = (point g1)[i := ?p\<lparr>in_syncwait := False\<rparr>]"
          using i by (simp add: upd_def)
        then show ?thesis
          using sync_inv_leave[OF sync_inv_woken[OF inv1] i, of t "-1"] off t g'(2,3)
          by (auto simp: settle_def o_def)
      qed
    qed
  qed
qed

lemma sync_inv_ds_wait:
  assumes inv: "sync_inv (point g) T" and t: "\<forall>j c. T t \<noteq> ExecAt j c"
    and r: "ds_wait mem n g = (g', b, out)"
  shows "sync_inv (point g') (settle T t (\<lambda>i. WaitAt i True) b out)"
proof (cases "inactive g \<or> snd (acquire mem n g) = None")
  case True
  then show ?thesis
    using r inv t sync_inv_returns[of "point g" False T t] sync_inv_acquire(1)[OF inv]
      sync_inv_returns[of "point (fst (acquire mem n g))" False T t]
    by (auto simp: ds_wait_def split: prod.splits if_splits)
next
  case False
  then obtain g1 i where acq: "acquire mem n g = (g1, Some i)"
    by (metis option.exhaust surjective_pairing)
  have i: "i < length (point g1)"
    using sync_inv_acquire(2)[OF inv acq refl] .
  have g': "g' = upd i (\<lambda>p. p\<lparr>nblocked := nblocked p + 1\<rparr>) g1" "\<not> b" "out = ds_wait_loop i g'"
    using r False acq by (auto simp: ds_wait_def Let_def)
  have "sync_inv (point g') (if False then woken \<circ> T else T)"
    by (rule sync_inv_points[OF sync_inv_acquire(1)[OF inv acq]])
       (use i g' in \<open>auto simp: upd_def nth_list_update\<close>)
  then show ?thesis
    using g'(2,3) t i g'(1) unfolding settle_def
    by (intro sync_inv_thread) (auto split: outcome.splits simp: ds_wait_loop_def)
qed

lemma sync_inv_disable_all:
  assumes "sync_inv (point g) T" and "disable_all g = (g', b)"
  shows "sync_inv (point g') (if b then woken \<circ> T else T)"
proof (rule sync_inv_points[OF assms(1)])
  show "length (point g') = length (point g)"
    using assms(2) by (auto simp: disable_all_def)
  fix i
  assume i: "i < length (point g)"
  then show "in_syncwait (point g' ! i) = in_syncwait (point g ! i)"
    and "0 < nblocked (point g ! i) \<Longrightarrow> 0 < nblocked (point g' ! i)"
    using assms(2) by (auto simp: disable_all_def)
  assume "\<not> b" "is_enabled (point g ! i)" "0 < nblocked (point g ! i)"
  then show "is_enabled (point g' ! i)"
    using assms(2) i by (auto simp: disable_all_def list_ex_iff dest: nth_mem)
qed

lemma sync_inv_ds_enable:
  assumes inv: "sync_inv (point g) T" and t: "\<forall>j c. T t \<noteq> ExecAt j c"
    and r: "ds_enable n e g = (g', b, out)"
  shows "sync_inv (point g') (settle T t asleep b out)"
proof (cases "inactive g \<or> look_up n g = None")
  case True
  then show ?thesis
    using r inv t sync_inv_returns[of "point g" False T t] by (auto simp: ds_enable_def split: if_splits)
next
  case False
  then obtain i where lu: "look_up n g = Some i"
    by blast
  have i: "i < length (point g)"
    using lu by (rule look_up_lt)
  have g': "g' = upd i (\<lambda>p. p\<lparr>is_enabled := e\<rparr>) g" "b \<longleftrightarrow> \<not> e \<and> 0 < nblocked (point g ! i)" "out = Returns 0"
    using r False lu i by (auto simp: ds_enable_def Let_def)
  have "sync_inv (point g') (if b then woken \<circ> T else T)"
    by (rule sync_inv_points[OF inv]) (use i g' in \<open>auto simp: upd_def nth_list_update split: if_splits\<close>)
  then show ?thesis
    using sync_inv_returns t g'(3) by simp
qed

lemma sync_inv_ds_unblock:
  assumes inv: "sync_inv (point g) T" and t: "\<forall>j c. T t \<noteq> ExecAt j c"
    and r: "ds_unblock n g = Inr (g', b, out)"
  shows "sync_inv (point g') (settle T t asleep b out)"
proof (cases "inactive g \<or> look_up n g = None")
  case True
  then show ?thesis
    using r inv t sync_inv_returns[of "point g" False T t] by (auto simp: ds_unblock_def split: if_splits)
next
  case False
  then obtain i where lu: "look_up n g = Some i"
    by blast
  have i: "i < length (point g)"
    using lu by (rule look_up_lt)
  let ?p = "point g ! i"
  show ?thesis
  proof (cases "nblocked ?p = 1")
    case True
    then have g': "point g' = (point g)[i := ?p\<lparr>nblocked := 0, in_syncwait := False\<rparr>]" "b" "out = Returns 0"
      using r False lu i by (auto simp: ds_unblock_def Let_def upd_def)
    have "sync_inv (point g') (woken \<circ> T)"
    proof (rule sync_invI)
      fix u j c
      assume "(woken \<circ> T) u = ExecAt j c \<or> (woken \<circ> T) u = WaitAt j c"
      then show "j < length (point g')"
        using sync_invD(1)[OF inv] g'(1) by auto
    next
      fix j
      assume "j < length (point g')" and "in_syncwait (point g' ! j)"
      then have j: "j \<noteq> i" "j < length (point g)" "in_syncwait (point g ! j)"
        using g'(1) i by (cases "j = i"; simp)+
      then obtain u c where "0 < nblocked (point g ! j)" "T u = ExecAt j c"
        using sync_invD(3)[OF inv] by blast
      then show "0 < nblocked (point g' ! j) \<and> (\<exists>u c. (woken \<circ> T) u = ExecAt j c)"
        using j g'(1) by auto
    qed auto
    then show ?thesis
      using sync_inv_returns[of "point g'" True T t] t g'(2,3) by simp
  next
    case more: False
    then have g': "point g' = (point g)[i := ?p\<lparr>nblocked := nblocked ?p - 1\<rparr>]" "\<not> b" "out = Returns 0"
        "1 < nblocked ?p"
      using r False lu i by (auto simp: ds_unblock_def Let_def upd_def cbind_eq_Inr cassert_eq_Inr split: if_splits)
    have "sync_inv (point g') (if False then woken \<circ> T else T)"
      by (rule sync_inv_points[OF inv]) (use i g' in \<open>auto simp: nth_list_update split: if_splits\<close>)
    then show ?thesis
      using sync_inv_returns[of "point g'" False T t] t g'(2,3) by simp
  qed
qed

lemma sync_inv_locked:
  assumes inv: "sync_inv (point (glob s)) (thr s)" and t: "thr s t = Entered c"
    and r: "locked mem s t c = Inr s'"
  shows "sync_inv (point (glob s')) (thr s')"
proof -
  have t': "\<forall>j b. thr s t \<noteq> ExecAt j b"
    using t by simp
  have dis: "sync_inv (point g') (settle (thr s) t asleep b (Returns rc))"
    if "disable_all (glob s) = (g', b)" for g' b asleep rc
    using sync_inv_returns[OF sync_inv_disable_all[OF inv that] t'] .
  have nop: "sync_inv (point (glob s)) (settle (thr s) t asleep False (Returns rc))" for asleep rc
    using sync_inv_returns[of "point (glob s)" False] inv t' by simp
  have act: "point (do_activate b g) = point g" for b g
    by (simp add: do_activate_def)
  show ?thesis
  proof (cases c)
    case (CExec n)
    then show ?thesis
      using r sync_inv_ds_exec[OF inv t'] by (auto simp: locked_def after_def split: prod.splits)
  next
    case (CWait n)
    then show ?thesis
      using r sync_inv_ds_wait[OF inv t'] by (auto simp: locked_def after_def split: prod.splits)
  next
    case (CUnblock n)
    then show ?thesis
      using r sync_inv_ds_unblock[OF inv t'] by (auto simp: locked_def after_def cbind_eq_Inr split: prod.splits)
  next
    case (CEnable n e)
    then show ?thesis
      using r sync_inv_ds_enable[OF inv t'] by (auto simp: locked_def after_def split: prod.splits)
  next
    case CDisableAll
    then show ?thesis
      using r dis nop by (auto simp: locked_def after_def ds_disable_all_def split: prod.splits if_splits)
  next
    case (CActivate b)
    then show ?thesis
      using r dis nop by (auto simp: locked_def after_def ds_activate_def act split: prod.splits if_splits)
  qed
qed

lemma sync_inv_spurious:
  assumes "sync_inv P T"
  shows "sync_inv P (T(t := woken (T t)))"
proof (rule sync_invI)
  fix i
  assume "i < length P" and "in_syncwait (P ! i)"
  then obtain u b where "0 < nblocked (P ! i)" "T u = ExecAt i b"
    using sync_invD(3)[OF assms] by blast
  then have "(T(t := woken (T t))) u = ExecAt i (b \<and> u \<noteq> t)"
    by auto
  then show "0 < nblocked (P ! i) \<and> (\<exists>u b. (T(t := woken (T t))) u = ExecAt i b)"
    using \<open>0 < nblocked (P ! i)\<close> by blast
qed (use sync_invD[OF assms] in \<open>auto split: if_splits\<close>)

lemma invoke_thread:
  "\<exists>th. point (glob (invoke s t c)) = point (glob s) \<and> thr (invoke s t c) = (thr s)(t := th) \<and>
    (th = Outside 0 \<or> th = Entered c)"
proof (cases "local_inactive (glob s) \<and> (\<forall>b. c = CActivate b \<longrightarrow> b)")
  case True
  then show ?thesis
    by (intro exI[of _ "Outside 0"]) (auto simp: invoke_def do_activate_def split: call.splits)
next
  case False
  then show ?thesis
    by (intro exI[of _ "Entered c"]) (auto simp: invoke_def split: call.splits)
qed

lemma sync_inv_step:
  assumes inv: "sync_inv (point (glob s)) (thr s)" and r: "ds_step s t l = Some (Inr s')"
  shows "sync_inv (point (glob s')) (thr s')"
proof (cases l)
  case (Invoke c)
  then obtain rc where t: "thr s t = Outside rc" and s': "s' = invoke s t c"
    using r by (auto split: thread.splits)
  obtain th where "point (glob s') = point (glob s)" "thr s' = (thr s)(t := th)" "\<forall>i b. th \<noteq> ExecAt i b \<and> th \<noteq> WaitAt i b"
    unfolding s' using invoke_thread[of s t c] by force
  then show ?thesis
    using sync_inv_thread[OF inv, of t th] t by simp
next
  case (Lock mem)
  then show ?thesis
    using r sync_inv_locked[OF inv] by (auto split: thread.splits)
next
  case Spurious
  then show ?thesis
    using r sync_inv_spurious[OF inv] by auto
next
  case Resume
  show ?thesis
  proof (cases "thr s t")
    case (ExecAt i b)
    have i: "i < length (point (glob s))"
      using sync_invD(1)[OF inv, of t i b] ExecAt by simp
    show ?thesis
    proof (cases "in_syncwait (point (glob s) ! i) \<and> is_enabled (point (glob s) ! i)")
      case True
      then have "s' = \<lparr>glob = glob s, thr = (thr s)(t := ExecAt i True)\<rparr>"
        using r Resume ExecAt by (auto simp: ds_exec_loop_def after_def settle_def split: bool.splits)
      then show ?thesis
        using sync_inv_stay[OF inv _ _ ExecAt] True by simp
    next
      case False
      then obtain rc where "s' = \<lparr>glob = upd i (\<lambda>p. p\<lparr>in_syncwait := False\<rparr>) (glob s), thr = (thr s)(t := Outside rc)\<rparr>"
        using r Resume ExecAt by (auto simp: ds_exec_loop_def after_def settle_def Let_def split: bool.splits)
      then show ?thesis
        using sync_inv_leave[OF inv i False] ExecAt by (simp add: upd_def)
    qed
  next
    case (WaitAt i b)
    have i: "i < length (point (glob s))"
      using sync_invD(1)[OF inv, of t i b] WaitAt by simp
    obtain th where "glob s' = glob s" "thr s' = (thr s)(t := th)" "\<forall>j c. th \<noteq> ExecAt j c" "\<forall>j c. th = WaitAt j c \<longrightarrow> j = i"
      using r Resume WaitAt by (auto simp: ds_wait_loop_def after_def settle_def split: bool.splits if_splits)
    then show ?thesis
      using sync_inv_thread[OF inv, of t th] WaitAt i by auto
  qed (use r Resume in auto)
qed

lemma reachable_sync_inv: "reachable fl s \<Longrightarrow> sync_inv (point (glob s)) (thr s)"
proof (induction rule: reachable.induct)
  case init
  then show ?case
    by (simp add: sync_inv_def sys_init_def ds_init_def)
next
  case step
  then show ?case
    using sync_inv_step by blast
qed

section \<open>The table\<close>

definition table_ok :: "ds_global \<Rightarrow> bool" where
  "table_ok g \<longleftrightarrow> length (point g) \<le> DS_MAX_POINT_COUNT \<and>
     (\<forall>p\<in>set (point g). length (pname p) \<le> DS_MAX_POINT_NAME_LEN)"

text \<open>An operation keeps the points it finds, in their places, and appends at most one.\<close>

definition extends :: "ds_global \<Rightarrow> ds_global \<Rightarrow> bool" where
  "extends g g' \<longleftrightarrow> (\<exists>new. map pname (point g') = map pname (point g) @ new \<and>
     (\<forall>n\<in>set new. length n \<le> DS_MAX_POINT_NAME_LEN) \<and>
     (new \<noteq> [] \<longrightarrow> length (point g') \<le> DS_MAX_POINT_COUNT))"

lemma extends_same: "map pname (point g') = map pname (point g) \<Longrightarrow> extends g g'"
  by (auto simp: extends_def)

lemma extends_trans_same:
  "extends g g1 \<Longrightarrow> map pname (point g') = map pname (point g1) \<Longrightarrow> extends g g'"
  unfolding extends_def by (metis length_map)

lemma map_pname_upd [simp]:
  "(\<And>p. pname (f p) = pname p) \<Longrightarrow> map pname (point (upd i f g)) = map pname (point g)"
  by (cases "i < length (point g)")
     (auto simp: upd_def map_update list_update_beyond, metis list_update_id nth_map)

lemma extends_acquire: "acquire mem n g = (g', r) \<Longrightarrow> extends g g'"
  using acquire_cases[of mem n g]
proof cases
  case made
  moreover assume "acquire mem n g = (g', r)"
  ultimately show ?thesis
    unfolding extends_def by (intro exI[of _ "[take DS_MAX_POINT_NAME_LEN n]"]) (auto simp: fresh_point_def)
qed (auto intro: extends_same)

lemma extends_table: "extends g g' \<Longrightarrow> table_ok g \<Longrightarrow> table_ok g'"
proof -
  assume "extends g g'" and ok: "table_ok g"
  then obtain new where new: "map pname (point g') = map pname (point g) @ new"
      "\<forall>n\<in>set new. length n \<le> DS_MAX_POINT_NAME_LEN" "new \<noteq> [] \<longrightarrow> length (point g') \<le> DS_MAX_POINT_COUNT"
    by (auto simp: extends_def)
  have "pname ` set (point g') = pname ` set (point g) \<union> set new"
    using arg_cong[OF new(1), of set] by simp
  moreover have "length (point g') = length (point g) + length new"
    using arg_cong[OF new(1), of length] by simp
  moreover have "length (pname p) \<le> DS_MAX_POINT_NAME_LEN" if "p \<in> set (point g')" for p
  proof -
    have "pname p \<in> pname ` set (point g) \<union> set new"
      using that calculation(1) by blast
    then show ?thesis
      using ok new(2) by (auto simp: table_ok_def)
  qed
  ultimately show ?thesis
    using ok new(3) unfolding table_ok_def by (cases "new = []") auto
qed

lemma names_exec_loop: "map pname (point (fst (ds_exec_loop i g))) = map pname (point g)"
  by (simp add: ds_exec_loop_def Let_def)

lemma names_ds_exec:
  assumes acq: "acquire mem n g = (g1, ri)"
  shows "map pname (point (fst (ds_exec mem n g))) = map pname (point g1) \<or> fst (ds_exec mem n g) = g"
proof (cases "inactive g")
  case False
  show ?thesis
  proof (cases ri)
    case (Some i)
    have "fst (ds_exec mem n g) = g1 \<or>
        fst (ds_exec mem n g) = fst (ds_exec_loop i (upd i (\<lambda>p. p\<lparr>in_syncwait := True\<rparr>) g1))"
      using False acq Some by (auto simp: ds_exec_def split: prod.splits)
    then show ?thesis
      using names_exec_loop[of i "upd i (\<lambda>p. p\<lparr>in_syncwait := True\<rparr>) g1"] by auto
  qed (use False acq in \<open>simp add: ds_exec_def\<close>)
qed (simp add: ds_exec_def)

lemma extends_via_acquire:
  assumes "\<And>g1 ri. acquire mem n g = (g1, ri) \<Longrightarrow> map pname (point g') = map pname (point g1) \<or> g' = g"
  shows "extends g g'"
proof -
  obtain g1 ri where acq: "acquire mem n g = (g1, ri)"
    by fastforce
  from assms[OF acq] show ?thesis
    using extends_trans_same[OF extends_acquire[OF acq]] extends_same by metis
qed

lemma extends_ds_exec: "extends g (fst (ds_exec mem n g))"
  by (rule extends_via_acquire[where mem = mem and n = n]) (rule names_ds_exec)

lemma extends_ds_wait: "extends g (fst (ds_wait mem n g))"
  by (rule extends_via_acquire[where mem = mem and n = n]) (auto simp: ds_wait_def Let_def split: option.splits)

lemma extends_locked:
  assumes "locked mem s t c = Inr s'"
  shows "extends (glob s) (glob s')"
proof -
  have dis: "map pname (point (fst (disable_all g))) = map pname (point g)" for g
    by (simp add: disable_all_def o_def)
  have act: "point (do_activate b g) = point g" for b g
    by (simp add: do_activate_def)
  show ?thesis
  proof (cases c)
    case (CExec n)
    then have "glob s' = fst (ds_exec mem n (glob s))"
      using assms by (auto simp: locked_def after_def split: prod.splits)
    then show ?thesis
      using extends_ds_exec by simp
  next
    case (CWait n)
    then have "glob s' = fst (ds_wait mem n (glob s))"
      using assms by (auto simp: locked_def after_def split: prod.splits)
    then show ?thesis
      using extends_ds_wait by simp
  next
    case (CUnblock n)
    then show ?thesis
      using assms
      by (auto simp: locked_def after_def ds_unblock_def Let_def cbind_eq_Inr intro!: extends_same
          split: prod.splits option.splits if_splits)
  next
    case (CEnable n e)
    then show ?thesis
      using assms
      by (auto simp: locked_def after_def ds_enable_def Let_def intro!: extends_same
          split: prod.splits option.splits if_splits)
  next
    case CDisableAll
    then show ?thesis
      using assms dis[of "glob s"]
      by (auto simp: locked_def after_def ds_disable_all_def intro!: extends_same split: prod.splits if_splits)
  next
    case (CActivate b)
    then show ?thesis
      using assms dis[of "glob s"]
      by (auto simp: locked_def after_def ds_activate_def act intro!: extends_same split: prod.splits if_splits)
  qed
qed

lemma extends_step:
  assumes r: "ds_step s t l = Some (Inr s')"
  shows "extends (glob s) (glob s')"
proof (cases l)
  case (Invoke c)
  then show ?thesis
    using r invoke_thread[of s t c] by (auto intro!: extends_same split: thread.splits)
next
  case (Lock mem)
  then show ?thesis
    using r extends_locked by (auto split: thread.splits)
next
  case Resume
  then show ?thesis
    using r by (auto simp: after_def ds_exec_loop_def Let_def intro!: extends_same
        split: thread.splits bool.splits prod.splits if_splits)
qed (use r in \<open>auto intro: extends_same\<close>)

lemma reachable_table: "reachable fl s \<Longrightarrow> table_ok (glob s)"
proof (induction rule: reachable.induct)
  case init
  then show ?case
    by (simp add: table_ok_def sys_init_def ds_init_def)
next
  case step
  then show ?case
    using extends_step extends_table by blast
qed

end
