(* ===== verification/DebugSync_Protocol.thy ===== *)
theory DebugSync_Protocol
  imports DebugSync
begin

unbundle bit_operations_syntax

text \<open>
  What the threads of \<open>debugsync/debugsync.c\<close> can rely on: the protocol between \<open>ds_wait\<close> and
  \<open>ds_unblock\<close> with its accounting invariant, the rendezvous and no-lost-wake-up properties, and
  the runs that show where they fail without the protocol.
\<close>

section \<open>Threads that unblock only after they have waited\<close>

text \<open>
  The intended protocol: a thread calls \<open>ds_unblock\<close> of a point only when a \<open>ds_wait\<close> of its
  own at that point has succeeded and has not been answered yet.  \<open>owed t i\<close> is the number of
  answers that thread \<open>t\<close> still owes to point \<open>i\<close>.
\<close>

type_synonym debts = "nat \<Rightarrow> nat \<Rightarrow> nat"

definition owe :: "debts \<Rightarrow> nat \<Rightarrow> nat \<Rightarrow> debts" where
  "owe owed t i = owed(t := (owed t)(i := owed t i + 1))"

definition pay :: "debts \<Rightarrow> nat \<Rightarrow> nat \<Rightarrow> debts" where
  "pay owed t i = owed(t := (owed t)(i := owed t i - 1))"

fun unblock_target :: "ds_global \<Rightarrow> thread \<Rightarrow> nat option" where
  "unblock_target g (Entered (CUnblock n)) = (if inactive g then None else look_up n g)"
| "unblock_target g th = None"

fun wait_target :: "bool \<Rightarrow> ds_global \<Rightarrow> thread \<Rightarrow> nat option" where
  "wait_target mem g (Entered (CWait n)) = (if inactive g then None else snd (acquire mem n g))"
| "wait_target mem g th = None"

definition allowed :: "sys \<Rightarrow> nat \<Rightarrow> label \<Rightarrow> debts \<Rightarrow> bool" where
  "allowed s t l owed \<longleftrightarrow>
     (case l of Lock mem \<Rightarrow>
        (case unblock_target (glob s) (thr s t) of Some i \<Rightarrow> 0 < owed t i | None \<Rightarrow> True)
      | _ \<Rightarrow> True)"

definition debts_after :: "sys \<Rightarrow> nat \<Rightarrow> label \<Rightarrow> sys \<Rightarrow> debts \<Rightarrow> debts" where
  "debts_after s t l s' owed =
     (case l of
        Lock mem \<Rightarrow>
          (case unblock_target (glob s) (thr s t) of Some i \<Rightarrow> pay owed t i
           | None \<Rightarrow>
             (case wait_target mem (glob s) (thr s t) of
                Some i \<Rightarrow> if thr s' t = Outside 0 then owe owed t i else owed
              | None \<Rightarrow> owed))
      | Resume \<Rightarrow>
          (case thr s t of WaitAt i b \<Rightarrow> if thr s' t = Outside 0 then owe owed t i else owed
           | _ \<Rightarrow> owed)
      | _ \<Rightarrow> owed)"

inductive obedient :: "u32 \<Rightarrow> nat \<Rightarrow> sys \<Rightarrow> debts \<Rightarrow> bool" for fl N where
  init: "obedient fl N (sys_init fl) (\<lambda>_ _. 0)"
| step: "obedient fl N s owed \<Longrightarrow> t < N \<Longrightarrow> allowed s t l owed \<Longrightarrow> ds_step s t l = Some (Inr s') \<Longrightarrow>
    obedient fl N s' (debts_after s t l s' owed)"

lemma obedient_reachable: "obedient fl N s owed \<Longrightarrow> reachable fl s"
  by (induction rule: obedient.induct) (auto intro: reachable.intros simp del: ds_step.simps)

text \<open>The answers a point can still expect never exceed its \<open>nblocked\<close>.\<close>

fun waits :: "thread \<Rightarrow> nat \<Rightarrow> nat" where
  "waits (WaitAt j b) i = (if i = j then 1 else 0)"
| "waits th i = 0"

definition demand :: "nat \<Rightarrow> (nat \<Rightarrow> thread) \<Rightarrow> debts \<Rightarrow> nat \<Rightarrow> nat" where
  "demand N T owed i = (\<Sum>t<N. waits (T t) i + owed t i)"

definition disc_inv :: "nat \<Rightarrow> ds_point list \<Rightarrow> (nat \<Rightarrow> thread) \<Rightarrow> debts \<Rightarrow> bool" where
  "disc_inv N P T owed \<longleftrightarrow> wait_inv P T \<and>
     (\<forall>i<length P. demand N T owed i \<le> nblocked (P ! i)) \<and>
     (\<forall>t i. length P \<le> i \<longrightarrow> owed t i = 0) \<and> (\<forall>t i b. T t = WaitAt i b \<longrightarrow> t < N)"

lemma waits_woken [simp]: "waits (woken th) i = waits th i"
  by (cases th) simp_all

lemma demand_swap:
  assumes "t < N" and "\<And>u. u \<noteq> t \<Longrightarrow> waits (T' u) i + owed' u i = waits (T u) i + owed u i"
  shows "demand N T' owed' i + (waits (T t) i + owed t i) = demand N T owed i + (waits (T' t) i + owed' t i)"
proof -
  have "demand N T owed i = (waits (T t) i + owed t i) + (\<Sum>u\<in>{..<N} - {t}. waits (T u) i + owed u i)" for T owed
    unfolding demand_def using assms(1) by (subst sum.remove[of _ t]) auto
  moreover have "(\<Sum>u\<in>{..<N} - {t}. waits (T' u) i + owed' u i) = (\<Sum>u\<in>{..<N} - {t}. waits (T u) i + owed u i)"
    using assms(2) by (intro sum.cong) auto
  ultimately show ?thesis
    by simp
qed

lemma demand_wait: "t < N \<Longrightarrow> T t = WaitAt i b \<Longrightarrow> 0 < demand N T owed i"
  unfolding demand_def by (subst sum.remove[of _ t]) auto

lemma disc_waiter:
  assumes "disc_inv N P T owed" and "sync_inv P T" and "T t = WaitAt i b"
  shows "i < length P" and "0 < nblocked (P ! i)"
proof -
  show i: "i < length P"
    using sync_invD(1)[OF assms(2)] assms(3) by blast
  have "t < N"
    using assms(1,3) by (auto simp: disc_inv_def)
  then have "0 < demand N T owed i"
    using assms(3) by (rule demand_wait)
  then show "0 < nblocked (P ! i)"
    using assms(1) i by (force simp: disc_inv_def)
qed

text \<open>
  The generic step: the table grows, counts change at most at point \<open>k\<close>, by as much as the
  demand of thread \<open>t\<close> does.
\<close>

lemma disc_step:
  assumes inv: "disc_inv N P T owed" and sy: "sync_inv P T" and t: "t < N"
    and w: "wait_inv P' T'" and len: "length P \<le> length P'"
    and others: "\<And>u i. u \<noteq> t \<Longrightarrow> waits (T' u) i = waits (T u) i \<and> owed' u i = owed u i"
    and loc: "\<And>u i b. u \<noteq> t \<Longrightarrow> T' u = WaitAt i b \<Longrightarrow> \<exists>b'. T u = WaitAt i b'"
    and new: "\<And>i. length P' \<le> i \<Longrightarrow> owed' t i = 0"
    and old: "\<And>i. i < length P \<Longrightarrow>
      nblocked (P ! i) + (waits (T' t) i + owed' t i) \<le> nblocked (P' ! i) + (waits (T t) i + owed t i)"
    and fresh: "\<And>i. length P \<le> i \<Longrightarrow> i < length P' \<Longrightarrow> waits (T' t) i + owed' t i \<le> nblocked (P' ! i)"
  shows "disc_inv N P' T' owed'"
  unfolding disc_inv_def
proof (intro conjI allI impI)
  fix i
  assume i: "i < length P'"
  have sw: "demand N T' owed' i + (waits (T t) i + owed t i) = demand N T owed i + (waits (T' t) i + owed' t i)"
    using others by (intro demand_swap[OF t]) auto
  show "demand N T' owed' i \<le> nblocked (P' ! i)"
  proof (cases "i < length P")
    case True
    then have "demand N T owed i \<le> nblocked (P ! i)"
      using inv by (simp add: disc_inv_def)
    then show ?thesis
      using sw old[OF True] by linarith
  next
    case False
    have "waits (T u) i = 0" for u
      using sync_invD(1)[OF sy, of u i] False by (cases "T u") auto
    then have "demand N T owed i = 0"
      using False inv by (simp add: demand_def disc_inv_def)
    then show ?thesis
      using sw fresh[of i] False i by linarith
  qed
next
  fix u i
  assume "length P' \<le> i"
  then show "owed' u i = 0"
    using new[of i] others[of u i] inv len by (cases "u = t") (auto simp: disc_inv_def)
next
  fix u i b
  assume "T' u = WaitAt i b"
  then show "u < N"
    using loc[of u i b] inv t by (cases "u = t") (auto simp: disc_inv_def)
qed (rule w)

lemma acquire_points:
  "acquire mem n g = (g', r) \<Longrightarrow> point g' = point g \<or> point g' = point g @ [fresh_point n]"
  using acquire_cases[of mem n g] by fastforce

lemma nth_keep: "ps' = ps \<or> ps' = ps @ [p] \<Longrightarrow> i < length ps \<Longrightarrow> ps' ! i = ps ! i"
  by (auto simp: nth_append)

lemma ds_exec_shape:
  assumes r: "ds_exec mem n g = (g', b, out)"
  shows "length (point g) \<le> length (point g')"
    and "i < length (point g) \<Longrightarrow> nblocked (point g' ! i) = nblocked (point g ! i)"
    and "\<not> b \<Longrightarrow> (\<exists>rc. out = Returns rc) \<and> (point g' = point g \<or> point g' = point g @ [fresh_point n])"
    and "out = Sleeps j \<Longrightarrow> b"
proof -
  obtain g1 ri where acq: "acquire mem n g = (g1, ri)"
    by fastforce
  note P1 = acquire_points[OF acq]
  have up: "nblocked (point (upd k f g2) ! j) = nblocked (point g2 ! j)"
    if "\<And>p. nblocked (f p) = nblocked p" for k f g2 j
    using that by (cases "k < length (point g2)"; cases "j = k") (auto simp: upd_def list_update_beyond)
  have "g' = g \<and> \<not> b \<and> (\<exists>rc. out = Returns rc) \<or> g' = g1 \<and> \<not> b \<and> (\<exists>rc. out = Returns rc) \<or>
      b \<and> (\<exists>k. g' = fst (ds_exec_loop k (upd k (\<lambda>p. p\<lparr>in_syncwait := True\<rparr>) g1)))"
    using r acq by (cases ri) (auto simp: ds_exec_def split: if_splits prod.splits, (metis fst_conv)+)
  then consider "g' = g" "\<not> b" "\<exists>rc. out = Returns rc" | "g' = g1" "\<not> b" "\<exists>rc. out = Returns rc"
    | k where "b" "g' = fst (ds_exec_loop k (upd k (\<lambda>p. p\<lparr>in_syncwait := True\<rparr>) g1))"
    by blast
  then have "length (point g) \<le> length (point g') \<and>
      (i < length (point g) \<longrightarrow> nblocked (point g' ! i) = nblocked (point g ! i)) \<and>
      (\<not> b \<longrightarrow> (\<exists>rc. out = Returns rc) \<and> (point g' = point g \<or> point g' = point g @ [fresh_point n])) \<and>
      (out = Sleeps j \<longrightarrow> b)"
  proof cases
    case 3
    then have "length (point g') = length (point g1)" "nblocked (point g' ! i) = nblocked (point g1 ! i)"
      using up by (simp_all add: ds_exec_loop_def Let_def)
    then show ?thesis
      using 3(1) P1 nth_keep[OF P1, of i] by auto
  qed (use P1 nth_keep[OF P1, of i] in auto)
  then show "length (point g) \<le> length (point g')"
    and "i < length (point g) \<Longrightarrow> nblocked (point g' ! i) = nblocked (point g ! i)"
    and "\<not> b \<Longrightarrow> (\<exists>rc. out = Returns rc) \<and> (point g' = point g \<or> point g' = point g @ [fresh_point n])"
    and "out = Sleeps j \<Longrightarrow> b"
    by blast+
qed

lemma settle_waits:
  "u \<noteq> t \<Longrightarrow> waits (settle T t asleep b out u) i = waits (T u) i"
  "u \<noteq> t \<Longrightarrow> settle T t asleep b out u = WaitAt i c \<Longrightarrow> \<exists>c'. T u = WaitAt i c'"
  by (auto simp: settle_def split: if_splits)

lemma disc_ds_exec:
  assumes inv: "disc_inv N (point g) T owed" and sy: "sync_inv (point g) T" and t: "t < N" "T t = Entered c"
    and r: "ds_exec mem n g = (g', b, out)"
  shows "disc_inv N (point g') (settle T t (\<lambda>i. ExecAt i True) b out) owed"
proof (rule disc_step[OF inv sy t(1)])
  have w: "wait_inv (point g) T"
    using inv by (simp add: disc_inv_def)
  show "wait_inv (point g') (settle T t (\<lambda>i. ExecAt i True) b out)"
  proof (cases b)
    case True
    then show ?thesis
      unfolding settle_def by (auto intro!: wait_inv_thread[OF wait_inv_woken] split: outcome.splits)
  next
    case False
    then have "wait_inv (point g') T"
      using ds_exec_shape(3)[OF r] w wait_inv_append[OF sy w] by auto
    then show ?thesis
      using False ds_exec_shape(3)[OF r] unfolding settle_def by (auto intro!: wait_inv_thread)
  qed
  show "length (point g) \<le> length (point g')"
    by (rule ds_exec_shape(1)[OF r])
  have tw: "waits (settle T t (\<lambda>i. ExecAt i True) b out t) i = 0" for i
    by (auto simp: settle_def split: outcome.splits)
  show "nblocked (point g ! i) + (waits (settle T t (\<lambda>i. ExecAt i True) b out t) i + owed t i)
      \<le> nblocked (point g' ! i) + (waits (T t) i + owed t i)" if "i < length (point g)" for i
    using tw ds_exec_shape(2)[OF r that] by simp
  show "waits (settle T t (\<lambda>i. ExecAt i True) b out t) i + owed t i \<le> nblocked (point g' ! i)"
    if "length (point g) \<le> i" for i
    using tw inv that by (simp add: disc_inv_def)
  show "owed t i = 0" if "length (point g') \<le> i" for i
    using inv that ds_exec_shape(1)[OF r] by (auto simp: disc_inv_def)
qed (use settle_waits in auto)

lemma ds_wait_shape:
  assumes r: "ds_wait mem n g = (g', b, out)" and tg: "tg = (if inactive g then None else snd (acquire mem n g))"
  shows "\<not> b"
    and "tg = None \<Longrightarrow> point g' = point g \<and> out = Returns (-1)"
    and "tg = Some i \<Longrightarrow> \<exists>P1. (P1 = point g \<or> P1 = point g @ [fresh_point n]) \<and> i < length P1 \<and>
      point g' = P1[i := (P1 ! i)\<lparr>nblocked := nblocked (P1 ! i) + 1\<rparr>] \<and> out = ds_wait_loop i g'"
proof -
  obtain g1 ri where acq: "acquire mem n g = (g1, ri)"
    by fastforce
  show "\<not> b"
    using r acq by (auto simp: ds_wait_def Let_def split: if_splits option.splits)
  show "point g' = point g \<and> out = Returns (-1)" if "tg = None"
    using r acq tg that acquire_cases[of mem n g]
    by (auto simp: ds_wait_def Let_def split: if_splits option.splits)
  assume "tg = Some i"
  then have ri: "ri = Some i" "\<not> inactive g"
    using acq tg by (auto split: if_splits)
  then have "i < length (point g1)"
    using acq look_up_lt by (cases rule: acquire_cases[of mem n g]) auto
  then show "\<exists>P1. (P1 = point g \<or> P1 = point g @ [fresh_point n]) \<and> i < length P1 \<and>
      point g' = P1[i := (P1 ! i)\<lparr>nblocked := nblocked (P1 ! i) + 1\<rparr>] \<and> out = ds_wait_loop i g'"
    using r acq ri acquire_points[OF acq]
    by (intro exI[of _ "point g1"]) (auto simp: ds_wait_def Let_def upd_def)
qed

text \<open>The thread found its point, in \<open>P1\<close>, and blocks one more section of it.\<close>

lemma disc_wait_found:
  assumes inv: "disc_inv N (point g) T owed" and sy: "sync_inv (point g) T"
    and t: "t < N" "T t = Entered (CWait n)"
    and P1: "P1 = point g \<or> P1 = point g @ [fresh_point n]" "i < length P1"
        "point g' = P1[i := (P1 ! i)\<lparr>nblocked := nblocked (P1 ! i) + 1\<rparr>]"
    and T': "T' = T(t := (case ds_wait_loop i g' of Returns rc \<Rightarrow> Outside rc | Sleeps i \<Rightarrow> WaitAt i True))"
  defines "owed' \<equiv> (if T' t = Outside 0 then owe owed t i else owed)"
  shows "disc_inv N (point g') T' owed'"
proof -
  have len: "length (point g) \<le> length P1" "length (point g') = length P1"
    using P1(1,3) by auto
  have w: "wait_inv (point g) T" and o0: "\<And>i. length (point g) \<le> i \<Longrightarrow> owed t i = 0"
    using inv by (simp_all add: disc_inv_def)
  have w1: "wait_inv P1 T"
    using P1(1) w wait_inv_append[OF sy w] by auto
  have "wait_inv (point g') (if False then woken \<circ> T else T)"
    by (rule wait_inv_points[OF w1]) (use P1(2,3) in \<open>auto simp: nth_list_update split: if_splits\<close>)
  then have w': "wait_inv (point g') T'"
    unfolding T' by (intro wait_inv_thread) (auto simp: ds_wait_loop_def split: if_splits)
  have nb: "nblocked (point g' ! j) = nblocked (P1 ! j) + (if j = i then 1 else 0)" if "j < length P1" for j
    using P1(2,3) that by (auto simp: nth_list_update)
  have my: "waits (T' t) j + owed' t j \<le> owed t j + (if j = i then 1 else 0)" for j
    by (auto simp: T' owed'_def owe_def ds_wait_loop_def)
  have tw: "waits (T t) j = 0" for j
    using t(2) by simp
  show "disc_inv N (point g') T' owed'"
  proof (rule disc_step[OF inv sy t(1) w'])
    show "length (point g) \<le> length (point g')"
      using len by simp
    show "waits (T' u) j = waits (T u) j \<and> owed' u j = owed u j" if "u \<noteq> t" for u j
      using that by (auto simp: T' owed'_def owe_def)
    show "\<exists>b'. T u = WaitAt j b'" if "u \<noteq> t" "T' u = WaitAt j b" for u j b
      using that by (auto simp: T')
    show "owed' t j = 0" if "length (point g') \<le> j" for j
      using that len o0[of j] P1(2) by (auto simp: owed'_def owe_def)
    show "nblocked (point g ! j) + (waits (T' t) j + owed' t j) \<le> nblocked (point g' ! j) + (waits (T t) j + owed t j)"
      if "j < length (point g)" for j
      using my[of j] nb[of j] tw that len nth_keep[OF P1(1) that] by simp
    show "waits (T' t) j + owed' t j \<le> nblocked (point g' ! j)"
      if "length (point g) \<le> j" "j < length (point g')" for j
      using my[of j] nb[of j] o0[OF that(1)] that(2) len(2) by simp
  qed
qed

lemma disc_ds_wait:
  assumes inv: "disc_inv N (point g) T owed" and sy: "sync_inv (point g) T"
    and t: "t < N" "T t = Entered (CWait n)" and r: "ds_wait mem n g = (g', b, out)"
  defines "T' \<equiv> settle T t (\<lambda>i. WaitAt i True) b out"
  shows "disc_inv N (point g') T'
    (case wait_target mem g (T t) of Some i \<Rightarrow> if T' t = Outside 0 then owe owed t i else owed | None \<Rightarrow> owed)"
proof -
  define tg where "tg = (if inactive g then None else snd (acquire mem n g))"
  note shape = ds_wait_shape[OF r tg_def]
  have wt: "wait_target mem g (T t) = tg"
    using t(2) by (simp add: tg_def)
  have w: "wait_inv (point g) T" and o0: "\<And>i. length (point g) \<le> i \<Longrightarrow> owed t i = 0"
    using inv by (simp_all add: disc_inv_def)
  show ?thesis
  proof (cases tg)
    case None
    then have g': "point g' = point g" "T' = T(t := Outside (-1))"
      using shape(1,2) by (auto simp: T'_def settle_def)
    then show ?thesis
      unfolding wt None option.case
      using t(2) w o0 by (intro disc_step[OF inv sy t(1)]) (auto intro!: wait_inv_thread split: if_splits)
  next
    case (Some i)
    obtain P1 where P1: "P1 = point g \<or> P1 = point g @ [fresh_point n]" "i < length P1"
        "point g' = P1[i := (P1 ! i)\<lparr>nblocked := nblocked (P1 ! i) + 1\<rparr>]" "out = ds_wait_loop i g'"
      using shape(3)[OF Some] by blast
    have T': "T' = T(t := (case ds_wait_loop i g' of Returns rc \<Rightarrow> Outside rc | Sleeps i \<Rightarrow> WaitAt i True))"
      using shape(1) P1(4) by (simp add: T'_def settle_def)
    then show ?thesis
      unfolding wt Some option.case
      by (rule disc_wait_found[OF inv sy t P1(1-3)])
  qed
qed

lemma disc_ds_unblock:
  assumes inv: "disc_inv N (point g) T owed" and sy: "sync_inv (point g) T"
    and t: "t < N" "T t = Entered (CUnblock n)" and r: "ds_unblock n g = Inr (g', b, out)"
    and pays: "case unblock_target g (T t) of Some i \<Rightarrow> 0 < owed t i | None \<Rightarrow> True"
  shows "disc_inv N (point g') (settle T t asleep b out)
    (case unblock_target g (T t) of Some i \<Rightarrow> pay owed t i | None \<Rightarrow> owed)"
proof -
  have w: "wait_inv (point g) T" and o0: "\<And>i. length (point g) \<le> i \<Longrightarrow> owed t i = 0"
    using inv by (simp_all add: disc_inv_def)
  show ?thesis
  proof (cases "unblock_target g (T t)")
    case None
    then have "g' = g" "\<not> b" "out = Returns (-1)"
      using r t(2) by (auto simp: ds_unblock_def split: if_splits)
    then show ?thesis
      unfolding None option.case settle_def
      using t(2) w o0 by (intro disc_step[OF inv sy t(1)]) (auto intro!: wait_inv_thread split: if_splits)
  next
    case (Some i)
    then have lu: "look_up n g = Some i" "\<not> inactive g" and ow: "0 < owed t i"
      using t(2) pays by (auto split: if_splits)
    have i: "i < length (point g)"
      using lu(1) by (rule look_up_lt)
    have g': "\<And>j. nblocked (point g' ! j) = nblocked (point g ! j) - (if j = i then 1 else 0)"
        "length (point g') = length (point g)" "out = Returns 0" "0 < nblocked (point g ! i)"
        "\<And>j. is_enabled (point g' ! j) = is_enabled (point g ! j)"
        "\<And>j. in_syncwait (point g' ! j) \<Longrightarrow> in_syncwait (point g ! j)"
      using r lu i by (auto simp: ds_unblock_def Let_def upd_def cbind_eq_Inr cassert_eq_Inr nth_list_update
          split: if_splits)
    have "wait_inv (point g') (if b then woken \<circ> T else T)"
      by (rule wait_inv_points[OF w]) (use g'(5,6) in auto)
    then have w': "wait_inv (point g') (settle T t asleep b out)"
      unfolding settle_def g'(3) outcome.case by (intro wait_inv_thread) auto
    show ?thesis
      unfolding Some option.case
    proof (rule disc_step[OF inv sy t(1) w'])
      show "waits (settle T t asleep b out u) j = waits (T u) j \<and> pay owed t i u j = owed u j" if "u \<noteq> t" for u j
        using that settle_waits by (auto simp: pay_def)
      show "nblocked (point g ! j) + (waits (settle T t asleep b out t) j + pay owed t i t j)
          \<le> nblocked (point g' ! j) + (waits (T t) j + owed t j)" if "j < length (point g)" for j
        using g'(1)[of j] g'(3,4) ow t(2) by (auto simp: settle_def pay_def)
      show "pay owed t i t j = 0" if "length (point g') \<le> j" for j
        using that g'(2) o0[of j] by (auto simp: pay_def)
    qed (use g'(2) settle_waits in auto)
  qed
qed

text \<open>Operations that only change the enabled flags, waking the sleepers of what they disable.\<close>

lemma disc_flags:
  assumes inv: "disc_inv N P T owed" and sy: "sync_inv P T" and t: "t < N" "T t = Entered c"
    and len: "length P' = length P"
    and same: "\<And>i. i < length P \<Longrightarrow> nblocked (P' ! i) = nblocked (P ! i) \<and> in_syncwait (P' ! i) = in_syncwait (P ! i)"
    and en: "\<And>i. i < length P \<Longrightarrow> \<not> b \<Longrightarrow> 0 < nblocked (P ! i) \<Longrightarrow> is_enabled (P ! i) \<Longrightarrow> is_enabled (P' ! i)"
  shows "disc_inv N P' (settle T t asleep b (Returns rc)) owed"
proof (rule disc_step[OF inv sy t(1)])
  have w: "wait_inv P T"
    using inv by (simp add: disc_inv_def)
  have "wait_inv P' (if b then woken \<circ> T else T)"
  proof (cases b)
    case True
    then show ?thesis
      using wait_inv_woken by simp
  next
    case False
    have "\<not> in_syncwait (P' ! i) \<and> is_enabled (P' ! i)" if "T u = WaitAt i True" for u i
      using that w same[of i] en[of i] disc_waiter[OF inv sy that] False by (auto simp: wait_inv_def)
    then show ?thesis
      using False by (auto simp: wait_inv_def)
  qed
  then show "wait_inv P' (settle T t asleep b (Returns rc))"
    unfolding settle_def outcome.case by (intro wait_inv_thread) auto
  show "nblocked (P ! i) + (waits (settle T t asleep b (Returns rc) t) i + owed t i)
      \<le> nblocked (P' ! i) + (waits (T t) i + owed t i)" if "i < length P" for i
    using same[OF that] t(2) by (simp add: settle_def)
  show "owed t i = 0" if "length P' \<le> i" for i
    using inv that len by (simp add: disc_inv_def)
qed (use len settle_waits in auto)

text \<open>The critical sections, one call after the other.\<close>

lemma disc_locked_wait:
  assumes inv: "disc_inv N (point (glob s)) (thr s) owed" and sy: "sync_inv (point (glob s)) (thr s)"
    and t: "t < N" "thr s t = Entered (CWait n)" and r: "locked mem s t (CWait n) = Inr s'"
  shows "disc_inv N (point (glob s')) (thr s') (debts_after s t (Lock mem) s' owed)"
proof -
  obtain g' b out where w: "ds_wait mem n (glob s) = (g', b, out)"
    by (metis prod_cases3)
  have s': "glob s' = g'" "thr s' = settle (thr s) t (\<lambda>i. WaitAt i True) b out"
    using r w by (auto simp: locked_def after_def)
  show ?thesis
    using disc_ds_wait[OF inv sy t w] t(2) unfolding s'(2)[symmetric] s'(1)[symmetric]
    by (simp add: debts_after_def split: option.splits)
qed

lemma disc_locked_unblock:
  assumes inv: "disc_inv N (point (glob s)) (thr s) owed" and sy: "sync_inv (point (glob s)) (thr s)"
    and t: "t < N" "thr s t = Entered (CUnblock n)" and r: "locked mem s t (CUnblock n) = Inr s'"
    and al: "allowed s t (Lock mem) owed"
  shows "disc_inv N (point (glob s')) (thr s') (debts_after s t (Lock mem) s' owed)"
proof -
  obtain g' b out where u: "ds_unblock n (glob s) = Inr (g', b, out)"
      and s': "s' = \<lparr>glob = g', thr = settle (thr s) t (\<lambda>_. Outside 0) b out\<rparr>"
    using r by (auto simp: locked_def after_def cbind_eq_Inr split: prod.splits)
  have "case unblock_target (glob s) (thr s t) of Some i \<Rightarrow> 0 < owed t i | None \<Rightarrow> True"
    using al by (simp add: allowed_def)
  from disc_ds_unblock[OF inv sy t u this, of "\<lambda>_. Outside 0"]
  have "disc_inv N (point g') (settle (thr s) t (\<lambda>_. Outside 0) b out)
      (case unblock_target (glob s) (thr s t) of Some i \<Rightarrow> pay owed t i | None \<Rightarrow> owed)"
    by simp
  moreover have "debts_after s t (Lock mem) s' owed =
      (case unblock_target (glob s) (thr s t) of Some i \<Rightarrow> pay owed t i | None \<Rightarrow> owed)"
    using t(2) by (simp add: debts_after_def split: option.splits)
  ultimately show ?thesis
    by (simp add: s')
qed

lemma disc_locked_enable:
  assumes inv: "disc_inv N (point (glob s)) (thr s) owed" and sy: "sync_inv (point (glob s)) (thr s)"
    and t: "t < N" "thr s t = Entered (CEnable n e)" and r: "locked mem s t (CEnable n e) = Inr s'"
  shows "disc_inv N (point (glob s')) (thr s') owed"
proof (cases "inactive (glob s) \<or> look_up n (glob s) = None")
  case True
  have "disc_inv N (point (glob s)) (settle (thr s) t asleep False (Returns rc)) owed" for asleep rc
    by (rule disc_flags[OF inv sy t]) auto
  with True show ?thesis
    using r by (auto simp: locked_def after_def ds_enable_def split: if_splits)
next
  case False
  then obtain i where lu: "look_up n (glob s) = Some i" "\<not> inactive (glob s)"
    by blast
  note i = look_up_lt[OF lu(1)]
  have s': "s' = \<lparr>glob = upd i (\<lambda>p. p\<lparr>is_enabled := e\<rparr>) (glob s),
      thr = settle (thr s) t (\<lambda>_. Outside 0) (\<not> e \<and> 0 < nblocked (point (glob s) ! i)) (Returns 0)\<rparr>"
    using r lu i by (simp add: locked_def after_def ds_enable_def Let_def)
  show ?thesis
    unfolding s' by (simp, rule disc_flags[OF inv sy t])
      (use i in \<open>auto simp: upd_def nth_list_update split: if_splits\<close>)
qed

lemma disc_locked:
  assumes inv: "disc_inv N (point (glob s)) (thr s) owed" and sy: "sync_inv (point (glob s)) (thr s)"
    and t: "t < N" "thr s t = Entered c" and r: "locked mem s t c = Inr s'"
    and al: "allowed s t (Lock mem) owed"
  shows "disc_inv N (point (glob s')) (thr s') (debts_after s t (Lock mem) s' owed)"
proof -
  have none: "debts_after s t (Lock mem) s' owed = owed"
    if "\<forall>n. c \<noteq> CUnblock n \<and> c \<noteq> CWait n"
    using that t(2) by (cases c) (auto simp: debts_after_def)
  have nop: "disc_inv N (point (glob s)) (settle (thr s) t asleep False (Returns rc)) owed" for asleep rc
    by (rule disc_flags[OF inv sy t]) auto
  have dis: "disc_inv N (point g') (settle (thr s) t asleep b (Returns rc)) owed"
    if "disable_all (glob s) = (g', b)" for g' b asleep rc
    by (rule disc_flags[OF inv sy t]) (use that in \<open>auto simp: disable_all_def list_ex_iff dest: nth_mem\<close>)
  have act: "point (do_activate b g) = point g" for b g
    by (simp add: do_activate_def)
  show ?thesis
  proof (cases c)
    case (CExec n)
    then show ?thesis
      using r none disc_ds_exec[OF inv sy t] by (auto simp: locked_def after_def split: prod.splits)
  next
    case (CWait n)
    then show ?thesis
      using disc_locked_wait[OF inv sy t(1)] t(2) r by blast
  next
    case (CUnblock n)
    then show ?thesis
      using disc_locked_unblock[OF inv sy t(1) _ _ al] t(2) r by blast
  next
    case (CEnable n e)
    then show ?thesis
      using disc_locked_enable[OF inv sy t(1)] t(2) r none by simp
  next
    case CDisableAll
    then show ?thesis
      using r none nop dis
      by (auto simp: locked_def after_def ds_disable_all_def split: prod.splits if_splits)
  next
    case (CActivate b)
    then show ?thesis
      using r none nop dis
      by (auto simp: locked_def after_def ds_activate_def act split: prod.splits if_splits)
  qed
qed

text \<open>Steps that leave the points alone but for clearing the hold of thread \<open>t\<close>.\<close>

lemma disc_local:
  assumes inv: "disc_inv N P T owed" and sy: "sync_inv P T" and t: "t < N"
    and same: "length P' = length P" "\<And>i. i < length P \<Longrightarrow> nblocked (P' ! i) = nblocked (P ! i)"
    and w: "wait_inv P' (T(t := th))"
    and mine: "\<And>i. waits th i + owed' t i = waits (T t) i + owed t i \<or> waits th i + owed' t i \<le> owed t i"
    and dom: "\<And>i. length P \<le> i \<Longrightarrow> owed' t i = 0" and others: "\<And>u i. u \<noteq> t \<Longrightarrow> owed' u i = owed u i"
  shows "disc_inv N P' (T(t := th)) owed'"
proof (rule disc_step[OF inv sy t w])
  show "nblocked (P ! i) + (waits ((T(t := th)) t) i + owed' t i) \<le> nblocked (P' ! i) + (waits (T t) i + owed t i)"
    if "i < length P" for i
    using mine[of i] same(2)[OF that] by auto
qed (use same(1) dom others in auto)

text \<open>A thread resumes in the loop of \<open>ds_exec\<close>: it goes back to sleep, or lets go of the point.\<close>

lemma disc_resume_exec:
  assumes inv: "disc_inv N (point (glob s)) (thr s) owed" and sy: "sync_inv (point (glob s)) (thr s)"
    and t: "t < N" and r: "ds_step s t Resume = Some (Inr s')"
    and th: "thr s t = ExecAt i b"
  shows "disc_inv N (point (glob s')) (thr s') owed"
proof -
  have w: "wait_inv (point (glob s)) (thr s)" and o0: "\<And>i. length (point (glob s)) \<le> i \<Longrightarrow> owed t i = 0"
    using inv by (simp_all add: disc_inv_def)
  have "glob s' = glob s \<and> thr s' = (thr s)(t := ExecAt i True) \<or>
      glob s' = upd i (\<lambda>p. p\<lparr>in_syncwait := False\<rparr>) (glob s) \<and> (\<exists>rc. thr s' = (thr s)(t := Outside rc))"
    using r th
    by (auto simp: ds_exec_loop_def after_def settle_def Let_def split: bool.splits if_splits)
  then consider "glob s' = glob s" "thr s' = (thr s)(t := ExecAt i True)"
    | rc where "glob s' = upd i (\<lambda>p. p\<lparr>in_syncwait := False\<rparr>) (glob s)" "thr s' = (thr s)(t := Outside rc)"
    by blast
  then show ?thesis
  proof cases
    case 1
    have "disc_inv N (point (glob s)) ((thr s)(t := ExecAt i True)) owed"
      by (rule disc_local[OF inv sy t]) (use w o0 th in \<open>auto intro!: wait_inv_thread\<close>)
    then show ?thesis
      by (simp add: 1)
  next
    case 2
    have P': "point (glob s') = (point (glob s))[i := (point (glob s) ! i)\<lparr>in_syncwait := False\<rparr>]"
      by (simp add: 2 upd_def)
    have "nblocked (point (glob s') ! j) = nblocked (point (glob s) ! j)" if "j < length (point (glob s))" for j
      using that by (cases "j = i") (auto simp: P')
    then have "disc_inv N (point (glob s')) ((thr s)(t := Outside rc)) owed"
      using wait_inv_leave[OF w, of i] o0 th
      by (intro disc_local[OF inv sy t]) (auto simp: P' intro!: wait_inv_thread)
    then show ?thesis
      by (simp add: 2(2))
  qed
qed

text \<open>A thread resumes in the loop of \<open>ds_wait\<close>: when it returns 0 it owes an unblock.\<close>

lemma disc_resume_wait:
  assumes inv: "disc_inv N (point (glob s)) (thr s) owed" and sy: "sync_inv (point (glob s)) (thr s)"
    and t: "t < N" and r: "ds_step s t Resume = Some (Inr s')"
    and th: "thr s t = WaitAt i b"
  shows "disc_inv N (point (glob s')) (thr s') (debts_after s t Resume s' owed)"
proof -
  have w: "wait_inv (point (glob s)) (thr s)" and o0: "\<And>i. length (point (glob s)) \<le> i \<Longrightarrow> owed t i = 0"
    using inv by (simp_all add: disc_inv_def)
  have i: "i < length (point (glob s))"
    using sync_invD(1)[OF sy, of t i b] th by simp
  define out where "out = ds_wait_loop i (glob s)"
  have s': "glob s' = glob s" "thr s' = (thr s)(t := (case out of Returns rc \<Rightarrow> Outside rc | Sleeps i \<Rightarrow> WaitAt i True))"
    using r th by (auto simp: out_def after_def settle_def split: bool.splits)
  have out: "out = Sleeps i \<and> \<not> in_syncwait (point (glob s) ! i) \<and> is_enabled (point (glob s) ! i)
      \<or> out = Returns 0 \<or> out = Returns (-1)"
    by (simp add: out_def ds_wait_loop_def)
  have "disc_inv N (point (glob s)) (thr s') (debts_after s t Resume s' owed)"
    unfolding s'(2)
    by (rule disc_local[OF inv sy t])
       (use out w o0 th i in \<open>auto simp: debts_after_def s' owe_def intro!: wait_inv_thread\<close>)
  then show ?thesis
    by (simp add: s'(1))
qed

lemma disc_step_all:
  assumes inv: "disc_inv N (point (glob s)) (thr s) owed" and sy: "sync_inv (point (glob s)) (thr s)"
    and t: "t < N" and r: "ds_step s t l = Some (Inr s')" and al: "allowed s t l owed"
  shows "disc_inv N (point (glob s')) (thr s') (debts_after s t l s' owed)"
proof -
  have w: "wait_inv (point (glob s)) (thr s)" and o0: "\<And>i. length (point (glob s)) \<le> i \<Longrightarrow> owed t i = 0"
    using inv by (simp_all add: disc_inv_def)
  show ?thesis
  proof (cases l)
    case (Invoke c)
    then obtain rc where th: "thr s t = Outside rc" and s': "s' = invoke s t c"
      using r by (auto split: thread.splits)
    obtain th where "point (glob s') = point (glob s)" "thr s' = (thr s)(t := th)" "th = Outside 0 \<or> th = Entered c"
      using invoke_thread[of s t c] s' by blast
    then show ?thesis
      using th w o0 unfolding Invoke
      by (auto simp: debts_after_def intro!: disc_local[OF inv sy t] wait_inv_thread)
  next
    case (Lock mem)
    then show ?thesis
      using r al disc_locked[OF inv sy t] by (auto split: thread.splits)
  next
    case Spurious
    then have s': "s' = s\<lparr>thr := (thr s)(t := woken (thr s t))\<rparr>"
      using r by simp
    have "disc_inv N (point (glob s)) ((thr s)(t := woken (thr s t))) owed"
      by (rule disc_local[OF inv sy t]) (use w o0 in \<open>auto intro!: wait_inv_thread\<close>)
    then show ?thesis
      by (simp add: s' Spurious debts_after_def)
  next
    case Resume
    show ?thesis
    proof (cases "thr s t")
      case (ExecAt i b)
      then show ?thesis
        using disc_resume_exec[OF inv sy t r[unfolded Resume] ExecAt] by (simp add: Resume debts_after_def)
    next
      case (WaitAt i b)
      show ?thesis
        unfolding Resume by (rule disc_resume_wait[OF inv sy t r[unfolded Resume] WaitAt])
    qed (use r Resume in auto)
  qed
qed

lemma obedient_disc_inv: "obedient fl N s owed \<Longrightarrow> disc_inv N (point (glob s)) (thr s) owed"
proof (induction rule: obedient.induct)
  case init
  then show ?case
    by (simp add: disc_inv_def wait_inv_def sys_init_def ds_init_def)
next
  case step
  then show ?case
    using disc_step_all reachable_sync_inv obedient_reachable by blast
qed

section \<open>Properties\<close>

text \<open>
  C2: rendezvous.  When \<open>ds_wait\<close> wakes up and returns 0 for a point, another thread is held
  inside \<open>ds_exec\<close> at that very point, in any reachable state, whatever the threads do.
\<close>
theorem ds_wait_rendezvous:
  assumes "reachable fl s" and "thr s t = WaitAt i False"
    and "ds_step s t Resume = Some (Inr s')" and "thr s' t = Outside 0"
  shows "\<exists>u b. u \<noteq> t \<and> thr s u = ExecAt i b \<and> thr s' u = ExecAt i b"
proof -
  note inv = reachable_sync_inv[OF assms(1)]
  have "thr s' t = (case ds_wait_loop i (glob s) of Returns rc \<Rightarrow> Outside rc | Sleeps i \<Rightarrow> WaitAt i True)"
    using assms(2,3) by (auto simp: after_def settle_def)
  then have "in_syncwait (point (glob s) ! i)"
    using assms(4) by (auto simp: ds_wait_loop_def split: if_splits)
  moreover have "i < length (point (glob s))"
    using sync_invD(1)[OF inv, of t i False] assms(2) by simp
  ultimately obtain u b where u: "thr s u = ExecAt i b"
    using sync_invD(3)[OF inv, of i] by blast
  then have "u \<noteq> t"
    using assms(2) by auto
  moreover have "thr s' u = ExecAt i b"
    using u \<open>u \<noteq> t\<close> assms(2,3) by (auto simp: after_def settle_def)
  ultimately show ?thesis
    using u by blast
qed

text \<open>
  No lost wake-up in \<open>ds_exec\<close>.  A thread asleep in \<open>ds_exec\<close> is at an existing point that is
  enabled, still in sync-wait and has blocked waiting sections: whoever ends one of these wakes it.
\<close>
theorem ds_exec_sleeper:
  assumes "reachable fl s" and "thr s t = ExecAt i True"
  shows "i < length (point (glob s)) \<and> is_enabled (point (glob s) ! i) \<and>
    in_syncwait (point (glob s) ! i) \<and> 0 < nblocked (point (glob s) ! i)"
  using sync_invD[OF reachable_sync_inv[OF assms(1)]] assms(2) by metis

text \<open>
  No lost wake-up in \<open>ds_wait\<close>, when threads unblock only what they have waited for: a thread
  asleep in \<open>ds_wait\<close> is at an enabled point that is not in sync-wait and counts it as blocked.
\<close>
theorem ds_wait_sleeper:
  assumes "obedient fl N s owed" and "thr s t = WaitAt i True"
  shows "is_enabled (point (glob s) ! i) \<and> \<not> in_syncwait (point (glob s) ! i) \<and>
    0 < nblocked (point (glob s) ! i)"
  using obedient_disc_inv[OF assms(1)] assms(2)
    disc_waiter(2)[OF obedient_disc_inv[OF assms(1)] reachable_sync_inv[OF obedient_reachable[OF assms(1)]] assms(2)]
  by (auto simp: disc_inv_def wait_inv_def)

text \<open>
  C19: when threads unblock only what they have waited for, no thread ever runs into the assertion of
  \<open>ds_unblock\<close> that the point has a blocked section.
\<close>
theorem ds_unblock_never_asserts:
  assumes "obedient fl N s owed" and "t < N" and "allowed s t l owed"
  shows "ds_step s t l \<noteq> Some (Inl e)"
proof
  assume bad: "ds_step s t l = Some (Inl e)"
  then obtain mem n where l: "l = Lock mem" "thr s t = Entered (CUnblock n)" "ds_unblock n (glob s) = Inl e"
    by (cases l) (auto simp: locked_def cbind_eq_Inl split: thread.splits call.splits bool.splits prod.splits)
  then obtain i where i: "\<not> inactive (glob s)" "look_up n (glob s) = Some i" "nblocked (point (glob s) ! i) = 0"
    by (auto simp: ds_unblock_def cbind_eq_Inl cassert_eq_Inl Let_def split: if_splits option.splits)
  have "0 < owed t i"
    using assms(3) l i by (simp add: allowed_def)
  then have "0 < demand N (thr s) owed i"
    unfolding demand_def using assms(2) by (subst sum.remove[of _ t]) auto
  moreover have "demand N (thr s) owed i \<le> nblocked (point (glob s) ! i)"
    using obedient_disc_inv[OF assms(1)] look_up_lt[OF i(2)] by (simp add: disc_inv_def)
  ultimately show False
    using i(3) by simp
qed

text \<open>
  The table never holds more than 256 points, and a point's name never more than 32
  characters; a name longer than that is never found again, so that \<open>ds_unblock\<close> of it fails
  although \<open>ds_wait\<close> of it has registered a point.
\<close>
theorem ds_table_bounds:
  assumes "reachable fl s"
  shows "length (point (glob s)) \<le> 256 \<and> (32 < length n \<longrightarrow> look_up n (glob s) = None \<and>
    ds_unblock n (glob s) = Inr (glob s, False, Returns (-1)))"
proof -
  have ok: "table_ok (glob s)"
    using assms by (rule reachable_table)
  have "look_up n (glob s) = None" if "32 < length n"
  proof (rule ccontr)
    assume "look_up n (glob s) \<noteq> None"
    then obtain i where "look_up n (glob s) = Some i"
      by blast
    then have "pname (point (glob s) ! i) = n" "i < length (point (glob s))"
      using look_up_name look_up_lt by blast+
    then show False
      using ok that nth_mem by (fastforce simp: table_ok_def DS_MAX_POINT_NAME_LEN_def)
  qed
  then show ?thesis
    using ok by (auto simp: table_ok_def DS_MAX_POINT_COUNT_def ds_unblock_def)
qed

section \<open>Runs\<close>

fun ds_run :: "sys \<Rightarrow> (nat \<times> label) list \<Rightarrow> sys option" where
  "ds_run s [] = Some s"
| "ds_run s ((t, l) # ls) =
     (case ds_step s t l of Some (Inr s') \<Rightarrow> ds_run s' ls | _ \<Rightarrow> None)"

lemma reachable_run:
  assumes "reachable fl s" and "ds_run s ls = Some s'"
  shows "reachable fl s'"
  using assms
proof (induction ls arbitrary: s)
  case (Cons tl ls)
  then show ?case
    by (cases tl) (auto simp del: ds_step.simps split: option.splits sum.splits intro: reachable.step)
qed simp

fun obedient_run :: "sys \<Rightarrow> debts \<Rightarrow> (nat \<times> label) list \<Rightarrow> (sys \<times> debts) option" where
  "obedient_run s owed [] = Some (s, owed)"
| "obedient_run s owed ((t, l) # ls) =
     (case ds_step s t l of
        Some (Inr s') \<Rightarrow> if allowed s t l owed then obedient_run s' (debts_after s t l s' owed) ls else None
      | _ \<Rightarrow> None)"

lemma obedient_runI:
  assumes "obedient fl N s owed" and "obedient_run s owed ls = Some (s', owed')" and "list_all (\<lambda>(t, l). t < N) ls"
  shows "obedient fl N s' owed'"
  using assms
proof (induction ls arbitrary: s owed)
  case (Cons tl ls)
  then show ?case
    by (cases tl) (auto simp del: ds_step.simps split: option.splits sum.splits if_splits intro: obedient.step)
qed simp

lemmas run_defs = sys_init_def ds_init_def invoke_def local_inactive_def inactive_def DS_ACTIVE_def DS_GLOBAL_def
  locked_def after_def settle_def ds_wait_def ds_exec_def acquire_def look_up_def create_new_def upd_def
  DS_MAX_POINT_COUNT_def DS_MAX_POINT_NAME_LEN_def ds_wait_loop_def ds_exec_loop_def ds_enable_def ds_unblock_def
  Let_def

definition handshake :: "(nat \<times> label) list" where
  "handshake = [(0, Invoke (CWait ''p'')), (0, Lock True), (1, Invoke (CExec ''p'')), (1, Lock True)]"

definition held :: sys where
  "held = \<lparr>glob = \<lparr>activation = 1,
      point = [\<lparr>pname = ''p'', is_enabled = True, in_syncwait = True, nblocked = 1\<rparr>]\<rparr>,
    thr = (\<lambda>t. if t = 0 then WaitAt 0 False else if t = 1 then ExecAt 0 True else Outside 0)\<rparr>"

lemma held_run: "ds_run (sys_init 1) handshake = Some held"
  by (simp add: handshake_def held_def run_defs fun_eq_iff)

lemma held_reachable: "reachable 1 held"
  using reachable_run[OF reachable.init held_run] .

theorem ds_wait_rendezvous_witness:
  "\<exists>u b. u \<noteq> 0 \<and> thr held u = ExecAt 0 b \<and> thr (held\<lparr>thr := (thr held)(0 := Outside 0)\<rparr>) u = ExecAt 0 b"
proof -
  have "ds_step held 0 Resume = Some (Inr (held\<lparr>thr := (thr held)(0 := Outside 0)\<rparr>))"
    by (simp add: held_def run_defs)
  then show ?thesis
    using ds_wait_rendezvous[OF held_reachable, of 0 0 "held\<lparr>thr := (thr held)(0 := Outside 0)\<rparr>"]
    by (simp add: held_def)
qed

theorem ds_exec_sleeper_witness:
  "0 < length (point (glob held)) \<and> is_enabled (point (glob held) ! 0) \<and>
    in_syncwait (point (glob held) ! 0) \<and> 0 < nblocked (point (glob held) ! 0)"
  using ds_exec_sleeper[OF held_reachable, of 1 0] by (simp add: held_def)

definition waiting :: sys where
  "waiting = \<lparr>glob = \<lparr>activation = 1,
      point = [\<lparr>pname = ''p'', is_enabled = True, in_syncwait = False, nblocked = 1\<rparr>]\<rparr>,
    thr = (\<lambda>t. if t = 0 then WaitAt 0 True else Outside 0)\<rparr>"

lemma waiting_obedient: "obedient 1 2 waiting (\<lambda>_ _. 0)"
proof (rule obedient_runI[OF obedient.init])
  show "obedient_run (sys_init 1) (\<lambda>_ _. 0) [(0, Invoke (CWait ''p'')), (0, Lock True)] =
      Some (waiting, \<lambda>_ _. 0)"
    by (simp add: waiting_def run_defs fun_eq_iff allowed_def debts_after_def)
qed simp

theorem ds_wait_sleeper_witness:
  "is_enabled (point (glob waiting) ! 0) \<and> \<not> in_syncwait (point (glob waiting) ! 0) \<and>
    0 < nblocked (point (glob waiting) ! 0)"
  using ds_wait_sleeper[OF waiting_obedient, of 0 0] by (simp add: waiting_def)

definition answering :: sys where
  "answering = \<lparr>glob = glob held,
    thr = (\<lambda>t. if t = 0 then Entered (CUnblock ''p'') else if t = 1 then ExecAt 0 True else Outside 0)\<rparr>"

lemma answering_obedient: "obedient 1 2 answering (\<lambda>t i. if t = 0 \<and> i = 0 then 1 else 0)"
proof (rule obedient_runI[OF obedient.init])
  show "obedient_run (sys_init 1) (\<lambda>_ _. 0) (handshake @ [(0, Resume), (0, Invoke (CUnblock ''p''))]) =
      Some (answering, \<lambda>t i. if t = 0 \<and> i = 0 then 1 else 0)"
    by (simp add: handshake_def answering_def held_def run_defs fun_eq_iff allowed_def debts_after_def owe_def)
qed (simp add: handshake_def)

theorem ds_unblock_never_asserts_witness:
  "ds_step answering 0 (Lock True) \<noteq> Some (Inl AssertFailed)"
  by (rule ds_unblock_never_asserts[OF answering_obedient])
     (simp_all add: allowed_def answering_def held_def run_defs)

text \<open>
  Without the protocol the wake-up is lost: after an early \<open>ds_unblock\<close> by another thread
  the waiter sleeps on, uncounted, and disabling its point does not wake it.
\<close>
theorem ds_early_unblock_loses_wakeup:
  "\<exists>s. reachable 1 s \<and> thr s 0 = WaitAt 0 True \<and> thr s 1 = Outside 0 \<and>
    \<not> is_enabled (point (glob s) ! 0) \<and> nblocked (point (glob s) ! 0) = 0"
proof -
  let ?run = "[(0, Invoke (CWait ''p'')), (0, Lock True), (1, Invoke (CUnblock ''p'')), (1, Lock True),
    (0, Resume), (1, Invoke (CEnable ''p'' False)), (1, Lock True)]"
  obtain s where s: "ds_run (sys_init 1) ?run = Some s" "thr s 0 = WaitAt 0 True" "thr s 1 = Outside 0"
      "\<not> is_enabled (point (glob s) ! 0)" "nblocked (point (glob s) ! 0) = 0"
    by (simp add: run_defs)
  then show ?thesis
    using reachable_run[OF reachable.init s(1)] by blast
qed

text \<open>
  A wait that fails because its point is disabled leaves its count behind, even when every
  thread follows the protocol: once the point is enabled again \<open>ds_exec\<close> goes to sleep there
  although no thread waits and none owes an answer.
\<close>
theorem ds_exec_held_by_nobody:
  "\<exists>s owed. obedient 1 2 s owed \<and> thr s 1 = ExecAt 0 True \<and> thr s 0 = Outside (-1) \<and> demand 2 (thr s) owed 0 = 0"
proof -
  let ?run = "[(0, Invoke (CWait ''p'')), (0, Lock True), (1, Invoke (CEnable ''p'' False)), (1, Lock True),
    (0, Resume), (1, Invoke (CEnable ''p'' True)), (1, Lock True), (1, Invoke (CExec ''p'')), (1, Lock True)]"
  obtain s owed where s: "obedient_run (sys_init 1) (\<lambda>_ _. 0) ?run = Some (s, owed)" "thr s 1 = ExecAt 0 True"
      "thr s 0 = Outside (-1)" "demand 2 (thr s) owed 0 = 0"
    by (simp add: run_defs allowed_def debts_after_def demand_def lessThan_Suc numeral_2_eq_2)
  moreover have "obedient 1 2 s owed"
    using s(1) by (rule obedient_runI[OF obedient.init]) simp
  ultimately show ?thesis
    by blast
qed

theorem ds_table_bounds_witness:
  "length (point (glob held)) \<le> 256 \<and> look_up (replicate 40 CHR ''x'') (glob held) = None \<and>
    ds_unblock (replicate 40 CHR ''x'') (glob held) = Inr (glob held, False, Returns (-1))"
  using ds_table_bounds[OF held_reachable, of "replicate 40 CHR ''x''"] by simp

end
