(* ===== verification/Wal.thy ===== *)
theory Wal
  imports Prelude "HOL-Library.Sublist"
begin

unbundle bit_operations_syntax

text \<open>
  \<open>wal/wbuft.c\<close>: the program that times ways of writing a log.  Modelled are the synchronizing
  thread and the requests to it, the two writers (one \<open>write\<close> or one \<open>writev\<close> per round), the
  loop over growing buffers, and the options with their checks.  The answers of the kernel
  (bytes written, errors of \<open>fsync\<close>, \<open>open\<close>, \<open>malloc\<close>) are parameters; timing and printing are left out.
\<close>

section \<open>Constants\<close>

definition MIN_BUFSZ :: nat where "MIN_BUFSZ = 1024"
definition MAX_BUFSZ :: nat where "MAX_BUFSZ = 1024 * 1024 * 512"
definition MIN_INCR :: nat where "MIN_INCR = 128"
definition MIN_NINCR :: nat where "MIN_NINCR = 1"
definition MAX_NINCR :: nat where "MAX_NINCR = 1024 * 1024"

definition sQUIT :: int where "sQUIT = -1"
definition sWAIT :: int where "sWAIT = 0"
definition sSYNC :: int where "sSYNC = 1"

definition SYNC_TYPE :: u32 where "SYNC_TYPE = 3"
definition SYNC_ALL :: u32 where "SYNC_ALL = 1"
definition SYNC_DATA :: u32 where "SYNC_DATA = 2"
definition FALLOC :: u32 where "FALLOC = 4"
definition FALLOC_SZ :: u32 where "FALLOC_SZ = 8"
definition SYNC_THREAD :: u32 where "SYNC_THREAD = 16"
definition SEQ_WRITE :: u32 where "SEQ_WRITE = 32"

lemmas mode_defs = SYNC_TYPE_def SYNC_ALL_def SYNC_DATA_def FALLOC_def FALLOC_SZ_def SYNC_THREAD_def SEQ_WRITE_def

record test_spec =
  mode_flags :: u32
  open_flags :: u32
  len :: nat
  niter :: nat
  incr :: nat
  nincr :: nat
  num_chunks :: nat

section \<open>Synchronizing\<close>

text \<open>The calls a synchronization makes, with their descriptor.\<close>

datatype sync_call = Fsync int | Fdatasync int

text \<open>\<open>fd_sync\<close>: the call it makes, if any, and its result; \<open>ans\<close> is what the call returns.\<close>

definition fd_sync :: "int \<Rightarrow> u32 \<Rightarrow> int \<Rightarrow> (sync_call list \<times> int) cresult" where
  "fd_sync fd fl ans =
     (let ty = fl AND SYNC_TYPE in
      if ty = 0 then Inr ([], 0)
      else if ty = SYNC_ALL then Inr ([Fsync fd], ans)
      else if ty = SYNC_DATA then Inr ([Fdatasync fd], ans)
      else Inl AssertFailed)"

text \<open>
  The shared state \<open>g_st\<close>, the synchronizing thread (ready to take the mutex, asleep on the
  condition variable, finished or never started), its count and the calls it has made.
\<close>

datatype worker = Ready | Asleep | Finished

record sync_state =
  state :: int
  sfd :: int
  sflags :: u32
  worker :: worker
  nsync :: nat
  calls :: "sync_call list"

definition sync_start :: sync_state where
  "sync_start = \<lparr>state = sWAIT, sfd = -1, sflags = 0, worker = Ready, nsync = 0, calls = []\<rparr>"

text \<open>\<open>toggle_sync_thread\<close>, under the mutex; the signal wakes the thread.\<close>

definition toggle_sync_thread :: "int \<Rightarrow> u32 \<Rightarrow> int \<Rightarrow> sync_state \<Rightarrow> sync_state" where
  "toggle_sync_thread fd fl st g =
     g\<lparr>sfd := fd, sflags := fl, state := st,
       worker := (case worker g of Asleep \<Rightarrow> Ready | w \<Rightarrow> w)\<rparr>"

definition stop_request :: "sync_state \<Rightarrow> sync_state" where
  "stop_request g = toggle_sync_thread (-1) 0 sQUIT g"

text \<open>
  One turn of \<open>thread_run\<close>: from the moment the thread has the mutex until it waits or exits;
  \<open>ans\<close> is the result of the call it makes.
\<close>

definition thread_turn :: "int \<Rightarrow> sync_state \<Rightarrow> sync_state cresult" where
  "thread_turn ans g =
     (if state g = sWAIT then Inr (g\<lparr>worker := Asleep\<rparr>)
      else if state g = sSYNC \<or> state g = sQUIT then
        cbind (fd_sync (sfd g) (sflags g) ans) (\<lambda>(cs, rc).
        let g = g\<lparr>calls := calls g @ cs\<rparr> in
        if rc \<noteq> 0 then Inr (g\<lparr>worker := Finished\<rparr>)
        else
          (let g = g\<lparr>nsync := nsync g + 1\<rparr> in
           if state g = sQUIT then Inr (g\<lparr>worker := Finished\<rparr>)
           else Inr (g\<lparr>state := sWAIT, worker := Asleep\<rparr>)))
      else Inr (g\<lparr>state := sWAIT, worker := Asleep\<rparr>))"

text \<open>What may happen: a request, the stop request, a turn of the thread, a spurious wake-up.\<close>

datatype event = Request int u32 | Stop | Turn int | Wake

fun sync_step :: "sync_state \<Rightarrow> event \<Rightarrow> sync_state cresult option" where
  "sync_step g (Request fd fl) = Some (Inr (toggle_sync_thread fd fl sSYNC g))"
| "sync_step g Stop = Some (Inr (stop_request g))"
| "sync_step g (Turn ans) = (if worker g = Ready then Some (thread_turn ans g) else None)"
| "sync_step g Wake = (if worker g = Asleep then Some (Inr (g\<lparr>worker := Ready\<rparr>)) else None)"

inductive sync_trace :: "event list \<Rightarrow> sync_state \<Rightarrow> bool" where
  start: "sync_trace [] sync_start"
| step: "sync_trace es g \<Longrightarrow> sync_step g e = Some (Inr g') \<Longrightarrow> sync_trace (es @ [e]) g'"

inductive_cases sync_traceE: "sync_trace es g"

text \<open>\<open>do_sync\<close>: a request to the thread, or the call itself.\<close>

definition do_sync :: "int \<Rightarrow> u32 \<Rightarrow> int \<Rightarrow> sync_state \<Rightarrow> (sync_state \<times> sync_call list \<times> int) cresult" where
  "do_sync fd fl ans g =
     (if fl AND SYNC_THREAD \<noteq> 0 then Inr (toggle_sync_thread fd fl sSYNC g, [], 0)
      else cbind (fd_sync fd fl ans) (\<lambda>(cs, rc). Inr (g, cs, rc)))"

section \<open>Writing\<close>

text \<open>
  The vectors of \<open>writev_nbuf\<close>: base offset and length; \<open>i\<close> is the index, \<open>p\<close> the position in
  the buffer, \<open>nleft\<close> what is left of it.
\<close>

fun iov_fill :: "nat \<Rightarrow> nat \<Rightarrow> nat \<Rightarrow> nat \<Rightarrow> nat \<Rightarrow> (nat \<times> nat) list \<times> nat" where
  "iov_fill 0 chunk_len i p nleft = ([], nleft)"
| "iov_fill (Suc k) chunk_len i p nleft =
     (if nleft = 0 then ([], nleft)
      else
        (let l = (if 0 < k then chunk_len else nleft);
             (iov, rest) = iov_fill k chunk_len (i + 1) (p + l) (nleft - l) in
         ((p, l) # iov, rest)))"

text \<open>
  What the environment answers in one round of a writer: what \<open>write\<close> (or \<open>writev\<close>) returned and
  errno, what the synchronizing call of the round returns if there is one, and the turns the
  synchronizing thread takes before the next round (the results of its calls).
\<close>

record write_ans =
  nwr :: int
  werr :: int
  sync_ans :: int
  turns :: "int list"

fun worker_turns :: "int list \<Rightarrow> sync_state \<Rightarrow> sync_state cresult" where
  "worker_turns [] g = Inr g"
| "worker_turns (a # as) g =
     (if worker g = Ready then cbind (thread_turn a g) (worker_turns as) else Inr g)"

text \<open>
  The rounds of a writer.  The result is the number the writer returns, the synchronizing calls of
  the writer itself, and the state shared with the thread; \<open>None\<close> when there are no more answers.
\<close>

type_synonym written = "(int \<times> sync_call list \<times> sync_state) option"

fun write_rounds :: "nat \<Rightarrow> int \<Rightarrow> u32 \<Rightarrow> nat \<Rightarrow> int \<Rightarrow> write_ans list \<Rightarrow> sync_state \<Rightarrow> written cresult" where
  "write_rounds 0 fd fl blen ntotal ans g = Inr (Some (ntotal, [], g))"
| "write_rounds (Suc j) fd fl blen ntotal [] g = Inr None"
| "write_rounds (Suc j) fd fl blen ntotal (a # ans) g =
     (if nwr a \<noteq> int blen then Inr (Some (if werr a = 0 then ntotal else - werr a, [], g))
      else
        cbind (if fl AND SYNC_TYPE \<noteq> 0 then do_sync fd fl (sync_ans a) g else Inr (g, [], 0))
          (\<lambda>(g, cs, rc). cbind (worker_turns (turns a) g)
          (\<lambda>g. cbind (write_rounds j fd fl blen (ntotal + nwr a) ans g)
          (\<lambda>r. Inr (map_option (\<lambda>(n, cs', g). (n, cs @ cs', g)) r)))))"

text \<open>\<open>seek\<close> is \<open>Some err\<close> when \<open>lseek\<close> fails; \<open>mem\<close> says whether \<open>calloc\<close> succeeds.\<close>

definition writev_nbuf ::
  "int option \<Rightarrow> bool \<Rightarrow> int \<Rightarrow> nat \<Rightarrow> test_spec \<Rightarrow> write_ans list \<Rightarrow> sync_state \<Rightarrow> written cresult" where
  "writev_nbuf seek mem fd blen sp ans g =
     cbind (cassert (1 < num_chunks sp \<and> num_chunks sp < blen)) (\<lambda>_.
     let chunk_len = blen div num_chunks sp in
     cbind (cassert (1 \<le> chunk_len)) (\<lambda>_.
     case (if mode_flags sp AND SEQ_WRITE = 0 then seek else None) of
       Some err \<Rightarrow> Inr (Some (- err, [], g))
     | None \<Rightarrow>
         if \<not> mem then Inr (Some (-1, [], g))
         else
           (case iov_fill (num_chunks sp) chunk_len 0 0 blen of (iov, nleft) \<Rightarrow>
            cbind (cassert (nleft = 0)) (\<lambda>_.
            write_rounds (niter sp) fd (mode_flags sp) blen 0 ans g))))"

definition write_nbuf ::
  "int option \<Rightarrow> int \<Rightarrow> nat \<Rightarrow> test_spec \<Rightarrow> write_ans list \<Rightarrow> sync_state \<Rightarrow> written cresult" where
  "write_nbuf seek fd blen sp ans g =
     (case (if mode_flags sp AND SEQ_WRITE = 0 then seek else None) of
        Some err \<Rightarrow> Inr (Some (- err, [], g))
      | None \<Rightarrow> write_rounds (niter sp) fd (mode_flags sp) blen 0 ans g)"

section \<open>The loop over buffers\<close>

text \<open>
  One round of \<open>run_odsync\<close>: whether \<open>malloc\<close> and \<open>calloc\<close> succeed, the seek and the answers of
  the writes.
\<close>

record round_env =
  mem_ok :: bool
  calloc_ok :: bool
  seek_err :: "int option"
  writes :: "write_ans list"

definition write_data :: "round_env \<Rightarrow> int \<Rightarrow> nat \<Rightarrow> test_spec \<Rightarrow> sync_state \<Rightarrow> written cresult" where
  "write_data e fd blen sp g =
     (if 0 < num_chunks sp then writev_nbuf (seek_err e) (calloc_ok e) fd blen sp (writes e) g
      else write_nbuf (seek_err e) fd blen sp (writes e) g)"

text \<open>
  What a run of the loop gives: the lengths of the buffers that were written in full, the return
  code, the synchronizing calls of the writers and the shared state.
\<close>

record outcome =
  done_lens :: "nat list"
  code :: int
  own_calls :: "sync_call list"
  shared :: sync_state

fun rounds :: "nat \<Rightarrow> nat \<Rightarrow> int \<Rightarrow> test_spec \<Rightarrow> round_env list \<Rightarrow> sync_state \<Rightarrow> outcome option cresult" where
  "rounds blen ni fd sp [] g =
     (if blen < MAX_BUFSZ \<and> ni < nincr sp then Inr None else Inr (Some (outcome.make [] 0 [] g)))"
| "rounds blen ni fd sp (e # es) g =
     (if blen < MAX_BUFSZ \<and> ni < nincr sp then
        if \<not> mem_ok e then Inr (Some (outcome.make [] ENOMEM [] g))
        else cbind (write_data e fd blen sp g) (\<lambda>r.
          case r of None \<Rightarrow> Inr None
          | Some (n, cs, g) \<Rightarrow>
              if n \<le> 0 then Inr (Some (outcome.make [] n cs g))
              else cbind (rounds (blen + incr sp) (ni + 1) fd sp es g) (\<lambda>t.
                Inr (map_option (\<lambda>out. out\<lparr>done_lens := blen # done_lens out, own_calls := cs @ own_calls out\<rparr>) t)))
      else Inr (Some (outcome.make [] 0 [] g)))"

text \<open>
  \<open>stop_sync_thread\<close>: the request, then \<open>pthread_join\<close>, that is the turn of a thread that has not
  finished.
\<close>

definition stop_sync_thread :: "sync_state \<Rightarrow> sync_state cresult" where
  "stop_sync_thread g = worker_turns [0] (stop_request g)"

text \<open>
  \<open>start_sync_thread\<close>: \<open>rc\<close> is the result of \<open>pthread_create\<close>; a thread that was not created never takes
  a turn.
\<close>

definition start_sync_thread :: "int \<Rightarrow> int \<times> sync_state" where
  "start_sync_thread rc = (rc, if rc = 0 then sync_start else sync_start\<lparr>worker := Finished\<rparr>)"

text \<open>
  \<open>run_odsync\<close>: \<open>opened\<close> is \<open>Inl err\<close> when \<open>open\<close> fails, \<open>falloc_rc\<close> and \<open>thread_rc\<close> are the
  results of \<open>fallocate\<close> and \<open>start_sync_thread\<close>.  Without a thread the shared state has a worker
  that is \<open>Finished\<close>.
\<close>

definition run_odsync ::
  "int + int \<Rightarrow> int \<Rightarrow> int \<Rightarrow> test_spec \<Rightarrow> round_env list \<Rightarrow> outcome option cresult" where
  "run_odsync opened falloc_rc thread_rc sp es =
     (case opened of Inl err \<Rightarrow> Inr (Some (outcome.make [] err [] (sync_start\<lparr>worker := Finished\<rparr>)))
      | Inr fd \<Rightarrow>
          (let thr = mode_flags sp AND SYNC_THREAD \<noteq> 0 \<and> mode_flags sp AND SYNC_TYPE \<noteq> 0;
               rc = (if mode_flags sp AND FALLOC \<noteq> 0 then falloc_rc else 0);
               (rc, g) = (if thr then start_sync_thread thread_rc else (rc, sync_start\<lparr>worker := Finished\<rparr>)) in
           cbind (if rc \<noteq> 0 then Inr (Some (outcome.make [] rc [] g))
                  else rounds (len sp) 0 fd sp es g) (\<lambda>t.
           case t of None \<Rightarrow> Inr None
           | Some out \<Rightarrow>
               if thr \<and> thread_rc = 0 then
                 cbind (stop_sync_thread (shared out)) (\<lambda>g. Inr (Some (out\<lparr>shared := g\<rparr>)))
               else Inr (Some out))))"

section \<open>Options\<close>

text \<open>
  \<open>getopt\<close> delivers the letters of its option string and a question mark for any other; the
  number is the option's argument after \<open>atol\<close>.
\<close>

definition opt_letters :: string where
  "opt_letters = ''ktfaidDSINFTUQ''"

definition getopt_letter :: "char \<Rightarrow> char" where
  "getopt_letter c = (if c \<in> set opt_letters then c else CHR ''?'')"

text \<open>Linux values of the open flags.\<close>

definition O_TRUNC :: u32 where "O_TRUNC = 0x200"
definition O_APPEND :: u32 where "O_APPEND = 0x400"
definition O_DIRECT :: u32 where "O_DIRECT = 0x4000"
definition O_SYNC :: u32 where "O_SYNC = 0x101000"
definition O_DSYNC :: u32 where "O_DSYNC = 0x1000"

definition add_mode :: "u32 \<Rightarrow> test_spec \<Rightarrow> test_spec" where
  "add_mode m sp = sp\<lparr>mode_flags := mode_flags sp OR m\<rparr>"

definition add_open :: "u32 \<Rightarrow> test_spec \<Rightarrow> test_spec" where
  "add_open m sp = sp\<lparr>open_flags := open_flags sp OR m\<rparr>"

text \<open>One option: \<open>Inl\<close> the code \<open>read_opt\<close> returns.\<close>

definition read_one :: "char \<Rightarrow> int \<Rightarrow> test_spec \<Rightarrow> int + test_spec" where
  "read_one opt lval sp =
     (if opt = CHR ''Q'' then Inr (add_mode SEQ_WRITE sp)
      else if opt = CHR ''T'' then Inr (add_mode SYNC_THREAD sp)
      else if opt = CHR ''F'' then Inr (add_mode FALLOC sp)
      else if opt = CHR ''k'' then Inr (add_mode FALLOC_SZ sp)
      else if opt = CHR ''t'' then Inr (add_open O_TRUNC sp)
      else if opt = CHR ''a'' then Inr (add_open O_APPEND sp)
      else if opt = CHR ''i'' then Inr (add_open O_DIRECT sp)
      else if opt = CHR ''s'' then Inr (add_open O_SYNC sp)
      else if opt = CHR ''f'' then Inr (add_open O_SYNC sp)
      else if opt = CHR ''d'' then Inr (add_open O_DSYNC sp)
      else if opt = CHR ''D'' then Inr (add_mode SYNC_DATA sp)
      else if opt = CHR ''S'' then Inr (add_mode SYNC_DATA sp)
      else if opt = CHR ''I'' then
        (if lval < int MIN_INCR \<or> int (MIN_INCR + MAX_NINCR * MIN_BUFSZ) < lval then Inl EINVAL
         else Inr (sp\<lparr>incr := nat lval\<rparr>))
      else if opt = CHR ''N'' then
        (if lval < int MIN_NINCR \<or> int MAX_NINCR < lval then Inl EINVAL else Inr (sp\<lparr>nincr := nat lval\<rparr>))
      else if opt = CHR ''U'' then
        (if lval < 2 then Inl EINVAL else Inr (sp\<lparr>num_chunks := nat lval\<rparr>))
      else Inl (-1))"

fun read_opt :: "(char \<times> int) list \<Rightarrow> test_spec \<Rightarrow> int + test_spec" where
  "read_opt [] sp = Inr sp"
| "read_opt ((c, lval) # opts) sp =
     (case read_one (getopt_letter c) lval sp of Inl rc \<Rightarrow> Inl rc | Inr sp \<Rightarrow> read_opt opts sp)"

definition spec_zero :: test_spec where
  "spec_zero = \<lparr>mode_flags = 0, open_flags = 0, len = 0, niter = 0, incr = 0, nincr = 0, num_chunks = 0\<rparr>"

text \<open>
  The checks of \<open>main\<close>.  \<open>args\<close> are the words that \<open>getopt\<close> leaves, each as \<open>atol\<close> reads it: the
  file name, the buffer size and the number of iterations.  \<open>Inl\<close> is the exit code; a word that
  is not there is the null pointer that ends \<open>argv\<close>, which \<open>atol\<close> dereferences.
\<close>

definition arg_number :: "int list \<Rightarrow> nat \<Rightarrow> int cresult" where
  "arg_number args i = (if i < length args then Inr (args ! i) else Inl BadPointer)"

definition main_checks :: "nat \<Rightarrow> (char \<times> int) list \<Rightarrow> int list \<Rightarrow> (int + test_spec) cresult" where
  "main_checks argc opts args =
     (if argc < 3 then Inr (Inl 1)
      else case read_opt opts spec_zero of Inl rc \<Rightarrow> Inr (Inl EINVAL)
      | Inr sp \<Rightarrow>
         if length args < 2 then Inr (Inl 1)
         else
           cbind (arg_number args 1) (\<lambda>bufsz.
           if bufsz < int MIN_BUFSZ \<or> int MAX_BUFSZ < bufsz then Inr (Inl EINVAL)
           else
             cbind (arg_number args 2) (\<lambda>n.
             if n \<le> 0 then Inr (Inl EINVAL)
             else
               (let sp = sp\<lparr>len := nat bufsz, niter := nat n\<rparr>;
                    sp = (if len sp = 0 then sp\<lparr>len := MIN_BUFSZ\<rparr> else sp);
                    sp = (if incr sp = 0 then sp\<lparr>incr := MIN_INCR\<rparr> else sp);
                    sp = (if nincr sp = 0 then sp\<lparr>nincr := MIN_NINCR\<rparr> else sp) in
                if len sp \<le> num_chunks sp then Inr (Inl EINVAL) else Inr (Inr sp)))))"

section \<open>What the options allow\<close>

text \<open>The mode words that ask for no synchronization or for \<open>fdatasync\<close>.\<close>

definition mode_ok :: "u32 \<Rightarrow> bool" where
  "mode_ok fl \<longleftrightarrow> fl AND SYNC_TYPE = 0 \<or> fl AND SYNC_TYPE = SYNC_DATA"

definition data_calls :: "sync_call list \<Rightarrow> bool" where
  "data_calls cs \<longleftrightarrow> (\<forall>c\<in>set cs. \<exists>fd. c = Fdatasync fd)"

definition sync_ok :: "sync_state \<Rightarrow> bool" where
  "sync_ok g \<longleftrightarrow> mode_ok (sflags g) \<and> data_calls (calls g)"

lemma data_calls_simps [simp]:
  "data_calls []" "data_calls (cs @ ds) \<longleftrightarrow> data_calls cs \<and> data_calls ds"
  "data_calls [Fdatasync fd]"
  by (auto simp: data_calls_def)

lemma mode_ok_0 [simp]: "mode_ok 0"
  by (simp add: mode_ok_def)

lemma sync_ok_start [simp]: "sync_ok sync_start"
  by (simp add: sync_ok_def sync_start_def)

lemma fd_sync_ok:
  "mode_ok fl \<Longrightarrow> fd_sync fd fl ans =
     Inr (if fl AND SYNC_TYPE = 0 then ([], 0) else ([Fdatasync fd], ans))"
  by (auto simp: mode_ok_def fd_sync_def Let_def mode_defs)

lemma toggle_ok: "mode_ok fl \<Longrightarrow> sync_ok g \<Longrightarrow> sync_ok (toggle_sync_thread fd fl st g)"
  by (simp add: sync_ok_def toggle_sync_thread_def)

lemma thread_turn_ok:
  assumes "sync_ok g"
  obtains g' where "thread_turn a g = Inr g'" and "sync_ok g'"
proof -
  have "\<exists>g'. thread_turn a g = Inr g' \<and> sync_ok g'"
    using assms by (simp add: thread_turn_def sync_ok_def fd_sync_ok Let_def)
  with that show ?thesis
    by blast
qed

lemma worker_turns_ok: "sync_ok g \<Longrightarrow> \<exists>g'. worker_turns as g = Inr g' \<and> sync_ok g'"
proof (induction as arbitrary: g)
  case (Cons a as)
  then show ?case
    by (cases "worker g = Ready") (auto elim: thread_turn_ok [of g a])
qed simp

lemma do_sync_ok:
  assumes "mode_ok fl" and "sync_ok g"
  obtains g' cs rc where "do_sync fd fl a g = Inr (g', cs, rc)" and "sync_ok g'" and "data_calls cs"
proof (cases "fl AND SYNC_THREAD \<noteq> 0")
  case True
  with that toggle_ok [OF assms] show ?thesis
    by (simp add: do_sync_def)
next
  case False
  show ?thesis
    by (rule that [of g "fst (if fl AND SYNC_TYPE = 0 then ([], 0) else ([Fdatasync fd], a))"
          "snd (if fl AND SYNC_TYPE = 0 then ([], 0) else ([Fdatasync fd], a))"])
       (use False assms in \<open>simp_all add: do_sync_def fd_sync_ok\<close>)
qed

text \<open>A good outcome of a writer: nothing was trapped and every call was \<open>fdatasync\<close>.\<close>

definition written_ok :: "written cresult \<Rightarrow> bool" where
  "written_ok r \<longleftrightarrow> (case r of Inl e \<Rightarrow> False | Inr None \<Rightarrow> True
     | Inr (Some (n, cs, g)) \<Rightarrow> data_calls cs \<and> sync_ok g)"

lemma written_ok_simps [simp]:
  "written_ok (Inr (Some (n, cs, g))) \<longleftrightarrow> data_calls cs \<and> sync_ok g"
  "written_ok (Inr None)"
  by (simp_all add: written_ok_def)

text \<open>What the writer does after a full write: its own call or the request, and the turns of the thread.\<close>

definition after_write :: "int \<Rightarrow> u32 \<Rightarrow> write_ans \<Rightarrow> sync_state \<Rightarrow> (sync_call list \<times> sync_state) cresult" where
  "after_write fd fl a g =
     cbind (if fl AND SYNC_TYPE \<noteq> 0 then do_sync fd fl (sync_ans a) g else Inr (g, [], 0))
       (\<lambda>(g, cs, rc). cbind (worker_turns (turns a) g) (\<lambda>g. Inr (cs, g)))"

lemma write_rounds_step:
  assumes "nwr a = int blen" and "after_write fd fl a g = Inr (cs, g')"
  shows "write_rounds (Suc j) fd fl blen ntotal (a # ans) g =
     cbind (write_rounds j fd fl blen (ntotal + int blen) ans g')
       (\<lambda>r. Inr (map_option (\<lambda>(n, cs', g). (n, cs @ cs', g)) r))"
  using assms by (auto simp: after_write_def cres split_beta split: prod.splits if_splits)

lemma after_write_ok:
  assumes "mode_ok fl" and "sync_ok g"
  obtains cs g' where "after_write fd fl a g = Inr (cs, g')" and "data_calls cs" and "sync_ok g'"
proof -
  obtain g1 cs rc where g1: "(if fl AND SYNC_TYPE \<noteq> 0 then do_sync fd fl (sync_ans a) g else Inr (g, [], 0))
      = Inr (g1, cs, rc)" "sync_ok g1" "data_calls cs"
    using assms do_sync_ok [OF assms] by (metis data_calls_simps(1))
  with worker_turns_ok [OF g1(2), of "turns a"] that show ?thesis
    unfolding after_write_def by (auto simp only: cbind_Inr split)
qed

lemma write_rounds_ok:
  assumes "mode_ok fl" and "sync_ok g"
  shows "written_ok (write_rounds j fd fl blen ntotal ans g)"
  using assms(2)
proof (induction j arbitrary: ntotal ans g)
  case (Suc j)
  show ?case
  proof (cases ans)
    case (Cons a as)
    show ?thesis
    proof (cases "nwr a = int blen")
      case True
      obtain cs g' where "after_write fd fl a g = Inr (cs, g')" "data_calls cs" "sync_ok g'"
        using after_write_ok [OF assms(1) Suc.prems] .
      with Suc.IH [of g' "ntotal + int blen" as] write_rounds_step [OF True] show ?thesis
        by (auto simp: Cons written_ok_def cbind_def split: sum.splits option.splits prod.splits simp del: write_rounds.simps)
    qed (simp add: Cons Suc.prems)
  qed simp
qed simp

section \<open>The vectors\<close>

text \<open>The piece of the buffer a vector names.\<close>

definition vec_data :: "'a list \<Rightarrow> nat \<times> nat \<Rightarrow> 'a list" where
  "vec_data buf v = take (snd v) (drop (fst v) buf)"

lemma vec_data_pair [simp]: "vec_data buf (p, l) = take l (drop p buf)"
  by (simp add: vec_data_def)

lemma iov_fill_spec:
  assumes "0 < k" and "0 < c" and "k * c \<le> nleft" and "p + nleft = length buf"
  shows "snd (iov_fill k c i p nleft) = 0"
    and "length (fst (iov_fill k c i p nleft)) = k"
    and "concat (map (vec_data buf) (fst (iov_fill k c i p nleft))) = drop p buf"
proof -
  have "snd (iov_fill k c i p nleft) = 0 \<and> length (fst (iov_fill k c i p nleft)) = k
    \<and> concat (map (vec_data buf) (fst (iov_fill k c i p nleft))) = drop p buf"
    using assms
  proof (induction k c i p nleft rule: iov_fill.induct)
    case (2 k c i p nleft)
    note prems = 2(2-5)
    have pos: "0 < nleft"
      using prems by (cases nleft) simp_all
    show ?case
    proof (cases "0 < k")
      case True
      have le: "c + k * c \<le> nleft"
        using prems by simp
      obtain iov r where it: "iov_fill k c (i + 1) (p + c) (nleft - c) = (iov, r)"
        by (cases "iov_fill k c (i + 1) (p + c) (nleft - c)")
      have ih: "r = 0 \<and> length iov = k \<and> concat (map (vec_data buf) iov) = drop (p + c) buf"
        using 2(1) [of c] it True pos le prems by simp
      show ?thesis
        using ih it True pos append_take_drop_id [of c "drop p buf"]
        by (simp add: add.commute [of p c])
    next
      case False
      then show ?thesis
        using pos prems by simp
    qed
  qed simp
  then show "snd (iov_fill k c i p nleft) = 0"
    and "length (fst (iov_fill k c i p nleft)) = k"
    and "concat (map (vec_data buf) (fst (iov_fill k c i p nleft))) = drop p buf"
    by simp_all
qed


section \<open>Specifications that pass the checks\<close>

definition opts_ok :: "test_spec \<Rightarrow> bool" where
  "opts_ok sp \<longleftrightarrow> mode_ok (mode_flags sp)
     \<and> (incr sp = 0 \<or> MIN_INCR \<le> incr sp \<and> incr sp \<le> MIN_INCR + MAX_NINCR * MIN_BUFSZ)
     \<and> (nincr sp = 0 \<or> MIN_NINCR \<le> nincr sp \<and> nincr sp \<le> MAX_NINCR)
     \<and> (num_chunks sp = 0 \<or> 2 \<le> num_chunks sp)"

definition spec_ok :: "test_spec \<Rightarrow> bool" where
  "spec_ok sp \<longleftrightarrow> opts_ok sp \<and> 0 < incr sp \<and> 0 < nincr sp
     \<and> MIN_BUFSZ \<le> len sp \<and> len sp \<le> MAX_BUFSZ \<and> 0 < niter sp \<and> num_chunks sp < len sp"

lemma mode_ok_or:
  assumes "mode_ok fl" and "m AND SYNC_TYPE = 0 \<or> m = SYNC_DATA"
  shows "mode_ok (fl OR m)"
proof -
  have "(fl OR m) AND SYNC_TYPE = (fl AND SYNC_TYPE) OR (m AND SYNC_TYPE)"
    by (simp add: bit.conj_disj_distrib2)
  moreover have "SYNC_DATA AND SYNC_TYPE = SYNC_DATA"
    by (simp add: mode_defs)
  ultimately show ?thesis
    using assms by (auto simp: mode_ok_def)
qed

lemma add_mode_ok:
  "opts_ok sp \<Longrightarrow> m AND SYNC_TYPE = 0 \<or> m = SYNC_DATA \<Longrightarrow> opts_ok (add_mode m sp)"
  by (simp add: opts_ok_def add_mode_def mode_ok_or)

lemma add_open_ok: "opts_ok (add_open m sp) = opts_ok sp"
  by (simp add: opts_ok_def add_open_def)

lemma plain_modes:
  "SEQ_WRITE AND SYNC_TYPE = 0" "SYNC_THREAD AND SYNC_TYPE = 0" "FALLOC AND SYNC_TYPE = 0"
  "FALLOC_SZ AND SYNC_TYPE = 0"
  by (simp_all add: mode_defs)

lemma read_one_ok:
  assumes "opts_ok sp" and "read_one c l sp = Inr sp'"
  shows "opts_ok sp'"
proof -
  have lim: "opts_ok (sp\<lparr>incr := nat l\<rparr>)"
      if "\<not> (l < int MIN_INCR \<or> int (MIN_INCR + MAX_NINCR * MIN_BUFSZ) < l)"
    using assms(1) that by (simp add: opts_ok_def nat_le_iff) linarith
  have limn: "opts_ok (sp\<lparr>nincr := nat l\<rparr>)" if "\<not> (l < int MIN_NINCR \<or> int MAX_NINCR < l)"
    using assms(1) that by (auto simp: opts_ok_def)
  have limc: "opts_ok (sp\<lparr>num_chunks := nat l\<rparr>)" if "\<not> l < 2"
    using assms(1) that by (auto simp: opts_ok_def)
  note opt_ok = add_mode_ok [OF assms(1)] plain_modes lim limn limc
  show ?thesis
    using assms opt_ok unfolding read_one_def
    by (simp only: split: if_splits) (auto simp: add_open_ok)
qed

lemma read_opt_ok: "opts_ok sp \<Longrightarrow> read_opt opts sp = Inr sp' \<Longrightarrow> opts_ok sp'"
  by (induction opts sp rule: read_opt.induct) (auto split: sum.splits dest: read_one_ok)

lemma spec_zero_ok: "opts_ok spec_zero"
  by (simp add: opts_ok_def spec_zero_def)

lemma main_checks_ok:
  assumes "main_checks argc opts args = Inr (Inr sp)"
  shows "spec_ok sp"
proof -
  obtain sp0 where r: "read_opt opts spec_zero = Inr sp0"
    using assms by (auto simp: main_checks_def split: if_splits sum.splits)
  note ok = read_opt_ok [OF spec_zero_ok r]
  show ?thesis
    using assms r ok
    by (auto simp: main_checks_def cres Let_def spec_ok_def opts_ok_def MIN_INCR_def MIN_NINCR_def MIN_BUFSZ_def
        MAX_NINCR_def split: if_splits)
qed


section \<open>The runs\<close>

lemma writers_ok:
  assumes "spec_ok sp" and "sync_ok g" and "len sp \<le> blen"
  shows "written_ok (write_data e fd blen sp g)"
proof -
  have m: "mode_ok (mode_flags sp)" and nc: "num_chunks sp < blen"
    "num_chunks sp = 0 \<or> 1 < num_chunks sp"
    using assms by (auto simp: spec_ok_def opts_ok_def)
  note wr = write_rounds_ok [OF m assms(2)]
  show ?thesis
  proof (cases "num_chunks sp = 0")
    case True
    then show ?thesis
      using wr assms(2) by (simp add: write_data_def write_nbuf_def split: option.split)
  next
    case False
    then have c: "1 < num_chunks sp" "0 < blen div num_chunks sp"
      using nc by (auto simp: div_greater_zero_iff)
    have "snd (iov_fill (num_chunks sp) (blen div num_chunks sp) 0 0 blen) = 0"
      by (rule iov_fill_spec(1) [where buf = "replicate blen ()"]) (use c in simp_all)
    then show ?thesis
      using wr assms(2) c nc
      by (auto simp: write_data_def writev_nbuf_def Let_def split: option.split prod.split)
  qed
qed

definition outcome_ok :: "nat \<Rightarrow> nat \<Rightarrow> test_spec \<Rightarrow> outcome option cresult \<Rightarrow> bool" where
  "outcome_ok blen ni sp r \<longleftrightarrow> (case r of Inl e \<Rightarrow> False | Inr None \<Rightarrow> True
     | Inr (Some out) \<Rightarrow>
         data_calls (own_calls out) \<and> sync_ok (shared out)
         \<and> done_lens out = map (\<lambda>i. blen + i * incr sp) [0..<length (done_lens out)]
         \<and> (\<forall>l\<in>set (done_lens out). l < MAX_BUFSZ)
         \<and> ni + length (done_lens out) \<le> max ni (nincr sp))"

lemma outcome_ok_Some:
  "outcome_ok blen ni sp (Inr (Some out)) \<longleftrightarrow> data_calls (own_calls out) \<and> sync_ok (shared out)
     \<and> done_lens out = map (\<lambda>i. blen + i * incr sp) [0..<length (done_lens out)]
     \<and> (\<forall>l\<in>set (done_lens out). l < MAX_BUFSZ)
     \<and> ni + length (done_lens out) \<le> max ni (nincr sp)"
  by (simp add: outcome_ok_def)

lemma outcome_ok_None [simp]: "outcome_ok blen ni sp (Inr None)"
  by (simp add: outcome_ok_def)

lemma outcome_ok_make [simp]:
  "outcome_ok blen ni sp (Inr (Some (outcome.make [] rc cs g))) \<longleftrightarrow> data_calls cs \<and> sync_ok g"
  by (simp add: outcome_ok_Some outcome.make_def)

lemma outcome_ok_add:
  assumes "outcome_ok (blen + incr sp) (ni + 1) sp (Inr (Some out))" and "data_calls cs" and "blen < MAX_BUFSZ" and "ni < nincr sp"
  shows "outcome_ok blen ni sp
    (Inr (Some (out\<lparr>done_lens := blen # done_lens out, own_calls := cs @ own_calls out\<rparr>)))"
proof -
  define n where "n = length (done_lens out)"
  have "map (\<lambda>i. blen + i * incr sp) [0..<Suc n]
    = blen # map (\<lambda>i. blen + incr sp + i * incr sp) [0..<n]"
    by (simp add: map_upt_Suc add.assoc del: upt_Suc)
  with assms show ?thesis
    by (simp add: outcome_ok_Some n_def del: upt_Suc)
qed

lemma rounds_ok:
  assumes "spec_ok sp" and "sync_ok g" and "len sp \<le> blen"
  shows "outcome_ok blen ni sp (rounds blen ni fd sp es g)"
  using assms(2,3)
proof (induction es arbitrary: blen ni g)
  case (Cons e es)
  show ?case
  proof (cases "blen < MAX_BUFSZ \<and> ni < nincr sp \<and> mem_ok e")
    case True
    note w = writers_ok [OF assms(1) Cons.prems, of e fd]
    show ?thesis
    proof (cases "write_data e fd blen sp g")
      case (Inr r)
      show ?thesis
      proof (cases r)
        case (Some t)
        obtain n cs g' where t: "t = (n, cs, g')"
          by (cases t)
        have ok: "data_calls cs" "sync_ok g'"
          using w Inr Some t by simp_all
        have IH: "outcome_ok (blen + incr sp) (ni + 1) sp (rounds (blen + incr sp) (ni + 1) fd sp es g')"
          using Cons.IH [OF ok(2)] Cons.prems by simp
        show ?thesis
        proof (cases "n \<le> 0")
          case False
          consider "rounds (blen + incr sp) (ni + 1) fd sp es g' = Inr None"
            | out where "rounds (blen + incr sp) (ni + 1) fd sp es g' = Inr (Some out)"
            using IH by (auto simp: outcome_ok_def split: sum.splits option.splits)
          then show ?thesis
            using IH True False Inr Some t ok outcome_ok_add by cases auto
        qed (use True Inr Some t ok in simp)
      qed (use True Inr in simp)
    qed (use w in \<open>simp add: written_ok_def\<close>)
  qed (use Cons.prems in simp)
qed simp

lemma outcome_okE:
  assumes "outcome_ok blen ni sp r"
  obtains "r = Inr None" | out where "r = Inr (Some out)"
    and "data_calls (own_calls out)" and "sync_ok (shared out)"
    and "done_lens out = map (\<lambda>i. blen + i * incr sp) [0..<length (done_lens out)]"
    and "\<forall>l\<in>set (done_lens out). l < MAX_BUFSZ"
    and "ni + length (done_lens out) \<le> max ni (nincr sp)"
  using assms by (auto simp: outcome_ok_def split: sum.splits option.splits)

lemma stop_ok:
  assumes "sync_ok g"
  obtains g' where "stop_sync_thread g = Inr g'" and "sync_ok g'"
  using worker_turns_ok [of "stop_request g" "[0]"] toggle_ok [OF mode_ok_0 assms]
  by (auto simp: stop_sync_thread_def stop_request_def)

definition close_run :: "bool \<Rightarrow> outcome option \<Rightarrow> outcome option cresult" where
  "close_run thr t = (case t of None \<Rightarrow> Inr None
     | Some out \<Rightarrow> if thr then cbind (stop_sync_thread (shared out)) (\<lambda>g. Inr (Some (out\<lparr>shared := g\<rparr>)))
                   else Inr (Some out))"

lemma close_run_ok:
  assumes "outcome_ok blen ni sp r"
  shows "outcome_ok blen ni sp (cbind r (close_run thr))"
  using assms
proof (cases rule: outcome_okE)
  case (2 out)
  obtain g' where "stop_sync_thread (shared out) = Inr g'" "sync_ok g'"
    using stop_ok [OF 2(3)] .
  with 2 show ?thesis
    by (simp add: close_run_def outcome_ok_Some)
qed (simp add: close_run_def)

text \<open>A run on an open file: the loop, unless the preparation failed, and the end of the thread.\<close>

lemma run_odsync_closed:
  obtains g rc thr where "sync_ok g" and "\<forall>es. run_odsync (Inr fd) f t sp es =
    cbind (if rc \<noteq> 0 then Inr (Some (outcome.make [] rc [] g)) else rounds (len sp) 0 fd sp es g) (close_run thr)"
proof -
  define thr where "thr \<longleftrightarrow> mode_flags sp AND SYNC_THREAD \<noteq> 0 \<and> mode_flags sp AND SYNC_TYPE \<noteq> 0"
  define g where "g = (if thr \<and> t = 0 then sync_start else sync_start\<lparr>worker := Finished\<rparr>)"
  define rc where "rc = (if thr then t else if mode_flags sp AND FALLOC \<noteq> 0 then f else 0)"
  have close: "(\<lambda>x. case x of None \<Rightarrow> Inr None
      | Some out \<Rightarrow> if thr \<and> t = 0 then cbind (stop_sync_thread (shared out)) (\<lambda>g. Inr (Some (out\<lparr>shared := g\<rparr>)))
          else Inr (Some out)) = close_run (thr \<and> t = 0)"
    by (rule ext) (simp add: close_run_def)
  show thesis
  proof (rule that [of g rc "thr \<and> t = 0"])
    show "sync_ok g"
      by (simp add: g_def sync_ok_def sync_start_def)
    show "\<forall>es. run_odsync (Inr fd) f t sp es =
        cbind (if rc \<noteq> 0 then Inr (Some (outcome.make [] rc [] g)) else rounds (len sp) 0 fd sp es g)
          (close_run (thr \<and> t = 0))"
      unfolding run_odsync_def Let_def sum.case thr_def [symmetric] close
      by (cases thr) (simp_all add: start_sync_thread_def rc_def g_def)
  qed
qed

lemma run_odsync_ok:
  assumes "spec_ok sp"
  shows "outcome_ok (len sp) 0 sp (run_odsync opened f t sp es)"
proof (cases opened)
  case (Inr fd)
  obtain g rc thr where g: "sync_ok g" and run: "\<forall>es. run_odsync (Inr fd) f t sp es =
      cbind (if rc \<noteq> 0 then Inr (Some (outcome.make [] rc [] g)) else rounds (len sp) 0 fd sp es g) (close_run thr)"
    using run_odsync_closed [of fd f t sp] by blast
  show ?thesis
    unfolding Inr run [rule_format, of es]
    by (rule close_run_ok) (use rounds_ok [OF assms g order_refl] g in simp)
qed (simp add: run_odsync_def sync_ok_def sync_start_def)


section \<open>The protocol with the thread\<close>

text \<open>The call a request asks for, and those of a list of events.\<close>

definition call_of :: "int \<Rightarrow> u32 \<Rightarrow> sync_call list" where
  "call_of fd fl = (if fl AND SYNC_TYPE = 0 then []
     else if fl AND SYNC_TYPE = SYNC_ALL then [Fsync fd] else [Fdatasync fd])"

definition requested :: "event list \<Rightarrow> sync_call list" where
  "requested es = concat (map (\<lambda>e. case e of Request fd fl \<Rightarrow> call_of fd fl | _ \<Rightarrow> []) es)"

lemma requested_simps [simp]:
  "requested [] = []" "requested (es @ [Request fd fl]) = requested es @ call_of fd fl"
  "requested (es @ [Stop]) = requested es" "requested (es @ [Turn a]) = requested es"
  "requested (es @ [Wake]) = requested es"
  by (simp_all add: requested_def)

lemma fd_sync_call_of: "fd_sync fd fl a = Inr (cs, rc) \<Longrightarrow> cs = call_of fd fl"
  by (auto simp: fd_sync_def call_of_def Let_def split: if_splits)

lemma call_of_0 [simp]: "call_of fd 0 = []"
  by (simp add: call_of_def)

lemmas state_codes = sQUIT_def sWAIT_def sSYNC_def

definition sync_inv :: "event list \<Rightarrow> sync_state \<Rightarrow> bool" where
  "sync_inv es g \<longleftrightarrow> state g \<in> {sQUIT, sWAIT, sSYNC}
     \<and> (state g = sQUIT \<longrightarrow> sflags g = 0)
     \<and> (worker g = Asleep \<longrightarrow> state g = sWAIT)
     \<and> subseq (calls g) (requested es)
     \<and> (state g = sSYNC \<and> worker g \<noteq> Finished \<longrightarrow>
          subseq (calls g @ call_of (sfd g) (sflags g)) (requested es))"

lemma sync_inv_start: "sync_inv [] sync_start"
  by (simp add: sync_inv_def sync_start_def state_codes)

lemma sync_inv_request: "sync_inv es g \<Longrightarrow> sync_inv (es @ [Request fd fl]) (toggle_sync_thread fd fl sSYNC g)"
  by (cases "worker g")
     (auto simp: sync_inv_def toggle_sync_thread_def state_codes intro: list_emb_append_mono list_emb_append2)

lemma sync_inv_stop: "sync_inv es g \<Longrightarrow> sync_inv (es @ [Stop]) (stop_request g)"
  by (auto simp: sync_inv_def stop_request_def toggle_sync_thread_def state_codes split: worker.splits)

lemma sync_inv_turn:
  assumes inv: "sync_inv es g" and r: "worker g = Ready" and t: "thread_turn a g = Inr g'"
  shows "sync_inv (es @ [Turn a]) g'"
proof (cases "state g = sWAIT")
  case True
  then show ?thesis
    using inv t by (auto simp: thread_turn_def sync_inv_def state_codes)
next
  case False
  then have st: "state g = sSYNC \<or> state g = sQUIT"
    using inv by (auto simp: sync_inv_def)
  then obtain cs rc where f: "fd_sync (sfd g) (sflags g) a = Inr (cs, rc)"
    using t False by (cases "fd_sync (sfd g) (sflags g) a") (auto simp: thread_turn_def)
  note cs = fd_sync_call_of [OF f]
  have sub: "subseq (calls g @ cs) (requested es)"
    using st inv r cs by (auto simp: sync_inv_def)
  show ?thesis
  proof (cases "rc = 0 \<and> state g \<noteq> sQUIT")
    case True
    then have "g' = g\<lparr>calls := calls g @ cs, nsync := nsync g + 1, state := sWAIT, worker := Asleep\<rparr>"
      using t f False st by (simp add: thread_turn_def Let_def)
    then show ?thesis
      using sub by (simp add: sync_inv_def state_codes)
  next
    case fin: False
    then have "state g' = state g \<and> sflags g' = sflags g \<and> calls g' = calls g @ cs \<and> worker g' = Finished"
      using t f False st by (cases "rc = 0") (auto simp: thread_turn_def Let_def)
    then show ?thesis
      using sub inv by (simp add: sync_inv_def)
  qed
qed

lemma sync_inv_wake: "sync_inv es g \<Longrightarrow> worker g = Asleep \<Longrightarrow> sync_inv (es @ [Wake]) (g\<lparr>worker := Ready\<rparr>)"
  by (simp add: sync_inv_def state_codes)

lemma sync_inv_trace: "sync_trace es g \<Longrightarrow> sync_inv es g"
proof (induction rule: sync_trace.induct)
  case (step es g e g')
  show ?case
  proof (cases e)
    case (Request fd fl)
    then show ?thesis
      using step.hyps(2) sync_inv_request [OF step.IH, of fd fl] by simp
  next
    case Stop
    then show ?thesis
      using step.hyps(2) sync_inv_stop [OF step.IH] by simp
  next
    case (Turn a)
    then show ?thesis
      using step.hyps(2) sync_inv_turn [OF step.IH, of a g'] by (simp split: if_splits)
  next
    case Wake
    then show ?thesis
      using step.hyps(2) sync_inv_wake [OF step.IH] by (auto split: if_splits)
  qed
qed (rule sync_inv_start)

lemma stop_drops:
  assumes "worker g \<noteq> Finished"
  shows "stop_sync_thread g = Inr (g\<lparr>state := sQUIT, sfd := -1, sflags := 0, worker := Finished, nsync := nsync g + 1\<rparr>)"
  using assms
  by (cases "worker g")
     (simp_all add: stop_sync_thread_def stop_request_def toggle_sync_thread_def thread_turn_def
       fd_sync_def state_codes)

section \<open>Full rounds\<close>

lemma after_write_plain:
  assumes "mode_ok fl" and "fl AND SYNC_THREAD = 0" and "worker g = Finished"
  shows "after_write fd fl a g = Inr (call_of fd fl, g)"
proof -
  have "worker_turns (turns a) g = Inr g"
    using assms(3) by (cases "turns a") simp_all
  with assms show ?thesis
    by (auto simp: after_write_def do_sync_def fd_sync_ok call_of_def mode_ok_def mode_defs)
qed

text \<open>What the rounds give from the answers: the first \<open>k\<close> writes are full.\<close>

definition rounds_result ::
  "nat \<Rightarrow> int \<Rightarrow> u32 \<Rightarrow> nat \<Rightarrow> int \<Rightarrow> write_ans list \<Rightarrow> (int \<times> sync_call list) option" where
  "rounds_result j fd fl blen n ans =
     (let k = length (takeWhile (\<lambda>a. nwr a = int blen) ans) in
      if j \<le> k then Some (n + int j * int blen, concat (replicate j (call_of fd fl)))
      else if k = length ans then None
      else Some (if werr (ans ! k) = 0 then n + int k * int blen else - werr (ans ! k),
                 concat (replicate k (call_of fd fl))))"

lemma rounds_result_step:
  assumes "nwr a = int blen"
  shows "rounds_result (Suc j) fd fl blen n (a # ans) =
     map_option (\<lambda>(m, cs). (m, call_of fd fl @ cs)) (rounds_result j fd fl blen (n + int blen) ans)"
  using assms by (simp add: rounds_result_def Let_def algebra_simps)

lemma write_rounds_result:
  assumes "mode_ok fl" and "fl AND SYNC_THREAD = 0" and "worker g = Finished"
  shows "write_rounds j fd fl blen n ans g =
     Inr (map_option (\<lambda>(m, cs). (m, cs, g)) (rounds_result j fd fl blen n ans))"
proof (induction j arbitrary: n ans)
  case (Suc j)
  show ?case
  proof (cases ans)
    case (Cons a as)
    show ?thesis
    proof (cases "nwr a = int blen")
      case True
      show ?thesis
        unfolding Cons write_rounds_step [OF True after_write_plain [OF assms]] Suc.IH
          rounds_result_step [OF True]
        by (simp add: option.map_comp comp_def split_beta)
    qed (simp add: Cons rounds_result_def)
  qed (simp add: rounds_result_def)
qed (simp add: rounds_result_def)

lemma write_full:
  assumes "spec_ok sp" and "mode_flags sp AND SYNC_THREAD = 0" and "worker g = Finished"
    and "len sp \<le> blen" and "seek_err e = None" and "calloc_ok e"
  shows "write_data e fd blen sp g =
    Inr (map_option (\<lambda>(m, cs). (m, cs, g)) (rounds_result (niter sp) fd (mode_flags sp) blen 0 (writes e)))"
proof -
  have m: "mode_ok (mode_flags sp)" and nc: "num_chunks sp < blen"
    "num_chunks sp = 0 \<or> 1 < num_chunks sp"
    using assms(1,4) by (auto simp: spec_ok_def opts_ok_def)
  note wr = write_rounds_result [OF m assms(2,3)]
  show ?thesis
  proof (cases "num_chunks sp = 0")
    case True
    then show ?thesis
      using wr assms(5) by (simp add: write_data_def write_nbuf_def)
  next
    case False
    then have c: "1 < num_chunks sp" "0 < blen div num_chunks sp"
      using nc by (auto simp: div_greater_zero_iff)
    have "snd (iov_fill (num_chunks sp) (blen div num_chunks sp) 0 0 blen) = 0"
      by (rule iov_fill_spec(1) [where buf = "replicate blen ()"]) (use c in simp_all)
    then show ?thesis
      using wr assms(5,6) c nc by (simp add: write_data_def writev_nbuf_def Let_def split_beta)
  qed
qed

section \<open>Properties\<close>

text \<open>
  C5: a run on a specification that passed the checks of \<open>main\<close> never fails an assertion (the
  chunk count, the filled vectors, the kind of synchronization), whatever the kernel answers, and
  the buffers written are the lengths \<open>len, len + incr, ...\<close> below the bound, at most \<open>nincr\<close> of
  them. Every synchronizing call of a run, by a writer or by the thread, is \<open>fdatasync\<close>, whatever
  the options: also with \<open>-S\<close>, for which the usage text and the word that \<open>read_opt\<close> prints both
  promise \<open>fsync\<close>. For \<open>-S\<close> this clause is what the code does and not what it documents:
  \<open>read_opt\<close> sets the flag of \<open>-D\<close> for both options, and no option leads to \<open>fsync\<close>. The witness
  is a run with \<open>-S\<close>.
\<close>

theorem wal_run_safe:
  assumes "main_checks argc opts args = Inr (Inr sp)"
  shows "run_odsync opened f t sp es = Inr None \<or>
    (\<exists>out. run_odsync opened f t sp es = Inr (Some out)
       \<and> (\<forall>c. c \<in> set (own_calls out @ calls (shared out)) \<longrightarrow> (\<exists>fd. c = Fdatasync fd))
       \<and> done_lens out = map (\<lambda>i. len sp + i * incr sp) [0..<length (done_lens out)]
       \<and> (\<forall>l. l \<in> set (done_lens out) \<longrightarrow> l < MAX_BUFSZ)
       \<and> length (done_lens out) \<le> nincr sp)"
  using run_odsync_ok [OF main_checks_ok [OF assms], of opened f t es]
  by (elim outcome_okE) (auto simp: data_calls_def sync_ok_def)

text \<open>
  The vectors of \<open>writev_nbuf\<close> cut the buffer into \<open>num_chunks\<close> consecutive pieces: their
  contents one after the other are the buffer, and nothing of it is left.
\<close>

theorem iov_fill_partition:
  assumes "0 < n" and "n \<le> length buf"
  shows "snd (iov_fill n (length buf div n) 0 0 (length buf)) = 0
    \<and> length (fst (iov_fill n (length buf div n) 0 0 (length buf))) = n
    \<and> concat (map (\<lambda>(p, l). take l (drop p buf)) (fst (iov_fill n (length buf div n) 0 0 (length buf)))) = buf"
proof -
  have "0 < length buf div n" and "n * (length buf div n) \<le> length buf"
    using assms by (simp_all add: div_greater_zero_iff)
  then show ?thesis
    using iov_fill_spec [OF assms(1), of "length buf div n" "length buf" 0 buf 0]
    by (simp add: vec_data_def [abs_def] case_prod_unfold)
qed

theorem iov_fill_partition_witness:
  "snd (iov_fill 3 (length ''abcdefghijk'' div 3) 0 0 (length ''abcdefghijk'')) = 0
    \<and> length (fst (iov_fill 3 (length ''abcdefghijk'' div 3) 0 0 (length ''abcdefghijk''))) = 3
    \<and> concat (map (\<lambda>(p, l). take l (drop p ''abcdefghijk''))
         (fst (iov_fill 3 (length ''abcdefghijk'' div 3) 0 0 (length ''abcdefghijk'')))) = ''abcdefghijk''"
  by (rule iov_fill_partition) simp_all

text \<open>
  Without the thread, a writer returns \<open>niter\<close> times the buffer length when every write is
  full and has made one \<open>fdatasync\<close> after each; a short write ends it with the bytes so far, or with
  minus errno when that is set, and the calls of the full writes before it.
\<close>

theorem writer_result:
  assumes "spec_ok sp" and "mode_flags sp AND SYNC_THREAD = 0" and "worker g = Finished"
    and "len sp \<le> blen" and "seek_err e = None" and "calloc_ok e"
  shows "write_data e fd blen sp g =
    Inr (map_option (\<lambda>(m, cs). (m, cs, g)) (rounds_result (niter sp) fd (mode_flags sp) blen 0 (writes e)))"
  using assms by (rule write_full)

text \<open>
  C15: the synchronizing thread makes only requested calls, in the order of the requests (some may
  be dropped), and no wake-up is lost: when it sleeps, no request is waiting.
\<close>

theorem sync_thread_protocol:
  assumes "sync_trace es g"
  shows "subseq (calls g) (requested es) \<and> (worker g = Asleep \<longrightarrow> state g = sWAIT)"
  using sync_inv_trace [OF assms] by (simp add: sync_inv_def)

text \<open>
  Stopping the thread ends it without any call: a request it has not served yet is lost,
  although the documentation of the option says that there is a call after each write.
\<close>

theorem stop_loses_request:
  assumes "worker g \<noteq> Finished"
  shows "\<exists>g'. stop_sync_thread (toggle_sync_thread fd fl sSYNC g) = Inr g'
    \<and> worker g' = Finished \<and> calls g' = calls g"
proof -
  have "worker (toggle_sync_thread fd fl sSYNC g) \<noteq> Finished"
    using assms by (cases "worker g") (simp_all add: toggle_sync_thread_def)
  from stop_drops [OF this] show ?thesis
    by (simp add: toggle_sync_thread_def)
qed

theorem stop_loses_request_witness:
  "\<exists>g'. stop_sync_thread (toggle_sync_thread 3 SYNC_DATA sSYNC sync_start) = Inr g'
    \<and> worker g' = Finished \<and> calls g' = []"
  using stop_loses_request [of sync_start 3 SYNC_DATA] by (simp add: sync_start_def)

text \<open>
  The check on the number of words lets two pass (the message says that two are mandatory), but
  the third is read as well: with a file name and a good buffer size only, \<open>atol\<close> gets the null
  pointer, whatever the options.
\<close>

theorem main_two_words:
  assumes "3 \<le> argc" and "read_opt opts spec_zero = Inr sp"
    and "int MIN_BUFSZ \<le> bufsz" and "bufsz \<le> int MAX_BUFSZ"
  shows "main_checks argc opts [fname, bufsz] = Inl BadPointer"
  using assms by (simp add: main_checks_def arg_number_def)

theorem main_two_words_witness: "main_checks 3 [] [0, 4096] = Inl BadPointer"
  by (rule main_two_words [where sp = spec_zero]) (simp_all add: MIN_BUFSZ_def MAX_BUFSZ_def)

section \<open>Runs\<close>

text \<open>Two full writes of 4096 bytes, each with its \<open>fdatasync\<close>; the second round is short.\<close>

definition spec_run :: test_spec where
  "spec_run = \<lparr>mode_flags = SYNC_DATA, open_flags = 0, len = 4096, niter = 2, incr = 128, nincr = 1,
     num_chunks = 3\<rparr>"

definition full_write :: write_ans where
  "full_write = \<lparr>nwr = 4096, werr = 0, sync_ans = 0, turns = []\<rparr>"

definition env_run :: round_env where
  "env_run = \<lparr>mem_ok = True, calloc_ok = True, seek_err = None, writes = [full_write, full_write]\<rparr>"

lemma main_run: "main_checks 7 [(CHR ''D'', 0), (CHR ''U'', 3)] [0, 4096, 2] = Inr (Inr spec_run)"
  by (simp add: main_checks_def read_one_def getopt_letter_def opt_letters_def spec_zero_def add_mode_def
      arg_number_def spec_run_def MIN_BUFSZ_def MAX_BUFSZ_def MIN_INCR_def MIN_NINCR_def SYNC_DATA_def
      numeral_2_eq_2)

text \<open>The option \<open>-S\<close> gives the same specification as \<open>-D\<close>.\<close>

lemma main_run_fsync: "main_checks 7 [(CHR ''S'', 0), (CHR ''U'', 3)] [0, 4096, 2] = Inr (Inr spec_run)"
  by (simp add: main_checks_def read_one_def getopt_letter_def opt_letters_def spec_zero_def add_mode_def
      arg_number_def spec_run_def MIN_BUFSZ_def MAX_BUFSZ_def MIN_INCR_def MIN_NINCR_def SYNC_DATA_def
      numeral_2_eq_2)

theorem wal_run_safe_witness:
  "run_odsync (Inr 3) 0 0 spec_run [env_run] = Inr None \<or>
    (\<exists>out. run_odsync (Inr 3) 0 0 spec_run [env_run] = Inr (Some out)
       \<and> list_all (\<lambda>c. \<exists>fd. c = Fdatasync fd) (own_calls out @ calls (shared out))
       \<and> done_lens out = map (\<lambda>i. len spec_run + i * incr spec_run) [0..<length (done_lens out)]
       \<and> list_all (\<lambda>l. l < MAX_BUFSZ) (done_lens out) \<and> length (done_lens out) \<le> nincr spec_run)"
  using wal_run_safe [OF main_run_fsync] unfolding list_all_iff Ball_def .

lemma wal_max_buffer_writes_nothing:
  assumes "len sp = MAX_BUFSZ"
  shows "rounds (len sp) 0 fd sp es g = Inr (Some (outcome.make [] 0 [] g))"
  using assms by (cases es) simp_all

theorem writer_result_witness:
  "write_data env_run 3 4096 spec_run (sync_start\<lparr>worker := Finished\<rparr>) =
     Inr (Some (8192, [Fdatasync 3, Fdatasync 3], sync_start\<lparr>worker := Finished\<rparr>))"
  using writer_result [OF main_checks_ok [OF main_run], of "sync_start\<lparr>worker := Finished\<rparr>" 4096 env_run 3]
  by (simp add: spec_run_def env_run_def full_write_def mode_defs rounds_result_def call_of_def
      numeral_2_eq_2)

text \<open>The whole run: one buffer of 4096 bytes, two full writes, two calls, exit code 0.\<close>

lemma wal_run_value:
  "run_odsync (Inr 3) 0 0 spec_run [env_run] =
     Inr (Some \<lparr>done_lens = [4096], code = 0, own_calls = [Fdatasync 3, Fdatasync 3],
       shared = sync_start\<lparr>worker := Finished\<rparr>\<rparr>)"
proof -
  have sp: "len spec_run = 4096" "nincr spec_run = 1" "mode_flags spec_run = 2" "mem_ok env_run"
    by (simp_all add: spec_run_def env_run_def SYNC_DATA_def)
  have w: "write_data env_run 3 4096 spec_run (sync_start\<lparr>worker := Finished\<rparr>) =
     Inr (Some (8192, [Fdatasync 3, Fdatasync 3], sync_start\<lparr>worker := Finished\<rparr>))"
    using write_full [OF main_checks_ok [OF main_run], of "sync_start\<lparr>worker := Finished\<rparr>" 4096 env_run 3]
    by (simp add: spec_run_def env_run_def full_write_def mode_defs rounds_result_def call_of_def
        numeral_2_eq_2)
  show ?thesis
    by (simp add: run_odsync_def sp w mode_defs MAX_BUFSZ_def outcome.make_def)
qed

lemma trace_run:
  "sync_trace [Request 3 SYNC_DATA, Turn 0]
     (sync_start\<lparr>sfd := 3, sflags := SYNC_DATA, worker := Asleep, nsync := 1, calls := [Fdatasync 3]\<rparr>)"
proof -
  define g1 where "g1 = toggle_sync_thread 3 SYNC_DATA sSYNC sync_start"
  have t1: "sync_trace ([] @ [Request 3 SYNC_DATA]) g1"
    by (rule sync_trace.step [OF sync_trace.start]) (simp add: g1_def)
  have "sync_trace (([] @ [Request 3 SYNC_DATA]) @ [Turn 0])
     (sync_start\<lparr>sfd := 3, sflags := SYNC_DATA, worker := Asleep, nsync := 1, calls := [Fdatasync 3]\<rparr>)"
    by (rule sync_trace.step [OF t1])
       (simp add: g1_def toggle_sync_thread_def sync_start_def thread_turn_def fd_sync_def state_codes mode_defs)
  then show ?thesis
    by simp
qed

theorem sync_thread_protocol_witness:
  "subseq [Fdatasync 3] (requested [Request 3 SYNC_DATA, Turn 0])"
  using sync_thread_protocol [OF trace_run] by simp

end
