(* ===== verification/Prof.thy ===== *)
theory Prof
  imports Prelude "HOL-Library.Signed_Division"
begin

unbundle bit_operations_syntax

text \<open>
  \<open>prof/\<close>: the arithmetic on \<open>struct timespec\<close> and \<open>struct timeval\<close> (\<open>nbsd_time.h\<close>), on
  \<open>struct rusage\<close> (\<open>rusage_ops.h\<close>), and the performance probe that accumulates them
  (\<open>prfm.c\<close>).  A \<open>long\<close> is an \<open>int\<close>: an overflow would need times of \<open>2 ^ 63\<close> seconds.  The
  readings of the clock and of \<open>getrusage\<close> are parameters.
\<close>

section \<open>Times\<close>

datatype timespec = Timespec (ts_sec: int) (ts_nsec: int)

datatype timeval = Timeval (tv_sec: int) (tv_usec: int)

text \<open>The macros of \<open>nbsd_time.h\<close>; a comparison macro takes the operator.\<close>

definition TIMEVAL_TO_TIMESPEC :: "timeval \<Rightarrow> timespec" where
  "TIMEVAL_TO_TIMESPEC tv = Timespec (tv_sec tv) (tv_usec tv * 1000)"

definition TIMESPEC_TO_TIMEVAL :: "timespec \<Rightarrow> timeval" where
  "TIMESPEC_TO_TIMEVAL ts = Timeval (ts_sec ts) (ts_nsec ts sdiv 1000)"

definition timerclear :: timeval where
  "timerclear = Timeval 0 0"

definition timerisset :: "timeval \<Rightarrow> bool" where
  "timerisset tv \<longleftrightarrow> tv_sec tv \<noteq> 0 \<or> tv_usec tv \<noteq> 0"

definition timercmp :: "timeval \<Rightarrow> timeval \<Rightarrow> (int \<Rightarrow> int \<Rightarrow> bool) \<Rightarrow> bool" where
  "timercmp tv uv cmp \<longleftrightarrow>
     (if tv_sec tv = tv_sec uv then cmp (tv_usec tv) (tv_usec uv) else cmp (tv_sec tv) (tv_sec uv))"

definition timeradd :: "timeval \<Rightarrow> timeval \<Rightarrow> timeval" where
  "timeradd tv uv =
     (let s = tv_sec tv + tv_sec uv; f = tv_usec tv + tv_usec uv in
      if 1000000 \<le> f then Timeval (s + 1) (f - 1000000) else Timeval s f)"

definition timersub :: "timeval \<Rightarrow> timeval \<Rightarrow> timeval" where
  "timersub tv uv =
     (let s = tv_sec tv - tv_sec uv; f = tv_usec tv - tv_usec uv in
      if f < 0 then Timeval (s - 1) (f + 1000000) else Timeval s f)"

definition timespecclear :: timespec where
  "timespecclear = Timespec 0 0"

definition timespecisset :: "timespec \<Rightarrow> bool" where
  "timespecisset ts \<longleftrightarrow> ts_sec ts \<noteq> 0 \<or> ts_nsec ts \<noteq> 0"

definition timespeccmp :: "timespec \<Rightarrow> timespec \<Rightarrow> (int \<Rightarrow> int \<Rightarrow> bool) \<Rightarrow> bool" where
  "timespeccmp ts us cmp \<longleftrightarrow>
     (if ts_sec ts = ts_sec us then cmp (ts_nsec ts) (ts_nsec us) else cmp (ts_sec ts) (ts_sec us))"

definition timespecadd :: "timespec \<Rightarrow> timespec \<Rightarrow> timespec" where
  "timespecadd ts us =
     (let s = ts_sec ts + ts_sec us; f = ts_nsec ts + ts_nsec us in
      if 1000000000 \<le> f then Timespec (s + 1) (f - 1000000000) else Timespec s f)"

definition timespecsub :: "timespec \<Rightarrow> timespec \<Rightarrow> timespec" where
  "timespecsub ts us =
     (let s = ts_sec ts - ts_sec us; f = ts_nsec ts - ts_nsec us in
      if f < 0 then Timespec (s - 1) (f + 1000000000) else Timespec s f)"

text \<open>
  The macros write through a pointer that may be one of their operands; this is \<open>timespecsub\<close>
  and \<open>timespecadd\<close> assignment by assignment on a store of objects.
\<close>

type_synonym tstore = "nat \<Rightarrow> timespec"

definition put_sec :: "nat \<Rightarrow> int \<Rightarrow> tstore \<Rightarrow> tstore" where
  "put_sec v s st = st(v := Timespec s (ts_nsec (st v)))"

definition put_nsec :: "nat \<Rightarrow> int \<Rightarrow> tstore \<Rightarrow> tstore" where
  "put_nsec v n st = st(v := Timespec (ts_sec (st v)) n)"

definition timespecsub_at :: "nat \<Rightarrow> nat \<Rightarrow> nat \<Rightarrow> tstore \<Rightarrow> tstore" where
  "timespecsub_at t u v st =
     (let st = put_sec v (ts_sec (st t) - ts_sec (st u)) st;
          st = put_nsec v (ts_nsec (st t) - ts_nsec (st u)) st in
      if ts_nsec (st v) < 0 then
        (let st = put_sec v (ts_sec (st v) - 1) st in put_nsec v (ts_nsec (st v) + 1000000000) st)
      else st)"

definition timespecadd_at :: "nat \<Rightarrow> nat \<Rightarrow> nat \<Rightarrow> tstore \<Rightarrow> tstore" where
  "timespecadd_at t u v st =
     (let st = put_sec v (ts_sec (st t) + ts_sec (st u)) st;
          st = put_nsec v (ts_nsec (st t) + ts_nsec (st u)) st in
      if 1000000000 \<le> ts_nsec (st v) then
        (let st = put_sec v (ts_sec (st v) + 1) st in put_nsec v (ts_nsec (st v) - 1000000000) st)
      else st)"

section \<open>Order\<close>

text \<open>The comparison macros give linear orders.\<close>

instantiation timespec :: linorder
begin

definition less_eq_timespec :: "timespec \<Rightarrow> timespec \<Rightarrow> bool" where
  "less_eq_timespec t u \<longleftrightarrow> timespeccmp t u (\<le>)"

definition less_timespec :: "timespec \<Rightarrow> timespec \<Rightarrow> bool" where
  "less_timespec t u \<longleftrightarrow> timespeccmp t u (<)"

instance
  by standard
     (auto simp: less_eq_timespec_def less_timespec_def timespeccmp_def timespec.expand split: if_splits)

end

instantiation timeval :: linorder
begin

definition less_eq_timeval :: "timeval \<Rightarrow> timeval \<Rightarrow> bool" where
  "less_eq_timeval t u \<longleftrightarrow> timercmp t u (\<le>)"

definition less_timeval :: "timeval \<Rightarrow> timeval \<Rightarrow> bool" where
  "less_timeval t u \<longleftrightarrow> timercmp t u (<)"

instance
  by standard
     (auto simp: less_eq_timeval_def less_timeval_def timercmp_def timeval.expand split: if_splits)

end

section \<open>Resource usage\<close>

record rusage =
  ru_utime :: timeval
  ru_stime :: timeval
  ru_maxrss :: int
  ru_ixrss :: int
  ru_idrss :: int
  ru_isrss :: int
  ru_minflt :: int
  ru_majflt :: int
  ru_nswap :: int
  ru_inblock :: int
  ru_oublock :: int
  ru_msgsnd :: int
  ru_msgrcv :: int
  ru_nsignals :: int
  ru_nvcsw :: int
  ru_nivcsw :: int

definition rusage_clear :: rusage where
  "rusage_clear = \<lparr>ru_utime = timerclear, ru_stime = timerclear, ru_maxrss = 0, ru_ixrss = 0,
     ru_idrss = 0, ru_isrss = 0, ru_minflt = 0, ru_majflt = 0, ru_nswap = 0, ru_inblock = 0,
     ru_oublock = 0, ru_msgsnd = 0, ru_msgrcv = 0, ru_nsignals = 0, ru_nvcsw = 0, ru_nivcsw = 0\<rparr>"

definition rusage_sub :: "rusage \<Rightarrow> rusage \<Rightarrow> rusage" where
  "rusage_sub a b = \<lparr>ru_utime = timersub (ru_utime a) (ru_utime b),
     ru_stime = timersub (ru_stime a) (ru_stime b),
     ru_maxrss = ru_maxrss a - ru_maxrss b, ru_ixrss = ru_ixrss a - ru_ixrss b,
     ru_idrss = ru_idrss a - ru_idrss b, ru_isrss = ru_isrss a - ru_isrss b,
     ru_minflt = ru_minflt a - ru_minflt b, ru_majflt = ru_majflt a - ru_majflt b,
     ru_nswap = ru_nswap a - ru_nswap b, ru_inblock = ru_inblock a - ru_inblock b,
     ru_oublock = ru_oublock a - ru_oublock b, ru_msgsnd = ru_msgsnd a - ru_msgsnd b,
     ru_msgrcv = ru_msgrcv a - ru_msgrcv b, ru_nsignals = ru_nsignals a - ru_nsignals b,
     ru_nvcsw = ru_nvcsw a - ru_nvcsw b, ru_nivcsw = ru_nivcsw a - ru_nivcsw b\<rparr>"

definition rusage_add :: "rusage \<Rightarrow> rusage \<Rightarrow> rusage" where
  "rusage_add a b = \<lparr>ru_utime = timeradd (ru_utime a) (ru_utime b),
     ru_stime = timeradd (ru_stime a) (ru_stime b),
     ru_maxrss = ru_maxrss a + ru_maxrss b, ru_ixrss = ru_ixrss a + ru_ixrss b,
     ru_idrss = ru_idrss a + ru_idrss b, ru_isrss = ru_isrss a + ru_isrss b,
     ru_minflt = ru_minflt a + ru_minflt b, ru_majflt = ru_majflt a + ru_majflt b,
     ru_nswap = ru_nswap a + ru_nswap b, ru_inblock = ru_inblock a + ru_inblock b,
     ru_oublock = ru_oublock a + ru_oublock b, ru_msgsnd = ru_msgsnd a + ru_msgsnd b,
     ru_msgrcv = ru_msgrcv a + ru_msgrcv b, ru_nsignals = ru_nsignals a + ru_nsignals b,
     ru_nvcsw = ru_nvcsw a + ru_nvcsw b, ru_nivcsw = ru_nivcsw a + ru_nivcsw b\<rparr>"

section \<open>The probe\<close>

record prfm_metrics =
  tm :: timespec
  ru :: rusage

record prfm =
  who :: int
  flags :: u32
  start :: prfm_metrics
  accum :: prfm_metrics

definition prfm_TIME :: u32 where "prfm_TIME = 1"
definition prfm_RUSAGE :: u32 where "prfm_RUSAGE = 2"

text \<open>Linux values of the \<open>who\<close> argument of \<open>getrusage\<close>.\<close>

definition RUSAGE_SELF :: int where "RUSAGE_SELF = 0"
definition RUSAGE_THREAD :: int where "RUSAGE_THREAD = 1"

text \<open>What the kernel answers to a capture: \<open>None\<close> is an error.\<close>

record readings =
  clock_rd :: "timespec option"
  usage_rd :: "int \<Rightarrow> rusage option"

text \<open>\<open>capture\<close> (compiled without \<open>NDEBUG\<close>).\<close>

definition capture :: "readings \<Rightarrow> u32 \<Rightarrow> int \<Rightarrow> prfm_metrics \<Rightarrow> prfm_metrics cresult" where
  "capture e fl w t =
     cbind (if fl AND prfm_TIME \<noteq> 0 then
              (case clock_rd e of None \<Rightarrow> Inl Aborted | Some c \<Rightarrow> Inr (t\<lparr>tm := c\<rparr>))
            else Inr t) (\<lambda>t.
     if fl AND prfm_RUSAGE \<noteq> 0 then
       (case usage_rd e w of None \<Rightarrow> Inl Aborted | Some u \<Rightarrow> Inr (t\<lparr>ru := u\<rparr>))
     else Inr t)"

definition reset :: "prfm \<Rightarrow> prfm" where
  "reset r =
     (let r = (if flags r AND prfm_TIME \<noteq> 0
               then r\<lparr>accum := (accum r)\<lparr>tm := timespecclear\<rparr>, start := (start r)\<lparr>tm := timespecclear\<rparr>\<rparr>
               else r) in
      if flags r AND prfm_RUSAGE \<noteq> 0
      then r\<lparr>accum := (accum r)\<lparr>ru := rusage_clear\<rparr>, start := (start r)\<lparr>ru := rusage_clear\<rparr>\<rparr>
      else r)"

definition prfm_xinit :: "u32 \<Rightarrow> int \<Rightarrow> prfm \<Rightarrow> prfm" where
  "prfm_xinit fl w r = (reset (r\<lparr>flags := fl\<rparr>))\<lparr>who := w\<rparr>"

definition prfm_init :: "prfm \<Rightarrow> prfm" where
  "prfm_init = prfm_xinit (prfm_TIME OR prfm_RUSAGE) RUSAGE_SELF"

definition prfm_tm_init :: "prfm \<Rightarrow> prfm" where
  "prfm_tm_init = prfm_xinit prfm_TIME RUSAGE_SELF"

definition prfm_init_thr :: "prfm \<Rightarrow> prfm" where
  "prfm_init_thr = prfm_xinit (prfm_TIME OR prfm_RUSAGE) RUSAGE_THREAD"

definition prfm_destroy :: "prfm \<Rightarrow> prfm" where
  "prfm_destroy r = (reset r)\<lparr>flags := 0\<rparr>"

definition prfm_start :: "readings \<Rightarrow> prfm \<Rightarrow> prfm cresult" where
  "prfm_start e r = cbind (capture e (flags r) (who r) (start r)) (\<lambda>t. Inr (r\<lparr>start := t\<rparr>))"

text \<open>\<open>cur\<close> (\<open>curr\<close> in the code) is the uninitialized local variable.\<close>

definition prfm_stop :: "prfm_metrics \<Rightarrow> readings \<Rightarrow> prfm \<Rightarrow> prfm cresult" where
  "prfm_stop cur e r =
     cbind (capture e (flags r) (who r) cur) (\<lambda>cur.
     let (cur, r) =
           (if flags r AND prfm_TIME \<noteq> 0 then
              (let cur = cur\<lparr>tm := timespecsub (tm cur) (tm (start r))\<rparr> in
               (cur, r\<lparr>accum := (accum r)\<lparr>tm := timespecadd (tm cur) (tm (accum r))\<rparr>\<rparr>))
            else (cur, r)) in
     if flags r AND prfm_RUSAGE \<noteq> 0 then
       (let cur = cur\<lparr>ru := rusage_sub (ru cur) (ru (start r))\<rparr> in
        Inr (r\<lparr>accum := (accum r)\<lparr>ru := rusage_add (ru cur) (ru (accum r))\<rparr>\<rparr>))
     else Inr r)"

definition prfm_probe :: "readings \<Rightarrow> prfm \<Rightarrow> prfm cresult" where
  "prfm_probe e r = cbind (capture e (flags r) (who r) (accum r)) (\<lambda>t.
     Inr (r\<lparr>accum := t\<lparr>tm := timespecclear\<rparr>\<rparr>))"

text \<open>A list of iterations: the readings of each start and stop, and the junk in \<open>curr\<close>.\<close>

fun prfm_runs :: "(readings \<times> readings \<times> prfm_metrics) list \<Rightarrow> prfm \<Rightarrow> prfm cresult" where
  "prfm_runs [] r = Inr r"
| "prfm_runs ((a, b, junk) # es) r =
     cbind (prfm_start a r) (\<lambda>r. cbind (prfm_stop junk b r) (\<lambda>r. prfm_runs es r))"

section \<open>Differences of the measuring programs\<close>

text \<open>
  \<open>gtm_diff\<close> and \<open>ctm_diff\<close> of \<open>tmcmp.c\<close> (the value is the difference in micro- or nanoseconds,
  as an exact integer instead of a double) and \<open>timespec_sub\<close> of \<open>clkgtm.c\<close>; \<open>None\<close> is a null
  pointer.
\<close>

definition gtm_diff :: "timeval option \<Rightarrow> timeval option \<Rightarrow> int cresult" where
  "gtm_diff tp etp =
     (case (tp, etp) of (Some t, Some e) \<Rightarrow>
        (let s = tv_sec e - tv_sec t; u = tv_usec e - tv_usec t;
             (s, u) = (if u < 0 then (s - 1, u + 1000000) else (s, u)) in
         Inr (s * 1000000 + u))
      | _ \<Rightarrow> Inl AssertFailed)"

definition ctm_diff :: "timespec option \<Rightarrow> timespec option \<Rightarrow> int cresult" where
  "ctm_diff tp etp =
     (case (tp, etp) of (Some t, Some e) \<Rightarrow>
        (let s = ts_sec e - ts_sec t; n = ts_nsec e - ts_nsec t;
             (s, n) = (if n < 0 then (s - 1, n + 1000000000) else (s, n)) in
         Inr (s * 1000000000 + n))
      | _ \<Rightarrow> Inl AssertFailed)"

definition timespec_sub :: "timespec option \<Rightarrow> timespec option \<Rightarrow> bool \<Rightarrow> timespec cresult" where
  "timespec_sub a b r =
     (case (a, b) of (Some a, Some b) \<Rightarrow>
        if \<not> r then Inl AssertFailed
        else
          (let s = ts_sec a - ts_sec b; n = ts_nsec a - ts_nsec b in
           Inr (if n < 0 then Timespec (s - 1) (n + 1000000000) else Timespec s n))
      | _ \<Rightarrow> Inl AssertFailed)"

text \<open>
  \<open>measure_sec\<close> of \<open>clkgtm.c\<close>: the readings before and after the sleep (\<open>None\<close> is an error) give
  the return code and the difference it prints; \<open>main\<close> checks its argument first.
\<close>

definition measure_sec :: "timespec option \<Rightarrow> timespec option \<Rightarrow> (int \<times> timespec option) cresult" where
  "measure_sec before after =
     (case before of None \<Rightarrow> Inr (-1, None)
      | Some b \<Rightarrow>
        (case after of None \<Rightarrow> Inr (-1, None)
         | Some a \<Rightarrow> cbind (timespec_sub (Some a) (Some b) True) (\<lambda>d. Inr (0, Some d))))"

definition clkgtm_main :: "int list \<Rightarrow> timespec option \<Rightarrow> timespec option \<Rightarrow> (int \<times> timespec option) cresult" where
  "clkgtm_main args before after =
     (case args of [] \<Rightarrow> Inr (1, None)
      | nsec # _ \<Rightarrow> if nsec \<le> 0 then Inr (2, None) else measure_sec before after)"

text \<open>\<open>tmcmp.c\<close>: the modes, the loop of readings, the checks of \<open>main\<close>.\<close>

datatype tm_mode = m_gtm | m_clk | m_mnt | m_time

definition lower :: "char \<Rightarrow> nat" where
  "lower c = (let n = of_char c in if 65 \<le> n \<and> n \<le> 90 then n + 32 else n)"

definition strcaseeq :: "string \<Rightarrow> string \<Rightarrow> bool" where
  "strcaseeq s t \<longleftrightarrow> map lower s = map lower t"

definition tm_mode_of :: "string \<Rightarrow> tm_mode option" where
  "tm_mode_of s =
     (if strcaseeq ''gtm'' s then Some m_gtm
      else if strcaseeq ''clk'' s then Some m_clk
      else if strcaseeq ''mnt'' s then Some m_mnt
      else if strcaseeq ''time'' s then Some m_time
      else None)"

text \<open>\<open>clk_diff\<close> without output: the static tick count, what \<open>sysconf\<close> gives, errno.\<close>

definition clk_diff :: "int \<Rightarrow> int \<Rightarrow> int \<Rightarrow> int \<times> int" where
  "clk_diff ticks sys err =
     (let ticks = (if ticks = 0 then sys else ticks) in (ticks, if ticks < 0 then err else 0))"

record tm_env =
  gtm_rd :: "nat \<Rightarrow> timeval"
  mnt_rd :: "nat \<Rightarrow> timespec"
  sysconf_rd :: int
  sys_err :: int
  times_ok1 :: bool
  times_ok2 :: bool

text \<open>The loop: \<open>tv\<close> and \<open>tsp\<close> are uninitialized before a reading; reading 0 is the one before the loop.\<close>

fun tm_loop :: "tm_mode \<Rightarrow> tm_env \<Rightarrow> nat \<Rightarrow> nat \<Rightarrow> timeval option \<times> timespec option \<Rightarrow> timeval option \<times> timespec option" where
  "tm_loop md e i 0 (tv, tsp) = (tv, tsp)"
| "tm_loop md e i (Suc k) (tv, tsp) =
     tm_loop md e (i + 1) k
       (case md of m_gtm \<Rightarrow> (Some (gtm_rd e (i + 1)), tsp) | m_mnt \<Rightarrow> (tv, Some (mnt_rd e (i + 1))) | _ \<Rightarrow> (tv, tsp))"

definition tm_main :: "tm_env \<Rightarrow> (string \<times> int) option \<Rightarrow> (int \<times> int option) cresult" where
  "tm_main e args =
     (case args of None \<Rightarrow> Inr (EINVAL, None)
      | Some (name, niter) \<Rightarrow>
        (case tm_mode_of name of None \<Rightarrow> Inr (EINVAL, None)
         | Some md \<Rightarrow>
           if niter \<le> 0 then Inr (EINVAL, None)
           else
             (let (ticks, rc) = clk_diff 0 (sysconf_rd e) (sys_err e) in
              if rc \<noteq> 0 then Inr (rc, None)
              else if \<not> times_ok1 e then Inr (1, None)
              else
                (let (tv, tsp) = tm_loop md e 0 (nat niter) (None, None) in
                 if \<not> times_ok2 e then Inr (1, None)
                 else
                   cbind (case md of m_gtm \<Rightarrow> cbind (gtm_diff (Some (gtm_rd e 0)) tv) (\<lambda>d. Inr (Some d))
                          | m_mnt \<Rightarrow> cbind (ctm_diff (Some (mnt_rd e 0)) tsp) (\<lambda>d. Inr (Some d))
                          | _ \<Rightarrow> Inr None)
                     (\<lambda>d. Inr (snd (clk_diff ticks (sysconf_rd e) (sys_err e)), d))))))"

section \<open>Times with a carry\<close>

text \<open>Units below a second, and the representation in which the fraction is less than a second.\<close>

definition ts_units :: "timespec \<Rightarrow> int" where
  "ts_units t = ts_sec t * 1000000000 + ts_nsec t"

definition ts_normal :: "timespec \<Rightarrow> bool" where
  "ts_normal t \<longleftrightarrow> 0 \<le> ts_nsec t \<and> ts_nsec t < 1000000000"

definition tv_units :: "timeval \<Rightarrow> int" where
  "tv_units t = tv_sec t * 1000000 + tv_usec t"

definition tv_normal :: "timeval \<Rightarrow> bool" where
  "tv_normal t \<longleftrightarrow> 0 \<le> tv_usec t \<and> tv_usec t < 1000000"

text \<open>
  The contract of both structures: a pair of seconds and a fraction with one carry in the sum and
  one borrow in the difference.
\<close>

locale carry_time =
  fixes base :: int and mk :: "int \<Rightarrow> int \<Rightarrow> 't :: linorder" and secs frac :: "'t \<Rightarrow> int"
    and add sub :: "'t \<Rightarrow> 't \<Rightarrow> 't" and units :: "'t \<Rightarrow> int" and normal :: "'t \<Rightarrow> bool"
  assumes base_pos: "0 < base"
    and secs_mk: "secs (mk s f) = s" and frac_mk: "frac (mk s f) = f"
    and mk_collapse: "mk (secs t) (frac t) = t"
    and add_eq: "add t u = (if base \<le> frac t + frac u
      then mk (secs t + secs u + 1) (frac t + frac u - base) else mk (secs t + secs u) (frac t + frac u))"
    and sub_eq: "sub t u = (if frac t - frac u < 0
      then mk (secs t - secs u - 1) (frac t - frac u + base) else mk (secs t - secs u) (frac t - frac u))"
    and units_eq: "units t = secs t * base + frac t"
    and normal_iff: "normal t \<longleftrightarrow> 0 \<le> frac t \<and> frac t < base"
    and less_iff: "t < u \<longleftrightarrow> (if secs t = secs u then frac t < frac u else secs t < secs u)"
begin

lemma units_add: "units (add t u) = units t + units u"
  by (simp add: add_eq units_eq secs_mk frac_mk algebra_simps)

lemma units_sub: "units (sub t u) = units t - units u"
  by (simp add: sub_eq units_eq secs_mk frac_mk algebra_simps)

lemma normal_add: "normal t \<Longrightarrow> normal u \<Longrightarrow> normal (add t u)"
  by (simp add: add_eq normal_iff frac_mk)

lemma normal_sub: "normal t \<Longrightarrow> normal u \<Longrightarrow> normal (sub t u)"
  by (simp add: sub_eq normal_iff frac_mk)

lemma normal_units:
  assumes "normal t"
  shows "secs t = units t div base" and "frac t = units t mod base"
  using assms base_pos by (simp_all add: units_eq normal_iff)

lemma units_inject: "normal t \<Longrightarrow> normal u \<Longrightarrow> units t = units u \<longleftrightarrow> t = u"
  by (metis normal_units mk_collapse)

lemma units_less:
  assumes "normal t" and "normal u"
  shows "t < u \<longleftrightarrow> units t < units u"
proof -
  have lt: "units t < units u" if "secs t < secs u" "normal t" "normal u" for t u
  proof -
    have "secs t * base + base \<le> secs u * base"
      using that(1) base_pos mult_right_mono [of "secs t + 1" "secs u" base] by (simp add: algebra_simps)
    with that(2,3) show ?thesis
      by (simp add: units_eq normal_iff)
  qed
  show ?thesis
  proof (cases "secs t" "secs u" rule: linorder_cases)
    case less
    then show ?thesis
      using lt assms by (simp add: less_iff)
  next
    case equal
    then show ?thesis
      by (simp add: less_iff units_eq)
  next
    case greater
    then show ?thesis
      using lt [of u t] assms by (simp add: less_iff)
  qed
qed

lemma units_le: "normal t \<Longrightarrow> normal u \<Longrightarrow> t \<le> u \<longleftrightarrow> units t \<le> units u"
  by (metis units_less not_less)

lemma sub_add: "normal t \<Longrightarrow> normal u \<Longrightarrow> add (sub t u) u = t"
  by (metis units_inject units_add units_sub normal_add normal_sub diff_add_cancel)

lemma add_sub: "normal t \<Longrightarrow> normal u \<Longrightarrow> sub (add t u) u = t"
  by (metis units_inject units_add units_sub normal_add normal_sub add_diff_cancel_right')

lemma add_commutes: "add t u = add u t"
  by (simp add: add_eq add.commute)

end

interpretation ts: carry_time 1000000000 Timespec ts_sec ts_nsec timespecadd timespecsub ts_units ts_normal
  by unfold_locales
     (simp_all add: timespecadd_def timespecsub_def Let_def ts_units_def ts_normal_def less_timespec_def
       timespeccmp_def)

interpretation tv: carry_time 1000000 Timeval tv_sec tv_usec timeradd timersub tv_units tv_normal
  by unfold_locales
     (simp_all add: timeradd_def timersub_def Let_def tv_units_def tv_normal_def less_timeval_def
       timercmp_def)


section \<open>Writing through an operand\<close>

lemma put_simps [simp]:
  "ts_sec (put_sec v s st x) = (if x = v then s else ts_sec (st x))"
  "ts_nsec (put_sec v s st x) = ts_nsec (st x)"
  "ts_sec (put_nsec v n st x) = ts_sec (st x)"
  "ts_nsec (put_nsec v n st x) = (if x = v then n else ts_nsec (st x))"
  by (simp_all add: put_sec_def put_nsec_def)

lemma tstore_eqI:
  assumes "\<And>x. ts_sec (st x) = ts_sec (st' x)" and "\<And>x. ts_nsec (st x) = ts_nsec (st' x)"
  shows "st = (st' :: tstore)"
  using assms by (auto intro!: ext timespec.expand)

section \<open>The probe accumulates\<close>

definition wants_time :: "u32 \<Rightarrow> bool" where
  "wants_time fl \<longleftrightarrow> fl AND prfm_TIME \<noteq> 0"

definition wants_usage :: "u32 \<Rightarrow> bool" where
  "wants_usage fl \<longleftrightarrow> fl AND prfm_RUSAGE \<noteq> 0"

text \<open>Readings that succeed where the flags ask for them, with times as the kernel gives them.\<close>

definition good_readings :: "u32 \<Rightarrow> int \<Rightarrow> readings \<Rightarrow> bool" where
  "good_readings fl w e \<longleftrightarrow>
     (wants_time fl \<longrightarrow> (case clock_rd e of None \<Rightarrow> False | Some c \<Rightarrow> ts_normal c))
     \<and> (wants_usage fl \<longrightarrow> usage_rd e w \<noteq> None)"

text \<open>The counters of a usage as one list of numbers; times in microseconds.\<close>

definition ru_counters :: "rusage \<Rightarrow> int list" where
  "ru_counters u = [tv_units (ru_utime u), tv_units (ru_stime u), ru_maxrss u, ru_ixrss u, ru_idrss u,
     ru_isrss u, ru_minflt u, ru_majflt u, ru_nswap u, ru_inblock u, ru_oublock u, ru_msgsnd u,
     ru_msgrcv u, ru_nsignals u, ru_nvcsw u, ru_nivcsw u]"

definition clock_units :: "readings \<Rightarrow> int" where
  "clock_units e = ts_units (the (clock_rd e))"

definition usage_counter :: "int \<Rightarrow> nat \<Rightarrow> readings \<Rightarrow> int" where
  "usage_counter w i e = ru_counters (the (usage_rd e w)) ! i"

lemma ru_counters_length [simp]: "length (ru_counters u) = 16"
  by (simp add: ru_counters_def)

lemma ru_counters_add: "ru_counters (rusage_add a b) = map2 (+) (ru_counters a) (ru_counters b)"
  by (simp add: ru_counters_def rusage_add_def tv.units_add)

lemma ru_counters_sub: "ru_counters (rusage_sub a b) = map2 (-) (ru_counters a) (ru_counters b)"
  by (simp add: ru_counters_def rusage_sub_def tv.units_sub)

lemma ru_counters_clear: "i < 16 \<Longrightarrow> ru_counters rusage_clear ! i = 0"
  by (simp add: ru_counters_def rusage_clear_def timerclear_def tv_units_def less_Suc_eq numeral_eq_Suc)
     (auto)

lemma capture_good:
  assumes "good_readings fl w e"
  shows "capture e fl w t = Inr \<lparr>tm = if wants_time fl then the (clock_rd e) else tm t,
     ru = if wants_usage fl then the (usage_rd e w) else ru t\<rparr>"
  using assms
  by (auto simp: capture_def good_readings_def wants_time_def wants_usage_def split: option.splits)

text \<open>One iteration.\<close>

definition iteration :: "readings \<Rightarrow> readings \<Rightarrow> prfm \<Rightarrow> prfm_metrics" where
  "iteration a b r =
     \<lparr>tm = (if wants_time (flags r)
            then timespecadd (timespecsub (the (clock_rd b)) (the (clock_rd a))) (tm (accum r))
            else tm (accum r)),
      ru = (if wants_usage (flags r)
            then rusage_add (rusage_sub (the (usage_rd b (who r))) (the (usage_rd a (who r)))) (ru (accum r))
            else ru (accum r))\<rparr>"

lemma start_stop:
  assumes "good_readings (flags r) (who r) a" and "good_readings (flags r) (who r) b"
  obtains r' where "prfm_start a r = Inr r'" "flags r' = flags r" "who r' = who r"
    and "prfm_stop j b r' = Inr (r'\<lparr>accum := iteration a b r\<rparr>)"
proof -
  define st where "st = \<lparr>tm = if wants_time (flags r) then the (clock_rd a) else tm (start r),
     ru = if wants_usage (flags r) then the (usage_rd a (who r)) else ru (start r)\<rparr>"
  have "prfm_start a r = Inr (r\<lparr>start := st\<rparr>)"
    by (simp add: prfm_start_def capture_good [OF assms(1)] st_def)
  moreover have "prfm_stop j b (r\<lparr>start := st\<rparr>) = Inr (r\<lparr>start := st, accum := iteration a b r\<rparr>)"
    using assms(2)
    by (simp add: prfm_stop_def capture_good iteration_def st_def Let_def wants_time_def wants_usage_def)
  ultimately show ?thesis
    using that by simp
qed


lemma iteration_time:
  assumes "wants_time (flags r)" and "good_readings (flags r) (who r) a"
    and "good_readings (flags r) (who r) b" and "ts_normal (tm (accum r))"
  shows "ts_normal (tm (iteration a b r))"
    and "ts_units (tm (iteration a b r)) = clock_units b - clock_units a + ts_units (tm (accum r))"
  using assms
  by (auto simp: iteration_def good_readings_def clock_units_def ts.units_add ts.units_sub
      intro!: ts.normal_add ts.normal_sub split: option.splits)

lemma iteration_usage:
  assumes "wants_usage (flags r)" and "i < 16"
  shows "ru_counters (ru (iteration a b r)) ! i =
    usage_counter (who r) i b - usage_counter (who r) i a + ru_counters (ru (accum r)) ! i"
  using assms by (simp add: iteration_def usage_counter_def ru_counters_add ru_counters_sub)

lemma iteration_others:
  "\<not> wants_time (flags r) \<Longrightarrow> tm (iteration a b r) = tm (accum r)"
  "\<not> wants_usage (flags r) \<Longrightarrow> ru (iteration a b r) = ru (accum r)"
  by (simp_all add: iteration_def)

definition good_run :: "u32 \<Rightarrow> int \<Rightarrow> (readings \<times> readings \<times> prfm_metrics) list \<Rightarrow> bool" where
  "good_run fl w es \<longleftrightarrow> (\<forall>(a, b, j)\<in>set es. good_readings fl w a \<and> good_readings fl w b)"

lemma good_run_Cons [simp]:
  "good_run fl w ((a, b, j) # es) \<longleftrightarrow> good_readings fl w a \<and> good_readings fl w b \<and> good_run fl w es"
  by (auto simp: good_run_def)

text \<open>What the iterations add to the accumulated metrics.\<close>

definition accumulated ::
  "u32 \<Rightarrow> int \<Rightarrow> (readings \<times> readings \<times> prfm_metrics) list \<Rightarrow> prfm_metrics \<Rightarrow> prfm_metrics \<Rightarrow> bool" where
  "accumulated fl w es m m' \<longleftrightarrow>
     (if wants_time fl
      then ts_normal (tm m') \<and> ts_units (tm m') = ts_units (tm m)
             + sum_list (map (\<lambda>(a, b, j). clock_units b - clock_units a) es)
      else tm m' = tm m)
     \<and> (if wants_usage fl
        then \<forall>i<16. ru_counters (ru m') ! i = ru_counters (ru m) ! i
               + sum_list (map (\<lambda>(a, b, j). usage_counter w i b - usage_counter w i a) es)
        else ru m' = ru m)"

lemma accumulated_Cons:
  assumes "good_readings (flags r) (who r) a" and "good_readings (flags r) (who r) b"
    and "wants_time (flags r) \<Longrightarrow> ts_normal (tm (accum r))"
    and "accumulated (flags r) (who r) es (iteration a b r) m'"
  shows "accumulated (flags r) (who r) ((a, b, j) # es) (accum r) m'"
  using assms(4) iteration_time(2) [OF _ assms(1,2,3)] iteration_usage [of r _ a b]
    iteration_others [of r a b]
  by (auto simp: accumulated_def)

lemma runs_sum:
  assumes "good_run (flags r) (who r) es" and "wants_time (flags r) \<Longrightarrow> ts_normal (tm (accum r))"
  shows "\<exists>r'. prfm_runs es r = Inr r' \<and> accumulated (flags r) (who r) es (accum r) (accum r')"
  using assms
proof (induction es arbitrary: r)
  case Nil
  then show ?case
    by (simp add: accumulated_def)
next
  case (Cons e es)
  obtain a b j where e: "e = (a, b, j)"
    by (cases e)
  have good: "good_readings (flags r) (who r) a" "good_readings (flags r) (who r) b"
    and rest: "good_run (flags r) (who r) es"
    using Cons.prems(1) by (simp_all add: e)
  obtain r1 where r1: "prfm_start a r = Inr r1" "flags r1 = flags r" "who r1 = who r"
    "prfm_stop j b r1 = Inr (r1\<lparr>accum := iteration a b r\<rparr>)"
    using start_stop [OF good] .
  define r2 where "r2 = r1\<lparr>accum := iteration a b r\<rparr>"
  have r2: "flags r2 = flags r" "who r2 = who r" "accum r2 = iteration a b r"
    by (simp_all add: r2_def r1)
  have "wants_time (flags r2) \<Longrightarrow> ts_normal (tm (accum r2))"
    using iteration_time(1) good Cons.prems(2) by (simp add: r2)
  then obtain r' where "prfm_runs es r2 = Inr r'"
    and "accumulated (flags r) (who r) es (iteration a b r) (accum r')"
    using Cons.IH [of r2] rest r2 by auto
  moreover have "prfm_runs (e # es) r = prfm_runs es r2"
    by (simp add: e r1 r2_def)
  ultimately show ?case
    using accumulated_Cons [OF good Cons.prems(2)] by (auto simp: e)
qed

lemma xinit_fields:
  "flags (prfm_xinit fl w r) = fl" "who (prfm_xinit fl w r) = w"
  "wants_time fl \<Longrightarrow> tm (accum (prfm_xinit fl w r)) = timespecclear"
  "\<not> wants_time fl \<Longrightarrow> tm (accum (prfm_xinit fl w r)) = tm (accum r)"
  "wants_usage fl \<Longrightarrow> ru (accum (prfm_xinit fl w r)) = rusage_clear"
  "\<not> wants_usage fl \<Longrightarrow> ru (accum (prfm_xinit fl w r)) = ru (accum r)"
  by (simp_all add: prfm_xinit_def reset_def wants_time_def wants_usage_def Let_def)

lemma clear_facts [simp]: "ts_normal timespecclear" "ts_units timespecclear = 0"
  by (simp_all add: timespecclear_def ts_normal_def ts_units_def)

section \<open>Properties\<close>

text \<open>
  C25: after \<open>prfm_xinit\<close>, any list of start/stop iterations whose readings succeed aborts nowhere
  and accumulates, for what the flags ask, exactly the sum of the differences of the readings:
  the time in nanoseconds with a fraction below a second, and each of the sixteen counters of the
  usage.  What the flags do not ask for keeps the value it had before the initialization, and the
  uninitialized local variable of \<open>prfm_stop\<close> never shows.
\<close>

theorem prfm_accumulates:
  assumes "good_run fl w es"
  shows "\<exists>r'. prfm_runs es (prfm_xinit fl w r) = Inr r'
    \<and> (if wants_time fl
       then ts_normal (tm (accum r'))
         \<and> ts_units (tm (accum r')) = sum_list (map (\<lambda>(a, b, j). clock_units b - clock_units a) es)
       else tm (accum r') = tm (accum r))
    \<and> (if wants_usage fl
       then \<forall>i<16. ru_counters (ru (accum r')) ! i
              = sum_list (map (\<lambda>(a, b, j). usage_counter w i b - usage_counter w i a) es)
       else ru (accum r') = ru (accum r))"
proof -
  have "wants_time fl \<Longrightarrow> ts_normal (tm (accum (prfm_xinit fl w r)))"
    by (simp add: xinit_fields)
  then obtain r' where r': "prfm_runs es (prfm_xinit fl w r) = Inr r'"
    "accumulated fl w es (accum (prfm_xinit fl w r)) (accum r')"
    using runs_sum [of "prfm_xinit fl w r" es] assms by (auto simp: xinit_fields)
  then show ?thesis
    by (cases "wants_time fl"; cases "wants_usage fl")
       (simp_all add: accumulated_def xinit_fields ru_counters_clear)
qed

text \<open>
  The macros of \<open>nbsd_time.h\<close> give the right result also when they write through one of their
  operands: on a store, \<open>timespecsub\<close> and \<open>timespecadd\<close> update the destination with the value
  computed from the operands' values before, whichever of the three pointers are equal.
\<close>

theorem timespec_in_place:
  "timespecsub_at t u v st = st(v := timespecsub (st t) (st u))
    \<and> timespecadd_at t u v st = st(v := timespecadd (st t) (st u))"
proof
  show "timespecsub_at t u v st = st(v := timespecsub (st t) (st u))"
    by (rule tstore_eqI) (auto simp: timespecsub_at_def timespecsub_def Let_def)
  show "timespecadd_at t u v st = st(v := timespecadd (st t) (st u))"
    by (rule tstore_eqI) (auto simp: timespecadd_at_def timespecadd_def Let_def)
qed

text \<open>
  C35: on normalized times addition and subtraction undo each other, the comparison macro is the
  comparison of the nanoseconds, and the conversion to a \<open>timeval\<close> and back cuts a time down to
  the microsecond below it (and is the identity from a \<open>timeval\<close>).
\<close>

theorem timespec_laws:
  assumes "ts_normal t" and "ts_normal u" and "tv_normal v"
  shows "timespecadd (timespecsub t u) u = t \<and> timespecsub (timespecadd t u) u = t
    \<and> timespeccmp t u (<) = (ts_units t < ts_units u)
    \<and> ts_units (TIMEVAL_TO_TIMESPEC (TIMESPEC_TO_TIMEVAL t)) = ts_units t - ts_units t mod 1000
    \<and> TIMESPEC_TO_TIMEVAL (TIMEVAL_TO_TIMESPEC v) = v"
proof -
  have d: "ts_nsec t sdiv 1000 = ts_nsec t div 1000"
    using assms(1) by (simp add: ts_normal_def signed_divide_int_def sgn_if)
  have e: "tv_usec v * 1000 sdiv 1000 = tv_usec v"
    using assms(3) by (simp add: tv_normal_def signed_divide_int_def sgn_if)
  have "ts_sec t * 1000000000 + ts_nsec t = ts_nsec t + (ts_sec t * 1000000) * 1000"
    by simp
  then have m: "(ts_sec t * 1000000000 + ts_nsec t) mod 1000 = ts_nsec t mod 1000"
    by (simp only: mod_mult_self1)
  have "timespeccmp t u (<) \<longleftrightarrow> t < u"
    by (simp add: less_timespec_def)
  then show ?thesis
    using assms ts.sub_add ts.add_sub ts.units_less d e m
    by (simp add: TIMEVAL_TO_TIMESPEC_def TIMESPEC_TO_TIMEVAL_def ts_units_def minus_mod_eq_div_mult [symmetric])
qed


theorem timespec_laws_witness:
  "timespecadd (timespecsub (Timespec 1 5) (Timespec 2 999)) (Timespec 2 999) = Timespec 1 5
    \<and> timespecsub (timespecadd (Timespec 1 5) (Timespec 2 999)) (Timespec 2 999) = Timespec 1 5
    \<and> timespeccmp (Timespec 1 5) (Timespec 2 999) (<) = (ts_units (Timespec 1 5) < ts_units (Timespec 2 999))
    \<and> ts_units (TIMEVAL_TO_TIMESPEC (TIMESPEC_TO_TIMEVAL (Timespec 1 5)))
        = ts_units (Timespec 1 5) - ts_units (Timespec 1 5) mod 1000
    \<and> TIMESPEC_TO_TIMEVAL (TIMEVAL_TO_TIMESPEC (Timeval 3 999999)) = Timeval 3 999999"
  by (rule timespec_laws) (simp_all add: ts_normal_def tv_normal_def)

lemma tm_loop_last:
  "tm_loop m_gtm e i (Suc k) (tv, tsp) = (Some (gtm_rd e (i + Suc k)), tsp)"
  "tm_loop m_mnt e i (Suc k) (tv, tsp) = (tv, Some (mnt_rd e (i + Suc k)))"
  by (induction k arbitrary: i tv tsp) simp_all

lemma gtm_diff_units: "gtm_diff (Some t) (Some e) = Inr (tv_units e - tv_units t)"
  by (simp add: gtm_diff_def tv_units_def Let_def algebra_simps)

lemma ctm_diff_units: "ctm_diff (Some t) (Some e) = Inr (ts_units e - ts_units t)"
  by (simp add: ctm_diff_def ts_units_def Let_def algebra_simps)

lemma timespec_sub_eq: "timespec_sub (Some a) (Some b) True = Inr (timespecsub a b)"
  by (simp add: timespec_sub_def timespecsub_def Let_def)

text \<open>
  A run of \<open>tmcmp\<close> in mode \<open>gtm\<close> or \<open>mnt\<close> (in any case of letters) whose calls succeed exits
  with 0 and prints the difference, in micro- or nanoseconds, between the last reading of the loop
  and the one before it: the variables the loop fills are never read uninitialized.
\<close>

theorem tm_main_result:
  assumes "tm_mode_of name = Some md" and "0 < n" and "0 \<le> sysconf_rd e" and "times_ok1 e" and "times_ok2 e"
  shows "tm_main e (Some (name, int n)) = Inr (0,
    case md of m_gtm \<Rightarrow> Some (tv_units (gtm_rd e n) - tv_units (gtm_rd e 0))
      | m_mnt \<Rightarrow> Some (ts_units (mnt_rd e n) - ts_units (mnt_rd e 0)) | _ \<Rightarrow> None)"
proof -
  obtain k where "n = Suc k"
    using assms(2) by (cases n) auto
  then show ?thesis
    using assms tm_loop_last [of e 0 k None None]
    by (simp add: tm_main_def clk_diff_def Let_def gtm_diff_units ctm_diff_units split_beta
        split: tm_mode.splits)
qed

definition tm_env_run :: tm_env where
  "tm_env_run = \<lparr>gtm_rd = \<lambda>i. Timeval (int i) 0, mnt_rd = \<lambda>i. Timespec 1 (int i), sysconf_rd = 100,
     sys_err = 0, times_ok1 = True, times_ok2 = True\<rparr>"

theorem tm_main_result_witness: "tm_main tm_env_run (Some (''MnT'', 3)) = Inr (0, Some 3)"
proof -
  have "tm_mode_of ''MnT'' = Some m_mnt"
    by (simp add: tm_mode_of_def strcaseeq_def lower_def)
  from tm_main_result [OF this, of 3 tm_env_run] show ?thesis
    by (simp add: tm_env_run_def ts_units_def)
qed

section \<open>Probes of one kind\<close>

text \<open>
  \<open>prfm_tm_init\<close> is documented as measuring resources only, without time; it measures the time
  only: the usage is never touched.
\<close>

lemma prfm_tm_init_time_only:
  assumes "good_run prfm_TIME RUSAGE_SELF es"
  shows "\<exists>r'. prfm_runs es (prfm_tm_init r) = Inr r'
    \<and> ts_units (tm (accum r')) = sum_list (map (\<lambda>(a, b, j). clock_units b - clock_units a) es)
    \<and> ru (accum r') = ru (accum r)"
proof -
  have w: "wants_time prfm_TIME" "\<not> wants_usage prfm_TIME"
    by (simp_all add: wants_time_def wants_usage_def prfm_TIME_def prfm_RUSAGE_def)
  show ?thesis
    using runs_sum [of "prfm_tm_init r" es] assms w
    by (auto simp: prfm_tm_init_def xinit_fields accumulated_def)
qed

text \<open>A probe replaces the accumulated usage by the current one and forgets the accumulated time.\<close>

lemma prfm_probe_forgets:
  assumes "good_readings (flags r) (who r) e"
  shows "\<exists>r'. prfm_probe e r = Inr r' \<and> tm (accum r') = timespecclear
    \<and> (wants_usage (flags r) \<longrightarrow> usage_rd e (who r) = Some (ru (accum r')))"
  using assms by (auto simp: prfm_probe_def capture_good good_readings_def)

definition read_run :: "timespec \<Rightarrow> readings" where
  "read_run c = \<lparr>clock_rd = Some c, usage_rd = \<lambda>w. None\<rparr>"

definition junk_run :: prfm_metrics where
  "junk_run = \<lparr>tm = Timespec 7 (-7), ru = rusage_clear\<rparr>"

definition probe_run :: prfm where
  "probe_run = \<lparr>who = 9, flags = 0, start = junk_run, accum = junk_run\<rparr>"

definition iterations_run :: "(readings \<times> readings \<times> prfm_metrics) list" where
  "iterations_run = [(read_run (Timespec 1 999999999), read_run (Timespec 2 1), junk_run),
     (read_run (Timespec 5 0), read_run (Timespec 6 999999999), junk_run)]"

theorem prfm_accumulates_witness:
  "\<exists>r'. prfm_runs iterations_run (prfm_xinit prfm_TIME 0 probe_run) = Inr r'
    \<and> ts_units (tm (accum r')) = 2000000001 \<and> ru (accum r') = rusage_clear"
proof -
  have "good_run prfm_TIME 0 iterations_run"
    by (simp add: good_run_def good_readings_def iterations_run_def read_run_def wants_time_def
        wants_usage_def ts_normal_def prfm_TIME_def prfm_RUSAGE_def)
  from prfm_accumulates [OF this, of probe_run] show ?thesis
    by (auto simp: iterations_run_def read_run_def wants_time_def wants_usage_def ts_units_def
        clock_units_def prfm_TIME_def prfm_RUSAGE_def probe_run_def junk_run_def)
qed

end
