(* ===== verification/Sorting.thy ===== *)
theory Sorting
  imports Prelude "HOL-Library.Multiset" "HOL-Library.Signed_Division"
begin

text \<open>
  \<open>sort/simple_sort.c\<close>: four sorts of an array of \<open>long\<close>.  Every access is checked; \<open>size_t\<close>
  indices wrap, so that \<open>i - 1\<close> at \<open>i = 0\<close> is the largest \<open>size_t\<close>.  The values are only moved and
  compared.  The bound \<open>N\<close> of \<open>shell_sort\<close> is defined nowhere in the sources; it is a parameter.
\<close>

section \<open>The routines\<close>

definition swap :: "int list \<Rightarrow> int \<Rightarrow> int \<Rightarrow> int list cresult" where
  "swap val p q =
     cbind (aget val p) (\<lambda>tmp. cbind (aget val q) (\<lambda>w. cbind (aset val p w) (\<lambda>val. aset val q tmp)))"

text \<open>\<open>selection_sort\<close>: the inner loop over \<open>j\<close> (\<open>k\<close> rounds are left), the loop over \<open>i\<close>.\<close>

fun select_min :: "nat \<Rightarrow> nat \<Rightarrow> nat \<Rightarrow> int list \<Rightarrow> nat cresult" where
  "select_min 0 j mn val = Inr mn"
| "select_min (Suc k) j mn val =
     cbind (aget val (int mn)) (\<lambda>a. cbind (aget val (int j)) (\<lambda>b.
     select_min k (j + 1) (if a < b then j else mn) val))"

fun selection_loop :: "nat \<Rightarrow> nat \<Rightarrow> nat \<Rightarrow> int list \<Rightarrow> int list cresult" where
  "selection_loop 0 i num val = Inr val"
| "selection_loop (Suc k) i num val =
     cbind (select_min (num - (i + 1)) (i + 1) i val) (\<lambda>mn.
     cbind (if mn \<noteq> size_sub i 1 then swap val (int mn) (int (size_sub i 1)) else Inr val) (\<lambda>val.
     selection_loop k (i + 1) num val))"

definition selection_sort :: "int list \<Rightarrow> nat \<Rightarrow> int list cresult" where
  "selection_sort val num = (if num < 2 then Inr val else selection_loop num 0 num val)"

text \<open>
  The shifting loop of \<open>insertion_sort\<close> (step \<open>h = 1\<close>) and \<open>shell_sort\<close>: it gives the array and
  the \<open>j\<close> at which it stops.
\<close>

function shift :: "nat \<Rightarrow> int \<Rightarrow> int \<Rightarrow> int list \<Rightarrow> (int list \<times> int) cresult" where
  "shift h v j val =
     (if h = 0 \<or> j < 0 then Inr (val, j)
      else cbind (aget val j) (\<lambda>w.
        if v < w then cbind (aset val (j + int h) w) (\<lambda>val. shift h v (j - int h) val)
        else Inr (val, j)))"
  by pat_completeness auto
termination by (relation "measure (\<lambda>(h, v, j, val). nat (j + 1))") auto

declare shift.simps [simp del]

text \<open>The loop over \<open>i\<close> (\<open>k\<close> rounds are left).\<close>

fun insertion_loop :: "nat \<Rightarrow> nat \<Rightarrow> nat \<Rightarrow> int list \<Rightarrow> int list cresult" where
  "insertion_loop h 0 i val = Inr val"
| "insertion_loop h (Suc k) i val =
     cbind (aget val (int i)) (\<lambda>v.
     cbind (shift h v (int i - int h) val) (\<lambda>(val, j).
     cbind (aset val j v) (\<lambda>val. insertion_loop h k (i + 1) val)))"

definition insertion_sort :: "int list \<Rightarrow> nat \<Rightarrow> int list cresult" where
  "insertion_sort val num = (if num < 2 then Inr val else insertion_loop 1 (num - 1) 1 val)"

text \<open>\<open>shell_sort\<close>: the first step, then the steps \<open>h, h / 3, ...\<close> down to 1.\<close>

function first_gap :: "nat \<Rightarrow> nat \<Rightarrow> nat" where
  "first_gap n h = (if h \<le> n div 9 then first_gap n (h + (3 * h + 1)) else h)"
  by pat_completeness auto
termination by (relation "measure (\<lambda>(n, h). n + 1 - h)") auto

declare first_gap.simps [simp del]

function shell_loop :: "nat \<Rightarrow> nat \<Rightarrow> int list \<Rightarrow> int list cresult" where
  "shell_loop h num val =
     (if h = 0 then Inr val
      else cbind (insertion_loop h (num - h) h val) (\<lambda>val. shell_loop (h div 3) num val))"
  by pat_completeness auto
termination by (relation "measure (\<lambda>(h, num, val). h)") auto

declare shell_loop.simps [simp del]

definition shell_sort :: "nat \<Rightarrow> int list \<Rightarrow> nat \<Rightarrow> int list cresult" where
  "shell_sort N val num = (if num < 2 then Inr val else shell_loop (first_gap N 1) num val)"

text \<open>\<open>bubble_sort\<close>: the pass over \<open>j\<close> (\<open>k\<close> rounds are left), the loop over \<open>i\<close>.\<close>

fun bubble_pass :: "nat \<Rightarrow> nat \<Rightarrow> int list \<Rightarrow> int list cresult" where
  "bubble_pass 0 j val = Inr val"
| "bubble_pass (Suc k) j val =
     cbind (aget val (int j - 1)) (\<lambda>a. cbind (aget val (int j)) (\<lambda>b.
     cbind (if b < a then swap val (int j - 1) (int j) else Inr val) (\<lambda>val.
     bubble_pass k (j + 1) val)))"

fun bubble_loop :: "nat \<Rightarrow> int list \<Rightarrow> int list cresult" where
  "bubble_loop 0 val = Inr val"
| "bubble_loop (Suc i) val = cbind (bubble_pass (Suc i) 1 val) (\<lambda>val. bubble_loop i val)"

definition bubble_sort :: "int list \<Rightarrow> nat \<Rightarrow> int list cresult" where
  "bubble_sort val num = (if num < 2 then Inr val else bubble_loop (num - 1) val)"

section \<open>Exchanges\<close>

lemma swap_eq:
  assumes "p < length val" and "q < length val"
  shows "swap val (int p) (int q) = Inr (val[p := val ! q, q := val ! p])"
  using assms by (simp add: swap_def)

lemma swap_mset: "p < length val \<Longrightarrow> q < length val \<Longrightarrow> mset (val[p := val ! q, q := val ! p]) = mset val"
  by (metis mset_swap)

section \<open>Bubble sort\<close>

text \<open>One exchange step of the pass.\<close>

definition exchange :: "nat \<Rightarrow> int list \<Rightarrow> int list" where
  "exchange j val = (if val ! Suc j < val ! j then val[j := val ! Suc j, Suc j := val ! j] else val)"

lemma exchange_facts:
  assumes "Suc j < length val"
  shows "length (exchange j val) = length val" and "mset (exchange j val) = mset val"
    and "exchange j val ! Suc j = max (val ! j) (val ! Suc j)"
    and "exchange j val ! j = min (val ! j) (val ! Suc j)"
    and "k \<noteq> j \<Longrightarrow> k \<noteq> Suc j \<Longrightarrow> exchange j val ! k = val ! k"
  using assms by (auto simp: exchange_def swap_mset nth_list_update)

lemma bubble_pass_step:
  assumes "Suc j < length val"
  shows "bubble_pass (Suc k) (Suc j) val = bubble_pass k (Suc (Suc j)) (exchange j val)"
  using assms swap_eq [of j val "Suc j"] by (auto simp: exchange_def)

text \<open>A pass brings the largest of the front to its end and leaves the rest.\<close>

lemma bubble_pass_spec:
  assumes "j + k < length val" and "\<And>x. x < j \<Longrightarrow> val ! x \<le> val ! j"
  shows "\<exists>w. bubble_pass k (Suc j) val = Inr w \<and> length w = length val \<and> mset w = mset val
    \<and> (\<forall>x\<le>j + k. w ! x \<le> w ! (j + k)) \<and> (\<forall>x>j + k. w ! x = val ! x)"
  using assms
proof (induction k arbitrary: j val)
  case 0
  then show ?case
    by (auto simp: le_less)
next
  case (Suc k)
  have lt: "Suc j < length val"
    using Suc.prems(1) by simp
  note ex = exchange_facts [OF lt]
  have le: "exchange j val ! x \<le> exchange j val ! Suc j" if "x < Suc j" for x
    using Suc.prems(2) [of x] that ex by (cases "x = j") (auto simp: max_def)
  have "Suc j + k < length (exchange j val)"
    using Suc.prems(1) ex(1) by simp
  from Suc.IH [OF this le] obtain w where w: "bubble_pass k (Suc (Suc j)) (exchange j val) = Inr w"
    "length w = length val" "mset w = mset val" "\<forall>x\<le>Suc j + k. w ! x \<le> w ! (Suc j + k)"
    "\<forall>x>Suc j + k. w ! x = exchange j val ! x"
    by (auto simp: ex)
  have "\<forall>x>j + Suc k. w ! x = val ! x"
    using w(5) ex(5) by simp
  with w bubble_pass_step [OF lt, of k] show ?case
    by simp
qed

text \<open>The pass keeps the multiset of the front, because it keeps the tail and the whole.\<close>

lemma front_mset:
  assumes "mset w = mset val" and "length w = length val" and "\<And>x. n \<le> x \<Longrightarrow> x < length val \<Longrightarrow> w ! x = val ! x"
  shows "mset (take n w) = mset (take n val)"
proof -
  have "drop n w = drop n val"
    using assms(2,3) by (intro nth_equalityI) auto
  with assms(1) show ?thesis
    by (metis append_take_drop_id mset_append add_right_imp_eq)
qed

lemma bubble_loop_spec:
  assumes "n < length val" and "sorted (drop (Suc n) val)"
    and "\<And>x y. x \<le> n \<Longrightarrow> n < y \<Longrightarrow> y < length val \<Longrightarrow> val ! x \<le> val ! y"
  shows "\<exists>w. bubble_loop n val = Inr w \<and> mset w = mset val \<and> sorted w"
  using assms
proof (induction n arbitrary: val)
  case 0
  then obtain x xs where val: "val = x # xs"
    by (cases val) simp_all
  have "x \<le> xs ! i" if "i < length xs" for i
    using "0.prems"(3) [of 0 "Suc i"] that by (simp add: val)
  then have "sorted val"
    using "0.prems"(2) by (simp add: val all_set_conv_all_nth)
  then show ?case
    by simp
next
  case (Suc n)
  obtain w where w: "bubble_pass (Suc n) 1 val = Inr w" "length w = length val" "mset w = mset val"
    "\<And>x. x \<le> Suc n \<Longrightarrow> w ! x \<le> w ! Suc n" "\<And>x. Suc n < x \<Longrightarrow> w ! x = val ! x"
    using bubble_pass_spec [of 0 "Suc n" val] Suc.prems(1) by auto
  have front: "mset (take (Suc (Suc n)) w) = mset (take (Suc (Suc n)) val)"
    by (rule front_mset) (use w in auto)
  have "w ! Suc n \<in> set (take (Suc (Suc n)) val)"
    using front w(2) Suc.prems(1) by (metis in_set_conv_nth length_take lessI min_less_iff_conj mset_eq_setD nth_take)
  then obtain z where z: "z \<le> Suc n" "w ! Suc n = val ! z"
    by (auto simp: in_set_conv_nth less_Suc_eq_le)
  have tail: "drop (Suc (Suc n)) w = drop (Suc (Suc n)) val"
    using w(2,5) by (intro nth_equalityI) auto
  have bound: "w ! Suc n \<le> y" if "y \<in> set (drop (Suc (Suc n)) w)" for y
    using that z Suc.prems(3) [OF z(1)] by (auto simp: tail in_set_conv_nth)
  have "sorted (drop (Suc n) w)"
    using bound Suc.prems(1,2) w(2) tail by (simp add: Cons_nth_drop_Suc [symmetric])
  moreover have "w ! x \<le> w ! y" if "x \<le> n" "n < y" "y < length w" for x y
  proof (cases "y = Suc n")
    case False
    then obtain d where d: "y = Suc (Suc n) + d"
      using \<open>n < y\<close> less_eqE [of "Suc (Suc n)" y] by auto
    then have "w ! y = drop (Suc (Suc n)) w ! d" and "d < length (drop (Suc (Suc n)) w)"
      using \<open>y < length w\<close> by simp_all
    then have "w ! y \<in> set (drop (Suc (Suc n)) w)"
      by (metis nth_mem)
    with bound w(4) [of x] that show ?thesis
      by force
  qed (use w(4) that in simp)
  ultimately show ?case
    using Suc.IH [of w] w Suc.prems(1) by simp
qed


section \<open>Shifting\<close>

lemma shift_stop:
  "0 < h \<Longrightarrow> 0 \<le> j \<Longrightarrow> nat j < length val \<Longrightarrow> val ! nat j \<le> v \<Longrightarrow> shift h v j val = Inr (val, j)"
  by (subst shift.simps) simp

lemma shift_move:
  "0 < h \<Longrightarrow> 0 \<le> j \<Longrightarrow> nat j + h < length val \<Longrightarrow> v < val ! nat j \<Longrightarrow>
     shift h v j val = shift h v (j - int h) (val[nat j + h := val ! nat j])"
  by (subst shift.simps) (simp add: nat_add_distrib)

lemma shift_out: "j < 0 \<Longrightarrow> shift h v j val = Inr (val, j)"
  by (subst shift.simps) simp

text \<open>On sorted input every round of \<open>insertion_sort\<close> writes \<open>val[i]\<close> over \<open>val[i - 1]\<close>.\<close>

lemma insertion_sorted:
  "sorted (a # ys) \<Longrightarrow>
     insertion_loop 1 (length ys) (Suc (length xs)) (xs @ a # ys) = Inr (xs @ ys @ [last (a # ys)])"
proof (induction ys arbitrary: xs a)
  case (Cons b ys)
  have "shift 1 b (int (length xs)) (xs @ a # b # ys) = Inr (xs @ a # b # ys, int (length xs))"
    using Cons.prems by (intro shift_stop) simp_all
  moreover have "sorted (b # ys)"
    using Cons.prems by simp
  ultimately show ?case
    using Cons.IH [of b "xs @ [b]"] by (simp add: nth_append)
qed simp

text \<open>
  A value smaller than all before it, with the step \<open>h\<close>, drives \<open>j\<close> below zero: the store after
  the shifting loop is outside the array.
\<close>

lemma insertion_smallest:
  assumes "0 < h" and "h < length val" and "val ! h < val ! 0"
  shows "insertion_loop h (Suc k) h val = Inl OutOfBounds"
proof -
  have "shift h (val ! h) 0 val = Inr (val[h := val ! 0], - int h)"
    using assms by (simp add: shift_move shift_out)
  then show ?thesis
    using assms(1,2) by (simp add: aset_def)
qed

section \<open>Properties\<close>

text \<open>
  C32: \<open>bubble_sort\<close> is correct: on every array, with its length, it stays in bounds and leaves the
  sorted permutation of the contents.
\<close>

theorem bubble_sort_correct: "bubble_sort val (length val) = Inr (sort val)"
proof (cases "length val < 2")
  case True
  then have "sort val = val"
    by (cases val; cases "tl val") simp_all
  with True show ?thesis
    by (simp add: bubble_sort_def)
next
  case False
  then have "length val - 1 < length val" and "Suc (length val - 1) = length val"
    by simp_all
  then obtain w where "bubble_loop (length val - 1) val = Inr w" "mset w = mset val" "sorted w"
    using bubble_loop_spec [of "length val - 1" val] by auto
  with False show ?thesis
    by (simp add: bubble_sort_def properties_for_sort)
qed

text \<open>
  \<open>insertion_sort\<close> does not sort: the store \<open>val[j] = v\<close> is one place too low.  On sorted input
  the first value is lost and the last one doubled; when the second value is below the first, the
  store is outside the array.
\<close>

theorem insertion_sort_wrong:
  assumes "sorted (a # b # ys)" and "d < c"
  shows "insertion_sort (a # b # ys) (length (a # b # ys)) = Inr (b # ys @ [last (b # ys)])
    \<and> insertion_sort (c # d # zs) (length (c # d # zs)) = Inl OutOfBounds"
  using insertion_sorted [OF assms(1), of "[]"] insertion_smallest [of 1 "c # d # zs" "length zs"] assms(2)
  by (simp add: insertion_sort_def)

theorem insertion_sort_wrong_witness:
  "insertion_sort [1, 2, 5] (length [1, 2, 5 :: int]) = Inr [2, 5, 5]
    \<and> insertion_sort [3, 2] (length [3, 2 :: int]) = Inl OutOfBounds"
  using insertion_sort_wrong [of 1 2 "[5]" 2 3 "[]"] by simp

lemma select_min_bound:
  "mn < length val \<Longrightarrow> j + k \<le> length val \<Longrightarrow> \<exists>m. select_min k j mn val = Inr m \<and> m < length val"
  by (induction k arbitrary: j mn) auto

text \<open>
  \<open>selection_sort\<close> of two or more values always leaves the array: at \<open>i = 0\<close> the exchange is
  with \<open>val[i - 1]\<close>, the wrapped index.
\<close>

theorem selection_sort_traps:
  assumes "2 \<le> length val" and "length val < 2 ^ 60"
  shows "selection_sort val (length val) = Inl OutOfBounds"
proof -
  obtain m where m: "select_min (length val - 1) 1 0 val = Inr m" "m < length val"
    using select_min_bound [of 0 val 1 "length val - 1"] assms(1) by fastforce
  have wrap: "size_sub 0 (Suc 0) = 2 ^ 64 - 1"
    by (simp add: size_sub_def)
  have "swap val (int m) (int (2 ^ 64 - 1)) = Inl OutOfBounds"
    using m(2) assms(2) by (simp add: swap_def aget_def)
  moreover obtain k where "length val = Suc k"
    using assms(1) by (cases "length val") simp_all
  ultimately show ?thesis
    using m assms unfolding selection_sort_def by (simp add: wrap del: of_nat_diff)
qed

theorem selection_sort_traps_witness: "selection_sort [2, 1] (length [2, 1 :: int]) = Inl OutOfBounds"
  by (rule selection_sort_traps) simp_all

text \<open>With a bound below 9 the only step of \<open>shell_sort\<close> is 1: it is \<open>insertion_sort\<close>, with its faults.\<close>

lemma shell_sort_small:
  assumes "N < 9"
  shows "shell_sort N val num = insertion_sort val num"
proof -
  have "first_gap N 1 = 1"
    using assms by (subst first_gap.simps) simp
  moreover have "shell_loop 1 num v = cbind (insertion_loop 1 (num - 1) 1 v) Inr" for v
    by (subst shell_loop.simps) (auto intro: cbind_cong simp: shell_loop.simps [of 0])
  moreover have "cbind m Inr = m" for m :: "int list cresult"
    by (cases m) simp_all
  ultimately show ?thesis
    by (simp add: shell_sort_def insertion_sort_def)
qed

end
