(* ===== verification/Relay.thy ===== *)
theory Relay
  imports Fdio Prof
begin

text \<open>
  \<open>fdwatch/frelay.c\<close> and \<open>fdwatch/writer.c\<close>: a file is copied over and over into another one, in
  chunks, by \<open>transfer\<close>; when the output has grown to its limit it is renamed, replaced by a new
  one and removed.  The model has the directory (names to inodes), the data of the inodes, and the
  descriptors; the answers of the kernel are a script, one entry for each turn of the loop.  The
  flag \<open>g_quit\<close> is set by nothing in the programs, so that it is always 0.
\<close>

section \<open>Files\<close>

record files =
  dir :: "string \<Rightarrow> nat option"
  data :: "nat \<Rightarrow> u8 list"
  next_ino :: nat

text \<open>What \<open>rollover\<close> asks of the kernel: whether each call succeeds.\<close>

record roll_env =
  rename_ok :: bool
  fsync_ok :: bool
  close_ok :: bool
  open_ok :: bool
  unlink_ok :: bool

definition fs_rename :: "string \<Rightarrow> string \<Rightarrow> files \<Rightarrow> files" where
  "fs_rename a b f = f\<lparr>dir := (dir f)(a := None, b := dir f a)\<rparr>"

definition fs_unlink :: "string \<Rightarrow> files \<Rightarrow> files" where
  "fs_unlink a f = f\<lparr>dir := (dir f)(a := None)\<rparr>"

text \<open>\<open>open\<close> with \<open>O_CREAT\<close>, and with \<open>O_TRUNC\<close> or not: the inode.\<close>

definition fs_open :: "bool \<Rightarrow> string \<Rightarrow> files \<Rightarrow> files \<times> nat" where
  "fs_open trunc a f =
     (case dir f a of
        Some i \<Rightarrow> (if trunc then f\<lparr>data := (data f)(i := [])\<rparr> else f, i)
      | None \<Rightarrow> (f\<lparr>dir := (dir f)(a \<mapsto> next_ino f), data := (data f)(next_ino f := []),
                   next_ino := next_ino f + 1\<rparr>, next_ino f))"

text \<open>The name of the moved file: \<open>snprintf\<close> with a dot and at least six digits, cut to its buffer.\<close>

definition PATH_MAX :: nat where "PATH_MAX = 4096"

fun dec_digits :: "nat \<Rightarrow> string" where
  "dec_digits n =
     (if n < 10 then [char_of (48 + n)] else dec_digits (n div 10) @ [char_of (48 + n mod 10)])"

declare dec_digits.simps [simp del]

definition roll_name :: "string \<Rightarrow> nat \<Rightarrow> string" where
  "roll_name fpath counter =
     (let d = dec_digits counter in fpath @ ''.'' @ replicate (6 - length d) (CHR ''0'') @ d)"

definition newpath :: "string \<Rightarrow> nat \<Rightarrow> string cresult" where
  "newpath fpath counter =
     cbind (cassert (counter \<noteq> 0 \<and> length (roll_name fpath counter) < PATH_MAX)) (\<lambda>_.
     Inr (take (PATH_MAX - 2) (roll_name fpath counter)))"

text \<open>
  \<open>rollover\<close> of \<open>frelay.c\<close>: the files, the inode of \<open>*fd\<close> (\<open>None\<close> is a descriptor of -1 or one
  that is closed) and the return code.
\<close>

definition frelay_rollover ::
  "string \<Rightarrow> nat \<Rightarrow> roll_env \<Rightarrow> nat option \<Rightarrow> files \<Rightarrow> (files \<times> nat option \<times> int) cresult" where
  "frelay_rollover fpath counter e fd f =
     cbind (newpath fpath counter) (\<lambda>np.
     if \<not> rename_ok e then Inr (f, fd, -1)
     else
       (let f = fs_rename fpath np f in
        if \<not> fsync_ok e then Inr (f, fd, -1)
        else if \<not> close_ok e then Inr (f, fd, -1)
        else if \<not> open_ok e then Inr (f, None, -1)
        else
          (let (f, i) = fs_open False fpath f in
           if \<not> unlink_ok e then Inr (f, Some i, -1)
           else Inr (fs_unlink np f, Some i, 0))))"

text \<open>\<open>rollover\<close> of \<open>writer.c\<close>.\<close>

definition writer_rollover ::
  "string \<Rightarrow> nat \<Rightarrow> roll_env \<Rightarrow> nat option \<Rightarrow> files \<Rightarrow> (files \<times> nat option \<times> int) cresult" where
  "writer_rollover fpath counter e fd f =
     cbind (newpath fpath counter) (\<lambda>np.
     if \<not> rename_ok e then Inr (f, fd, -1)
     else
       (let f = fs_rename fpath np f in
        if \<not> close_ok e then Inr (f, fd, -1)
        else if \<not> unlink_ok e then Inr (f, None, -1)
        else
          (let f = fs_unlink np f in
           if \<not> open_ok e then Inr (f, None, -1)
           else (let (f, i) = fs_open True fpath f in Inr (f, Some i, 0)))))"

section \<open>The loop\<close>

definition MTU_DEFAULT :: nat where "MTU_DEFAULT = 1500"

text \<open>The answers of one turn: those to \<open>transfer\<close>, to \<open>lseek\<close> (an error or success), to \<open>rollover\<close>.\<close>

record turn_env =
  answers :: "answer list"
  lseek_err :: "int option"
  roll :: roll_env

record relay =
  ios :: io
  fs :: files
  out_fd :: "nat option"
  ntotal :: int
  nrolls :: nat

text \<open>How a turn ends: the loop goes on or is left with \<open>err\<close>.\<close>

datatype turned = Goes_on relay | Left relay int

text \<open>
  The part of a turn up to the count: \<open>transfer\<close>, the test of errno, and the return to the start
  at the end of the input.  It gives the number of bytes sent or the error.
\<close>

definition pump :: "nat \<Rightarrow> turn_env \<Rightarrow> relay \<Rightarrow> (relay \<times> (int + int)) option cresult" where
  "pump chunk_len e r =
     cbind (transfer 0 None chunk_len (ios r) (answers e)) (\<lambda>t.
     case t of None \<Rightarrow> Inr None
     | Some (s, off, nsent, rest) \<Rightarrow>
         (let new = drop (length (sink (ios r))) (sink s);
              f = (case out_fd r of None \<Rightarrow> fs r
                   | Some i \<Rightarrow> (fs r)\<lparr>data := (data (fs r))(i := data (fs r) i @ new)\<rparr>);
              r = r\<lparr>ios := s, fs := f\<rparr> in
          if errno s \<noteq> 0 then Inr (Some (r, Inl (errno s)))
          else if nsent = 0 then
            (case lseek_err e of
               Some err \<Rightarrow> Inr (Some (r, Inl err))
             | None \<Rightarrow> Inr (Some (r\<lparr>ios := s\<lparr>source := content s\<rparr>\<rparr>, Inr nsent)))
          else Inr (Some (r, Inr nsent))))"

definition frelay_turn :: "string \<Rightarrow> int \<Rightarrow> turn_env \<Rightarrow> relay \<Rightarrow> turned option cresult" where
  "frelay_turn dst max_dst_len e r =
     cbind (pump (MTU_DEFAULT * 10) e r) (\<lambda>t.
     case t of None \<Rightarrow> Inr None
     | Some (r, Inl err) \<Rightarrow> Inr (Some (Left r err))
     | Some (r, Inr nsent) \<Rightarrow>
         (let r = r\<lparr>ntotal := ntotal r + nsent\<rparr> in
          if max_dst_len \<le> ntotal r + nsent then
            (let r = r\<lparr>nrolls := nrolls r + 1\<rparr> in
             cbind (frelay_rollover dst (nrolls r) (roll e) (out_fd r) (fs r)) (\<lambda>(f, fd, rc).
             let r = r\<lparr>fs := f, out_fd := fd\<rparr> in
             if rc = -1 then Inr (Some (Left r 0)) else Inr (Some (Goes_on (r\<lparr>ntotal := 0\<rparr>)))))
          else Inr (Some (Goes_on r))))"

definition MAX_DST_LENGTH :: int where "MAX_DST_LENGTH = 1024 * 1024 * 20"

definition writer_turn :: "string \<Rightarrow> turn_env \<Rightarrow> relay \<Rightarrow> turned option cresult" where
  "writer_turn dst e r =
     cbind (pump MTU_DEFAULT e r) (\<lambda>t.
     case t of None \<Rightarrow> Inr None
     | Some (r, Inl err) \<Rightarrow> Inr (Some (Left r err))
     | Some (r, Inr nsent) \<Rightarrow>
         (let r = r\<lparr>ntotal := ntotal r + nsent\<rparr> in
          if MAX_DST_LENGTH \<le> ntotal r + int MTU_DEFAULT then
            (let r = r\<lparr>nrolls := nrolls r + 1\<rparr> in
             cbind (writer_rollover dst (nrolls r) (roll e) (out_fd r) (fs r)) (\<lambda>(f, fd, rc).
             let r = r\<lparr>fs := f, out_fd := fd\<rparr> in
             if rc = -1 then Inr (Some (Left r 0)) else Inr (Some (Goes_on r))))
          else Inr (Some (Goes_on r))))"

text \<open>
  The loop on a script of turns: the state and either \<open>err\<close> when it has been left or \<open>None\<close> when
  it is still running after the script.
\<close>

fun relay_loop :: "(turn_env \<Rightarrow> relay \<Rightarrow> turned option cresult) \<Rightarrow> turn_env list \<Rightarrow> relay \<Rightarrow>
    (relay \<times> int option) cresult" where
  "relay_loop turn [] r = Inr (r, None)"
| "relay_loop turn (e # es) r =
     (if out_fd r = None then Inr (r, Some 0)
      else cbind (turn e r) (\<lambda>t.
        case t of None \<Rightarrow> Inr (r, None)
        | Some (Left r err) \<Rightarrow> Inr (r, Some err)
        | Some (Goes_on r) \<Rightarrow> relay_loop turn es r))"

text \<open>
  \<open>cyclic_file_relay\<close>: the answers to the two calls of \<open>open\<close> are the data of the source or an
  error, and success or an error.  The result is the final state and the return code, \<open>None\<close> when
  the loop is still running.
\<close>

definition relay_start :: "string \<Rightarrow> u8 list \<Rightarrow> int \<Rightarrow> files \<Rightarrow> relay" where
  "relay_start dst src err0 f =
     (let (f, i) = fs_open True dst f in
      \<lparr>ios = \<lparr>errno = err0, diag = [], sink = [], source = src, content = src\<rparr>, fs = f,
        out_fd = Some i, ntotal = 0, nrolls = 0\<rparr>)"

definition cyclic_file_relay ::
  "(turn_env \<Rightarrow> relay \<Rightarrow> turned option cresult) \<Rightarrow> string \<Rightarrow> int + u8 list \<Rightarrow> int option \<Rightarrow> int \<Rightarrow> files \<Rightarrow>
    turn_env list \<Rightarrow> (relay option \<times> int option) cresult" where
  "cyclic_file_relay turn dst src dst_err err0 f es =
     (case src of
        Inl err \<Rightarrow> Inr (None, Some (if err \<noteq> 0 then -1 else 0))
      | Inr bytes \<Rightarrow>
        (case dst_err of
           Some err \<Rightarrow> Inr (None, Some (if err \<noteq> 0 then -1 else 0))
         | None \<Rightarrow>
             cbind (relay_loop turn es (relay_start dst bytes err0 f)) (\<lambda>(r, err).
             Inr (Some r, map_option (\<lambda>err. if err \<noteq> 0 then -1 else 0) err))))"

section \<open>Arguments\<close>

text \<open>The time between two turns, and the checks of both \<open>main\<close>s (the numbers after \<open>atol\<close>).\<close>

definition delay_spec :: "int \<Rightarrow> timespec" where
  "delay_spec ms = Timespec (ms sdiv 1000) (ms smod 1000 * 1000000)"

definition MIN_DST_SZ :: int where "MIN_DST_SZ = 1024 * 10"

definition frelay_main :: "nat \<Rightarrow> int \<Rightarrow> int \<Rightarrow> int + timespec \<times> int" where
  "frelay_main argc delay_ms arg4 =
     (if argc < 4 then Inl 1
      else if delay_ms \<le> 0 \<or> 3000 < delay_ms then Inl 1
      else if 4 < argc then
        (if arg4 \<le> MIN_DST_SZ then Inl 1 else Inr (delay_spec delay_ms, arg4))
      else Inr (delay_spec delay_ms, 1024 * 1024 * 10))"

definition writer_main :: "nat \<Rightarrow> int \<Rightarrow> int + timespec" where
  "writer_main argc delay_ms =
     (if argc < 4 then Inl 1 else if delay_ms \<le> 0 then Inl 1 else Inr (delay_spec delay_ms))"


section \<open>One transfer\<close>

text \<open>Answers the kernel gives: no call fails without an error, none succeeds with nothing done.\<close>

fun real_answer :: "answer \<Rightarrow> bool" where
  "real_answer (Accept k) = (0 < k)"
| "real_answer (Fail e) = (0 < e)"

lemma nwrite_loop_real:
  assumes "nwrite_loop fl buf tot n 0 s as = Some (s', r, rest)" and "list_all real_answer as"
    and "errno s = 0" and "errno s' = 0" and "tot \<le> length buf" and "0 \<le> n \<or> tot < length buf"
  shows "r = int (length buf) \<and> sink s' = sink s @ drop tot buf \<and> source s' = source s \<and> content s' = content s"
  using assms
proof (induction as arbitrary: tot n s)
  case Nil
  then show ?case
    by (auto split: if_splits)
next
  case (Cons a as)
  show ?case
  proof (cases "tot < length buf")
    case False
    then show ?thesis
      using Cons.prems by (auto split: if_splits)
  next
    case True
    show ?thesis
    proof (cases a)
      case (Fail e)
      define s2 where "s2 = eintr_diag fl ''writev'' (s\<lparr>errno := e\<rparr>)"
      have "e = EINTR"
        using Cons.prems(1,2,4) True Fail by (rule_tac ccontr) (auto simp: Let_def split: if_splits)
      then have "nwrite_loop fl buf tot (-1) 0 s2 as = Some (s', r, rest)"
        using Cons.prems(1) True Fail by (simp add: s2_def)
      moreover have "errno s2 = 0" "sink s2 = sink s" "source s2 = source s" "content s2 = content s"
        by (simp_all add: s2_def)
      ultimately show ?thesis
        using Cons.IH [of tot "-1" s2] Cons.prems(2,4,5) True by simp
    next
      case (Accept k)
      define m where "m = min k (length buf - tot)"
      have k: "0 < k"
        using Cons.prems(2) Accept by simp
      have "nwrite_loop fl buf (tot + m) (int m) 0 (s\<lparr>sink := sink s @ take m (drop tot buf)\<rparr>) as = Some (s', r, rest)"
        using nwrite_accept [OF True k, of fl n 0 s as] Cons.prems(1) Accept by (simp add: m_def)
      moreover have "tot + m \<le> length buf"
        using True by (simp add: m_def)
      moreover have "take m (drop tot buf) @ drop (tot + m) buf = drop tot buf"
        by (metis add.commute append_take_drop_id drop_drop)
      ultimately show ?thesis
        using Cons.IH [of "tot + m" "int m" "s\<lparr>sink := sink s @ take m (drop tot buf)\<rparr>"] Cons.prems(2-4) by simp
    qed
  qed
qed

lemma nread_loop_real:
  assumes "nread_loop fl n got 0 s as = Some (s', res, rest)" and "list_all real_answer as"
    and "errno s = 0" and "errno s' = 0" and "length got \<le> n"
  shows "res = got @ take (n - length got) (source s) \<and> source s' = drop (n - length got) (source s)
    \<and> sink s' = sink s \<and> content s' = content s \<and> list_all real_answer rest"
  using assms
proof (induction as arbitrary: got s)
  case Nil
  then show ?case
    by (auto split: if_splits)
next
  case (Cons a as)
  show ?case
  proof (cases "length got < n")
    case False
    then show ?thesis
      using Cons.prems by auto
  next
    case True
    show ?thesis
    proof (cases a)
      case (Fail e)
      define s2 where "s2 = eintr_diag fl ''writev'' (s\<lparr>errno := e\<rparr>)"
      have "e = EINTR"
        using Cons.prems(1,2,4) True Fail by (rule_tac ccontr) (auto simp: Let_def split: if_splits)
      then have "nread_loop fl n got 0 s2 as = Some (s', res, rest)"
        using Cons.prems(1) True Fail by (simp add: s2_def)
      moreover have "errno s2 = 0" "sink s2 = sink s" "source s2 = source s" "content s2 = content s"
        by (simp_all add: s2_def)
      ultimately show ?thesis
        using Cons.IH [of got s2] Cons.prems(2,4,5) by simp
    next
      case (Accept k)
      define w where "w = take (min k (n - length got)) (source s)"
      define s2 where "s2 = s\<lparr>source := drop (length w) (source s)\<rparr>"
      have step: "nread_loop fl n got 0 s (Accept k # as) =
          (if w = [] then Some (s2, got, as) else nread_loop fl n (got @ w) 0 s2 as)"
        unfolding s2_def by (rule nread_accept_r [OF True w_def])
      have k: "0 < k"
        using Cons.prems(2) Accept by simp
      have lw: "length w \<le> n - length got"
        by (simp add: w_def)
      have w2: "take (length w) (source s) = w"
        by (metis append_eq_conv_conj append_take_drop_id w_def)
      show ?thesis
      proof (cases "w = []")
        case nil: True
        then have "source s = []"
          using k True by (auto simp: w_def)
        then show ?thesis
          using Cons.prems(1,2) step nil Accept by (simp add: s2_def)
      next
        case False
        have "nread_loop fl n (got @ w) 0 s2 as = Some (s', res, rest)"
          using Cons.prems(1) step False Accept by simp
        moreover have "w @ take (n - length got - length w) (drop (length w) (source s)) = take (n - length got) (source s)"
          using take_add [of "length w" "n - length got - length w" "source s"]
          unfolding w2 le_add_diff_inverse [OF lw] by simp
        ultimately show ?thesis
          using Cons.IH [of "got @ w" s2] Cons.prems(2-4) lw True
          by (simp add: s2_def diff_diff_left)
      qed
    qed
  qed
qed


lemma transfer_real:
  assumes "transfer 0 None count s as = Inr (Some (s', off, n, rest))" and "list_all real_answer as"
    and "errno s = 0" and "errno s' = 0"
  shows "n = int (length (take (chunk count) (source s))) \<and> off = None
    \<and> sink s' = sink s @ take (chunk count) (source s)
    \<and> source s' = drop (chunk count) (source s) \<and> content s' = content s"
proof (cases "nread 0 (chunk count) s as")
  case None
  then show ?thesis
    using assms(1) by (simp add: transfer_def chunk_def [symmetric] Let_def)
next
  case (Some t)
  then obtain s1 got rest1 where rd: "nread 0 (chunk count) s as = Some (s1, got, rest1)"
    by (cases t) auto
  have step: "(if got = [] \<or> errno s1 \<noteq> 0 then Inr (Some (set_errno (errno s1) s1, None, 0, rest1))
     else (case nwrite 0 got s1 rest1 of
         None \<Rightarrow> Inr None
       | Some (s, nwr, as) \<Rightarrow>
           if nwr = int (length got) then Inr (Some (s, None, nwr, as))
           else if nwr < int (length got) then Inr (Some (c_perror ''underwrite'' s, None, nwr, as))
           else Inl Aborted)) = (Inr (Some (s', off, n, rest)) :: (io \<times> int option \<times> int \<times> answer list) option cresult)"
    using transfer_step [where fl = 0 and offset = None and count = count and s = s and as = as
        and got = got and ?s1.0 = s1 and rest = rest1] rd assms(1)
    unfolding option.map by simp
  have e1: "errno s1 = 0"
    using step assms(4) by (auto split: if_splits)
  have rd': "got = take (chunk count) (source s)" "source s1 = drop (chunk count) (source s)"
    "sink s1 = sink s" "content s1 = content s" "list_all real_answer rest1"
    using nread_loop_real [of 0 "chunk count" "[]" s as s1 got rest1] rd assms(2,3) e1
    by (simp_all add: nread_def)
  show ?thesis
  proof (cases "got = []")
    case True
    then show ?thesis
      using step e1 rd' by auto
  next
    case False
    then obtain s2 nwr as2 where wr: "nwrite 0 got s1 rest1 = Some (s2, nwr, as2)" "errno s2 = 0"
      using step e1 assms(4) by (auto split: option.splits if_splits)
    have "nwr = int (length got) \<and> sink s2 = sink s1 @ got \<and> source s2 = source s1 \<and> content s2 = content s1"
      using nwrite_loop_real [of 0 got 0 0 s1 rest1 s2 nwr as2] wr rd'(5) e1 by (simp add: nwrite_def)
    then show ?thesis
      using step e1 False wr rd' by auto
  qed
qed

lemma pump_real:
  assumes "pump len e r = Inr (Some (r', Inr n))" and "list_all real_answer (answers e)"
    and "errno (ios r) = 0"
  defines "d \<equiv> take (chunk len) (source (ios r))"
  shows "n = int (length d) \<and> errno (ios r') = 0 \<and> content (ios r') = content (ios r)
    \<and> sink (ios r') = sink (ios r) @ d
    \<and> source (ios r') = (if d = [] then content (ios r) else drop (chunk len) (source (ios r)))
    \<and> fs r' = (case out_fd r of None \<Rightarrow> fs r
        | Some i \<Rightarrow> (fs r)\<lparr>data := (data (fs r))(i := data (fs r) i @ d)\<rparr>)
    \<and> out_fd r' = out_fd r \<and> ntotal r' = ntotal r \<and> nrolls r' = nrolls r"
proof -
  obtain s off nsent rest where t: "transfer 0 None len (ios r) (answers e) = Inr (Some (s, off, nsent, rest))"
    using assms(1) by (auto simp: pump_def cres split: option.splits)
  have e0: "errno s = 0"
    using assms(1) t by (auto simp: pump_def Let_def split: if_splits)
  have tr: "nsent = int (length d)" "sink s = sink (ios r) @ d"
    "source s = drop (chunk len) (source (ios r))" "content s = content (ios r)"
    using transfer_real [OF t assms(2,3) e0] by (simp_all add: d_def)
  show ?thesis
    using assms(1) t e0 tr by (auto simp: pump_def Let_def split: if_splits option.splits)
qed

section \<open>What has been written\<close>

text \<open>Everything written is a prefix of the source repeated for ever.\<close>

definition cyclic :: "u8 list \<Rightarrow> relay \<Rightarrow> bool" where
  "cyclic c r \<longleftrightarrow> content (ios r) = c \<and> errno (ios r) = 0
     \<and> (\<exists>k p. p \<le> length c \<and> sink (ios r) = concat (replicate k c) @ take p c \<and> source (ios r) = drop p c)"

lemma concat_replicate_snoc: "concat (replicate (Suc k) c) = concat (replicate k c) @ c"
  by (induction k) simp_all

lemma cyclic_pump:
  assumes "cyclic c r" and "pump len e r = Inr (Some (r', Inr n))" and "list_all real_answer (answers e)"
  shows "cyclic c r'"
proof -
  obtain k p where kp: "p \<le> length c" "sink (ios r) = concat (replicate k c) @ take p c"
    "source (ios r) = drop p c" and c: "content (ios r) = c" "errno (ios r) = 0"
    using assms(1) by (auto simp: cyclic_def)
  note pr = pump_real [OF assms(2,3) c(2)]
  show ?thesis
  proof (cases "take (chunk len) (drop p c) = []")
    case True
    then have "drop p c = []"
      by (auto simp: chunk_def TRFBUF_LIMIT_def split: if_splits)
    then have s: "sink (ios r') = concat (replicate (Suc k) c) @ take 0 c"
      using pr kp concat_replicate_snoc [of k c] by (simp del: replicate.simps)
    have "source (ios r') = drop 0 c" and "content (ios r') = c" and "errno (ios r') = 0"
      using pr kp c True by simp_all
    with s show ?thesis
      unfolding cyclic_def by (intro conjI exI [of _ "Suc k"] exI [of _ "0 :: nat"]) (simp_all only: le0)
  next
    case False
    define q where "q = min (length c) (p + chunk len)"
    have "take q c = take p c @ take (chunk len) (drop p c)"
      by (cases "p + chunk len \<le> length c") (simp_all add: q_def take_add [symmetric] min_def)
    moreover have "drop q c = drop (chunk len) (drop p c)"
      by (cases "p + chunk len \<le> length c") (simp_all add: q_def add.commute)
    ultimately have "sink (ios r') = concat (replicate k c) @ take q c" "source (ios r') = drop q c"
      and "content (ios r') = c" "errno (ios r') = 0" "q \<le> length c"
      using pr kp c False by (simp_all add: q_def)
    then show ?thesis
      unfolding cyclic_def by blast
  qed
qed

text \<open>
  Both programs turn the same way: the descriptors are moved by \<open>pump\<close> only.
\<close>

locale relay_turn =
  fixes turn :: "turn_env \<Rightarrow> relay \<Rightarrow> turned option cresult" and len :: nat
  assumes turn_pump: "turn e r = Inr (Some (Goes_on r')) \<Longrightarrow>
    \<exists>r1 n. pump len e r = Inr (Some (r1, Inr n)) \<and> ios r' = ios r1"
begin

lemma loop_invariant:
  assumes "relay_loop turn es r = Inr (r', None)" and "P r"
    and "\<forall>e\<in>set es. list_all real_answer (answers e)"
    and "\<And>e r r'. turn e r = Inr (Some (Goes_on r')) \<Longrightarrow> P r \<Longrightarrow> list_all real_answer (answers e) \<Longrightarrow> P r'"
  shows "P r'"
  using assms(1-3)
proof (induction es arbitrary: r)
  case (Cons e es)
  consider r1 where "turn e r = Inr (Some (Goes_on r1))" "relay_loop turn es r1 = Inr (r', None)"
    | "turn e r = Inr None" "r' = r"
  proof -
    obtain t where t: "out_fd r \<noteq> None" "turn e r = Inr t"
      using Cons.prems(1) by (auto simp: cres split: if_splits)
    then show ?thesis
      using Cons.prems(1) that by (cases t) (auto simp: cbind_def split: turned.splits)
  qed
  then show ?case
  proof cases
    case (1 r1)
    have "P r1"
      using assms(4) [OF 1(1) Cons.prems(2)] Cons.prems(3) by simp
    with 1(2) Cons.IH Cons.prems(3) show ?thesis
      by simp
  qed (use Cons.prems(2) in simp)
qed simp

lemma turn_cyclic:
  assumes "turn e r = Inr (Some (Goes_on r'))" and "cyclic c r" and "list_all real_answer (answers e)"
  shows "cyclic c r'"
proof -
  obtain r1 n where "pump len e r = Inr (Some (r1, Inr n))" "ios r' = ios r1"
    using turn_pump [OF assms(1)] by blast
  with cyclic_pump [OF assms(2) this(1) assms(3)] show ?thesis
    by (simp add: cyclic_def)
qed

lemma loop_cyclic:
  assumes "relay_loop turn es r = Inr (r', None)" and "cyclic c r"
    and "\<forall>e\<in>set es. list_all real_answer (answers e)"
  shows "cyclic c r'"
  using assms by (rule loop_invariant) (rule turn_cyclic)

end

lemma Goes_on_simps [simp]: "(Left r err = Goes_on r') = False" "Goes_on r = Goes_on r' \<longleftrightarrow> r = r'"
  by simp_all

text \<open>What a turn after which the loop goes on has done.\<close>

lemma pumped:
  assumes "cbind (pump len e r) f = Inr (Some (Goes_on r'))" and "f None = Inr None"
    and "\<And>r err. f (Some (r, Inl err)) = Inr (Some (Left r err))"
  obtains r1 n where "pump len e r = Inr (Some (r1, Inr n))" and "f (Some (r1, Inr n)) = Inr (Some (Goes_on r'))"
proof (cases "pump len e r")
  case (Inr t)
  show ?thesis
  proof (cases t)
    case None
    then show ?thesis
      using assms(1,2) Inr by simp
  next
    case (Some u)
    obtain r1 x where u: "u = (r1, x)"
      by (cases u)
    then show ?thesis
      using assms(1,3) Inr Some that by (cases x) simp_all
  qed
qed (use assms(1) in simp)

lemma frelay_goes_on:
  assumes "frelay_turn dst max_len e r = Inr (Some (Goes_on r'))"
  obtains (small) r1 n where "pump (MTU_DEFAULT * 10) e r = Inr (Some (r1, Inr n))"
      and "ntotal r1 + n + n < max_len" and "r' = r1\<lparr>ntotal := ntotal r1 + n\<rparr>"
  | (rolled) r1 n f fd rc where "pump (MTU_DEFAULT * 10) e r = Inr (Some (r1, Inr n))"
      and "max_len \<le> ntotal r1 + n + n" and "rc \<noteq> -1"
      and "frelay_rollover dst (nrolls r1 + 1) (roll e) (out_fd r1) (fs r1) = Inr (f, fd, rc)"
      and "r' = r1\<lparr>ntotal := 0, nrolls := nrolls r1 + 1, fs := f, out_fd := fd\<rparr>"
proof -
  obtain r1 n where p: "pump (MTU_DEFAULT * 10) e r = Inr (Some (r1, Inr n))"
    and eq: "frelay_turn dst max_len e r = Inr (Some (Goes_on r'))"
    using assms unfolding frelay_turn_def by (elim pumped) auto
  show ?thesis
  proof (cases "max_len \<le> ntotal r1 + n + n")
    case False
    then show ?thesis
      using eq p by (intro small) (auto simp: frelay_turn_def Let_def)
  next
    case True
    obtain f fd rc where ro: "frelay_rollover dst (nrolls r1 + 1) (roll e) (out_fd r1) (fs r1) = Inr (f, fd, rc)"
      using eq p True by (cases "frelay_rollover dst (nrolls r1 + 1) (roll e) (out_fd r1) (fs r1)")
        (auto simp: frelay_turn_def Let_def)
    then show ?thesis
      using eq p True by (intro rolled [OF p True _ ro]) (auto simp: frelay_turn_def Let_def split: if_splits)
  qed
qed

lemma writer_goes_on:
  assumes "writer_turn dst e r = Inr (Some (Goes_on r'))"
  obtains (small) r1 n where "pump MTU_DEFAULT e r = Inr (Some (r1, Inr n))"
      and "ntotal r1 + n + int MTU_DEFAULT < MAX_DST_LENGTH" and "r' = r1\<lparr>ntotal := ntotal r1 + n\<rparr>"
  | (rolled) r1 n f fd rc where "pump MTU_DEFAULT e r = Inr (Some (r1, Inr n))"
      and "MAX_DST_LENGTH \<le> ntotal r1 + n + int MTU_DEFAULT" and "rc \<noteq> -1"
      and "writer_rollover dst (nrolls r1 + 1) (roll e) (out_fd r1) (fs r1) = Inr (f, fd, rc)"
      and "r' = r1\<lparr>ntotal := ntotal r1 + n, nrolls := nrolls r1 + 1, fs := f, out_fd := fd\<rparr>"
proof -
  obtain r1 n where p: "pump MTU_DEFAULT e r = Inr (Some (r1, Inr n))"
    and eq: "writer_turn dst e r = Inr (Some (Goes_on r'))"
    using assms unfolding writer_turn_def by (elim pumped) auto
  show ?thesis
  proof (cases "MAX_DST_LENGTH \<le> ntotal r1 + n + int MTU_DEFAULT")
    case False
    then show ?thesis
      using eq p by (intro small) (auto simp: writer_turn_def Let_def)
  next
    case True
    obtain f fd rc where ro: "writer_rollover dst (nrolls r1 + 1) (roll e) (out_fd r1) (fs r1) = Inr (f, fd, rc)"
      using eq p True by (cases "writer_rollover dst (nrolls r1 + 1) (roll e) (out_fd r1) (fs r1)")
        (auto simp: writer_turn_def Let_def)
    then show ?thesis
      using eq p True by (intro rolled [OF p True _ ro]) (auto simp: writer_turn_def Let_def split: if_splits)
  qed
qed

interpretation frelay: relay_turn "frelay_turn dst max_len" "MTU_DEFAULT * 10" for dst max_len
  by unfold_locales (auto elim!: frelay_goes_on)

interpretation writer: relay_turn "writer_turn dst" MTU_DEFAULT for dst
  by unfold_locales (auto elim!: writer_goes_on)


section \<open>The output file\<close>

lemma newpath_other:
  assumes "newpath fpath counter = Inr np"
  shows "np \<noteq> fpath"
proof -
  have "length fpath + 7 \<le> length (roll_name fpath counter)"
    by (simp add: roll_name_def Let_def)
  moreover have "length (roll_name fpath counter) < PATH_MAX" "np = take (PATH_MAX - 2) (roll_name fpath counter)"
    using assms by (auto simp: newpath_def cres)
  ultimately have "length fpath < length np"
    by (simp add: PATH_MAX_def)
  then show ?thesis
    by auto
qed

text \<open>After a rollover that succeeds the path names a new, empty file, open as the descriptor.\<close>

definition fresh_file :: "string \<Rightarrow> files \<Rightarrow> nat option \<Rightarrow> bool" where
  "fresh_file dst f fd \<longleftrightarrow> (case fd of None \<Rightarrow> False | Some i \<Rightarrow> dir f dst = Some i \<and> data f i = [])"

lemma frelay_rollover_fresh:
  assumes "frelay_rollover dst counter e fd f = Inr (f', fd', rc)" and "rc \<noteq> -1"
  shows "fresh_file dst f' fd'"
  using assms newpath_other [of dst counter]
  by (auto simp: frelay_rollover_def cres Let_def fresh_file_def fs_rename_def fs_open_def fs_unlink_def
      split: if_splits)

lemma writer_rollover_fresh:
  assumes "writer_rollover dst counter e fd f = Inr (f', fd', rc)" and "rc \<noteq> -1"
  shows "fresh_file dst f' fd'"
  using assms newpath_other [of dst counter]
  by (auto simp: writer_rollover_def cres Let_def fresh_file_def fs_rename_def fs_open_def fs_unlink_def
      split: if_splits)

text \<open>The path names the open output file, whose length is the count, below the limit.\<close>

definition bounded :: "string \<Rightarrow> int \<Rightarrow> relay \<Rightarrow> bool" where
  "bounded dst max_len r \<longleftrightarrow> errno (ios r) = 0 \<and> ntotal r < max_len \<and>
     (\<exists>i. out_fd r = Some i \<and> dir (fs r) dst = Some i \<and> int (length (data (fs r) i)) = ntotal r)"

lemma frelay_turn_bounded:
  assumes "frelay_turn dst max_len e r = Inr (Some (Goes_on r'))" and "bounded dst max_len r"
    and "list_all real_answer (answers e)" and "0 < max_len"
  shows "bounded dst max_len r'"
proof -
  obtain i where i: "out_fd r = Some i" "dir (fs r) dst = Some i" "int (length (data (fs r) i)) = ntotal r"
    and err: "errno (ios r) = 0"
    using assms(2) by (auto simp: bounded_def)
  from assms(1) show ?thesis
  proof (cases rule: frelay_goes_on)
    case (small r1 n)
    then show ?thesis
      using pump_real [OF small(1) assms(3) err] i by (auto simp: bounded_def)
  next
    case (rolled r1 n f fd rc)
    then show ?thesis
      using frelay_rollover_fresh [OF rolled(4,3)] pump_real [OF rolled(1) assms(3) err] assms(4)
      by (auto simp: bounded_def fresh_file_def split: option.splits)
  qed
qed

lemma start_facts:
  "cyclic src (relay_start dst src 0 f)" "0 < max_len \<Longrightarrow> bounded dst max_len (relay_start dst src 0 f)"
  by (auto simp: relay_start_def cyclic_def bounded_def fs_open_def split: option.splits
      intro!: exI [of _ "0 :: nat"])

section \<open>Arguments\<close>

lemma delay_spec_units:
  assumes "0 < ms"
  shows "ts_normal (delay_spec ms)" and "ts_units (delay_spec ms) = ms * 1000000"
proof -
  have eq: "delay_spec ms = Timespec (ms div 1000) (ms mod 1000 * 1000000)"
    using assms by (simp add: delay_spec_def signed_divide_int_def signed_modulo_int_def sgn_if)
  show "ts_normal (delay_spec ms)"
    by (auto simp: eq ts_normal_def)
  show "ts_units (delay_spec ms) = ms * 1000000"
    using div_mult_mod_eq [of ms 1000] unfolding eq ts_units_def timespec.sel by linarith
qed

section \<open>Properties\<close>

text \<open>
  C11: whatever the calls accept, however often they are interrupted and whenever the output is
  rolled over, what either program has written while it is running is a prefix of the source's
  contents repeated for ever: nothing is lost, doubled or reordered.
\<close>

theorem relay_writes_cyclic:
  assumes "relay_loop (frelay_turn dst max_len) es (relay_start dst src 0 f) = Inr (r, None)"
    and "relay_loop (writer_turn dst') es' (relay_start dst' src' 0 f') = Inr (r', None)"
    and "\<forall>e\<in>set (es @ es'). list_all real_answer (answers e)"
  shows "(\<exists>k p. sink (ios r) = concat (replicate k src) @ take p src)
    \<and> (\<exists>k p. sink (ios r') = concat (replicate k src') @ take p src')"
  using frelay.loop_cyclic [OF assms(1) start_facts(1)] writer.loop_cyclic [OF assms(2) start_facts(1)] assms(3)
  unfolding cyclic_def by (simp add: ball_Un) blast

text \<open>
  C31: between two turns of \<open>frelay\<close> the destination path names the open output file, and that file
  is shorter than the limit.
\<close>

theorem frelay_output_bounded:
  assumes "relay_loop (frelay_turn dst max_len) es (relay_start dst src 0 f) = Inr (r, None)"
    and "\<forall>e\<in>set es. list_all real_answer (answers e)" and "0 < max_len"
  shows "\<exists>i. out_fd r = Some i \<and> dir (fs r) dst = Some i \<and> int (length (data (fs r) i)) < max_len"
proof -
  have "bounded dst max_len r"
    by (rule frelay.loop_invariant [where P = "bounded dst max_len", OF assms(1) start_facts(2) [OF assms(3)] assms(2)])
       (rule frelay_turn_bounded [OF _ _ _ assms(3)])
  then show ?thesis
    by (auto simp: bounded_def)
qed

text \<open>
  \<open>writer\<close> never resets its count after a rollover (\<open>frelay\<close> does): once the limit is reached,
  every turn after which it goes on replaces the output by an empty file, so that nothing written
  is kept any more.
\<close>

theorem writer_keeps_rolling:
  assumes "writer_turn dst e r = Inr (Some (Goes_on r'))" and "MAX_DST_LENGTH \<le> ntotal r + int MTU_DEFAULT"
    and "errno (ios r) = 0" and "list_all real_answer (answers e)"
  shows "nrolls r' = nrolls r + 1 \<and> MAX_DST_LENGTH \<le> ntotal r' + int MTU_DEFAULT \<and> errno (ios r') = 0
    \<and> (\<exists>i. out_fd r' = Some i \<and> dir (fs r') dst = Some i \<and> data (fs r') i = [])"
  using assms(1)
proof (cases rule: writer_goes_on)
  case (small r1 n)
  then show ?thesis
    using pump_real [OF small(1) assms(4,3)] assms(2) by simp
next
  case (rolled r1 n f fd rc)
  then show ?thesis
    using pump_real [OF rolled(1) assms(4,3)] writer_rollover_fresh [OF rolled(4,3)] assms(2)
    by (auto simp: fresh_file_def split: option.splits)
qed

text \<open>A rollover that fails leaves the loop with no error: the program exits with 0.\<close>

lemma rollover_failure_exits_0:
  assumes "relay_loop turn es (relay_start dst src err0 f) = Inr (r, Some 0)"
  shows "cyclic_file_relay turn dst (Inr src) None err0 f es = Inr (Some r, Some 0)"
  using assms by (simp add: cyclic_file_relay_def)


section \<open>Runs\<close>

definition roll_run :: roll_env where
  "roll_run = \<lparr>rename_ok = True, fsync_ok = True, close_ok = True, open_ok = True, unlink_ok = True\<rparr>"

definition turn_run :: turn_env where
  "turn_run = \<lparr>answers = [Accept 2, Fail EINTR, Accept 9, Accept 9, Accept 1, Accept 9],
     lseek_err = None, roll = roll_run\<rparr>"

definition files_run :: files where
  "files_run = \<lparr>dir = \<lambda>x. None, data = \<lambda>i. [], next_ino = 0\<rparr>"

definition relay_run :: "u8 list \<Rightarrow> relay" where
  "relay_run out = \<lparr>ios = \<lparr>errno = 0, diag = [''writev''], sink = out, source = [], content = [1, 2, 3]\<rparr>,
     fs = \<lparr>dir = (\<lambda>x. None)(''o'' \<mapsto> 0), data = (\<lambda>i. [])(0 := out), next_ino = 1\<rparr>,
     out_fd = Some 0, ntotal = 3, nrolls = 0\<rparr>"

lemma transfer_run:
  assumes "3 < count"
  shows "transfer 0 None count \<lparr>errno = 0, diag = [], sink = [], source = [1, 2, 3], content = [1, 2, 3]\<rparr>
      (answers turn_run)
    = Inr (Some (\<lparr>errno = 0, diag = [''writev''], sink = [1, 2, 3], source = [], content = [1, 2, 3]\<rparr>, None, 3, []))"
  using assms
  by (simp add: transfer_def turn_run_def nread_def nwrite_def Let_def eintr_diag_def c_perror_def
      TRFBUF_LIMIT_def FDIO_QUIET_EINTR_def set_errno_def)


text \<open>One turn of each program copies the three bytes.\<close>

lemma start_run: "relay_start ''o'' [1, 2, 3] 0 files_run =
   \<lparr>ios = \<lparr>errno = 0, diag = [], sink = [], source = [1, 2, 3], content = [1, 2, 3]\<rparr>,
     fs = \<lparr>dir = (\<lambda>x. None)(''o'' \<mapsto> 0), data = (\<lambda>i. [])(0 := []), next_ino = 1\<rparr>,
     out_fd = Some 0, ntotal = 0, nrolls = 0\<rparr>"
  by (simp add: relay_start_def files_run_def fs_open_def)

lemma pump_run:
  assumes "3 < count"
  shows "pump count turn_run (relay_start ''o'' [1, 2, 3] 0 files_run) =
    Inr (Some (relay_run [1, 2, 3]\<lparr>ntotal := 0\<rparr>, Inr 3))"
  by (simp add: pump_def start_run transfer_run [OF assms] relay_run_def)

lemma frelay_run:
  "relay_loop (frelay_turn ''o'' 20480) [turn_run] (relay_start ''o'' [1, 2, 3] 0 files_run) =
     Inr (relay_run [1, 2, 3], None)"
  by (simp add: frelay_turn_def pump_run MTU_DEFAULT_def relay_run_def) (simp add: start_run)

lemma writer_run:
  "relay_loop (writer_turn ''o'') [turn_run] (relay_start ''o'' [1, 2, 3] 0 files_run) =
     Inr (relay_run [1, 2, 3], None)"
  by (simp add: writer_turn_def pump_run MTU_DEFAULT_def relay_run_def MAX_DST_LENGTH_def) (simp add: start_run)

lemma real_run: "list_all real_answer (answers turn_run)"
  by (simp add: turn_run_def)

theorem relay_writes_cyclic_witness:
  "(\<exists>k p. sink (ios (relay_run [1, 2, 3])) = concat (replicate k [1, 2, 3]) @ take p [1, 2, 3])
    \<and> (\<exists>k p. sink (ios (relay_run [1, 2, 3])) = concat (replicate k [1, 2, 3]) @ take p [1, 2, 3])"
  by (rule relay_writes_cyclic [OF frelay_run writer_run]) (simp add: real_run)

theorem frelay_output_bounded_witness:
  "\<exists>i. out_fd (relay_run [1, 2, 3]) = Some i \<and> dir (fs (relay_run [1, 2, 3])) ''o'' = Some i
    \<and> int (length (data (fs (relay_run [1, 2, 3])) i)) < 20480"
  by (rule frelay_output_bounded [OF frelay_run]) (simp_all add: real_run)

text \<open>A turn of \<open>writer\<close> at the limit.\<close>

definition full_run :: relay where
  "full_run = (relay_start ''o'' [1, 2, 3] 0 files_run)\<lparr>ntotal := MAX_DST_LENGTH\<rparr>"

definition rolled_run :: relay where
  "rolled_run = (relay_run [1, 2, 3])\<lparr>ntotal := MAX_DST_LENGTH + 3, nrolls := 1, out_fd := Some 1,
     fs := \<lparr>dir = ((\<lambda>x. None)(''o'' \<mapsto> 1)), data = (\<lambda>i. [])(0 := [1, 2, 3], 1 := []), next_ino = 2\<rparr>\<rparr>"

lemma newpath_run: "newpath ''o'' (Suc 0) = Inr ''o.000001''"
  by code_simp

lemma writer_rollover_run:
  "writer_rollover ''o'' (Suc 0) roll_run (Some 0) (fs (relay_run [1, 2, 3])) =
     Inr (fs rolled_run, Some 1, 0)"
  unfolding writer_rollover_def newpath_run cbind_Inr
  by (simp add: roll_run_def rolled_run_def relay_run_def fs_rename_def fs_unlink_def fs_open_def
      fun_eq_iff Let_def)

lemma writer_turn_run: "writer_turn ''o'' turn_run full_run = Inr (Some (Goes_on rolled_run))"
proof -
  have "pump MTU_DEFAULT turn_run full_run =
      Inr (Some (relay_run [1, 2, 3]\<lparr>ntotal := MAX_DST_LENGTH\<rparr>, Inr 3))"
    by (simp add: pump_def full_run_def start_run transfer_run MTU_DEFAULT_def relay_run_def)
  moreover have "roll turn_run = roll_run" "out_fd (relay_run [1, 2, 3]) = Some 0" "nrolls (relay_run [1, 2, 3]) = 0"
    by (simp_all add: turn_run_def relay_run_def)
  ultimately show ?thesis
    by (simp add: writer_turn_def writer_rollover_run Let_def)
       (simp add: rolled_run_def relay_run_def)
qed

theorem writer_keeps_rolling_witness:
  "nrolls rolled_run = nrolls full_run + 1 \<and> MAX_DST_LENGTH \<le> ntotal rolled_run + int MTU_DEFAULT
    \<and> errno (ios rolled_run) = 0
    \<and> (\<exists>i. out_fd rolled_run = Some i \<and> dir (fs rolled_run) ''o'' = Some i \<and> data (fs rolled_run) i = [])"
  by (rule writer_keeps_rolling [OF writer_turn_run])
     (simp_all add: full_run_def start_run real_run MTU_DEFAULT_def)

end
