(* ===== verification/Follow.thy ===== *)
theory Follow
  imports Fdio
begin

unbundle bit_operations_syntax

text \<open>
  \<open>fdwatch/reader.c\<close> and \<open>fdwatch/evrdr.c\<close>: a file is followed with \<open>kqueue\<close> while it grows;
  \<open>evrdr\<close> opens the path again when the file is renamed or removed.  The events and the answers to
  the system calls are a script; the bytes of the open file not read yet are the \<open>source\<close> of the
  state of \<open>Fdio\<close>.
\<close>

section \<open>Events\<close>

datatype evfilt = EVFILT_READ | EVFILT_VNODE | EVFILT_OTHER

record kevent =
  kfilter :: evfilt
  ident :: int
  kdata :: int
  fflags :: u32

text \<open>FreeBSD values.\<close>

definition NOTE_DELETE :: u32 where "NOTE_DELETE = 0x1"
definition NOTE_RENAME :: u32 where "NOTE_RENAME = 0x20"
definition NOTE_REVOKE :: u32 where "NOTE_REVOKE = 0x40"

text \<open>\<open>char buf[1024 + 1]\<close>.\<close>

definition BUFLEN :: nat where "BUFLEN = 1024 + 1"

text \<open>
  The answers to one event: those of \<open>read\<close>.  The state: the options, the input, what has been
  printed between the marks (one entry for each event) and, for \<open>evrdr\<close>, the descriptor and the
  registrations.
\<close>

record follower =
  print :: bool
  inp :: io
  shown :: "u8 list list"
  fd :: int
  regs :: "(int \<times> evfilt) list"

text \<open>
  The event of a readable file, common to both programs: \<open>buf\<close> is the local buffer, all zero at
  the start; the result is the return code. The bytes of the file that are not read yet are given
  once; that a file grows shows in the sizes the events report and in the answers of \<open>read\<close>.
\<close>

definition on_readable :: "kevent \<Rightarrow> answer list \<Rightarrow> follower \<Rightarrow> (follower \<times> int) option cresult" where
  "on_readable ke as g =
     (let offset = kdata ke in
      if 0 < offset then
        (let len = (if int BUFLEN \<le> offset then BUFLEN - 1 else nat offset) in
         case nread 0 len (inp g) as of
           None \<Rightarrow> Inr None
         | Some (s, got, rest) \<Rightarrow>
             (let g = g\<lparr>inp := s\<rparr> in
              if length got = 0 then Inr (Some (g, -1))
              else if print g then
                cbind (aset (got @ replicate (BUFLEN - length got) 0) (int (length got)) 0) (\<lambda>buf.
                Inr (Some (g\<lparr>shown := shown g @ [takeWhile (\<lambda>c. c \<noteq> 0) buf]\<rparr>, 0)))
              else Inr (Some (g, 0))))
      else Inr (Some (g, 0)))"

section \<open>reader\<close>

definition reader_event :: "kevent \<Rightarrow> answer list \<Rightarrow> follower \<Rightarrow> (follower \<times> int) option cresult" where
  "reader_event ke as g =
     (case kfilter ke of
        EVFILT_READ \<Rightarrow> on_readable ke as g
      | EVFILT_VNODE \<Rightarrow>
          (let rc = (if fflags ke AND NOTE_DELETE \<noteq> 0 then 1 else 0);
               rc = (if fflags ke AND NOTE_REVOKE \<noteq> 0 then 1 else rc) in Inr (Some (g, rc)))
      | EVFILT_OTHER \<Rightarrow> Inr (Some (g, 0)))"

text \<open>The events of one turn, up to the first with a return code.\<close>

fun reader_events :: "(kevent \<times> answer list) list \<Rightarrow> follower \<Rightarrow> (follower \<times> int) option cresult" where
  "reader_events [] g = Inr (Some (g, 0))"
| "reader_events ((ke, as) # evs) g =
     cbind (reader_event ke as g) (\<lambda>t.
     case t of None \<Rightarrow> Inr None
     | Some (g, rc) \<Rightarrow> if rc \<noteq> 0 then Inr (Some (g, rc)) else reader_events evs g)"

text \<open>What \<open>kevent\<close> gives in one turn: a failure, a timeout, or the events.\<close>

datatype woken = Kq_error | Kq_timeout | Kq_events "(kevent \<times> answer list) list"

fun reader_loop :: "woken list \<Rightarrow> follower \<Rightarrow> (follower \<times> int) option cresult" where
  "reader_loop [] g = Inr None"
| "reader_loop (Kq_error # ws) g = Inr (Some (g, 0))"
| "reader_loop (Kq_timeout # ws) g = Inr (Some (g, 0))"
| "reader_loop (Kq_events evs # ws) g =
     cbind (reader_events evs g) (\<lambda>t.
     case t of None \<Rightarrow> Inr None
     | Some (g, rc) \<Rightarrow> if rc \<noteq> 0 then Inr (Some (g, rc)) else reader_loop ws g)"

text \<open>\<open>follow\<close>: whether \<open>kqueue\<close> and the two registrations succeed.\<close>

definition reader_follow :: "bool \<Rightarrow> bool \<Rightarrow> bool \<Rightarrow> woken list \<Rightarrow> follower \<Rightarrow> (follower \<times> int) option cresult" where
  "reader_follow kq_ok vnode_ok read_ok ws g =
     (if \<not> kq_ok then Inr (Some (g, -1))
      else if \<not> vnode_ok then Inr (Some (g, -1))
      else if \<not> read_ok then Inr (Some (g\<lparr>regs := regs g @ [(fd g, EVFILT_VNODE)]\<rparr>, -1))
      else reader_loop ws (g\<lparr>regs := regs g @ [(fd g, EVFILT_VNODE), (fd g, EVFILT_READ)]\<rparr>))"

section \<open>evrdr\<close>

text \<open>\<open>kq_add\<close>: whether each of the two registrations succeeds.\<close>

definition kq_add :: "bool \<Rightarrow> bool \<Rightarrow> int \<Rightarrow> follower \<Rightarrow> follower \<times> int" where
  "kq_add vnode_ok read_ok f g =
     (if \<not> vnode_ok then (g, -1)
      else
        (let g = g\<lparr>regs := regs g @ [(f, EVFILT_VNODE)]\<rparr> in
         if \<not> read_ok then (g, -1) else (g\<lparr>regs := regs g @ [(f, EVFILT_READ)]\<rparr>, 0)))"

text \<open>
  The answers to \<open>re_open\<close>: whether \<open>close\<close> succeeds; the new descriptor with the contents of the
  file the path names, unless \<open>open\<close> fails; the registrations.  Closing a descriptor removes its
  registrations.
\<close>

record reopen_env =
  close_fine :: bool
  opened :: "(int \<times> u8 list) option"
  vnode_fine :: bool
  read_fine :: bool

definition re_open :: "reopen_env \<Rightarrow> follower \<Rightarrow> follower \<times> int" where
  "re_open e g =
     (if \<not> close_fine e then (g, -1)
      else
        (let g = g\<lparr>regs := [(f, k)\<leftarrow>regs g. f \<noteq> fd g]\<rparr> in
         case opened e of
           None \<Rightarrow> (g\<lparr>fd := -1\<rparr>, -1)
         | Some (f, bytes) \<Rightarrow>
             kq_add (vnode_fine e) (read_fine e) f
               (g\<lparr>fd := f, inp := (inp g)\<lparr>source := bytes, content := bytes\<rparr>\<rparr>)))"

text \<open>\<open>process_event\<close>; the last component is the flag \<open>f_REOPEN\<close>.\<close>

definition evrdr_event ::
  "kevent \<Rightarrow> answer list \<Rightarrow> follower \<times> bool \<Rightarrow> (follower \<times> bool \<times> int) option cresult" where
  "evrdr_event ke as gf =
     (case gf of (g, reopen) \<Rightarrow>
      case kfilter ke of
        EVFILT_READ \<Rightarrow> cbind (on_readable ke as g) (\<lambda>t. Inr (map_option (\<lambda>(g, rc). (g, reopen, rc)) t))
      | EVFILT_VNODE \<Rightarrow>
          (let reopen = (if fflags ke AND NOTE_DELETE \<noteq> 0 then True else reopen);
               reopen = (if fflags ke AND NOTE_RENAME \<noteq> 0 then True else reopen) in
           Inr (Some (g, reopen, 0)))
      | EVFILT_OTHER \<Rightarrow> Inr (Some (g, reopen, 0)))"

fun evrdr_events ::
  "(kevent \<times> answer list) list \<Rightarrow> follower \<times> bool \<Rightarrow> (follower \<times> bool \<times> int) option cresult" where
  "evrdr_events [] (g, reopen) = Inr (Some (g, reopen, 0))"
| "evrdr_events ((ke, as) # evs) (g, reopen) =
     cbind (evrdr_event ke as (g, reopen)) (\<lambda>t.
     case t of None \<Rightarrow> Inr None
     | Some (g, reopen, rc) \<Rightarrow>
         if rc \<noteq> 0 then Inr (Some (g, reopen, rc)) else evrdr_events evs (g, reopen))"

fun evrdr_loop :: "(woken \<times> reopen_env) list \<Rightarrow> follower \<Rightarrow> (follower \<times> int) option cresult" where
  "evrdr_loop [] g = Inr None"
| "evrdr_loop ((Kq_error, e) # ws) g = Inr (Some (g, 0))"
| "evrdr_loop ((Kq_timeout, e) # ws) g = Inr (Some (g, 0))"
| "evrdr_loop ((Kq_events evs, e) # ws) g =
     cbind (evrdr_events evs (g, False)) (\<lambda>t.
     case t of None \<Rightarrow> Inr None
     | Some (g, reopen, rc) \<Rightarrow>
         if rc \<noteq> 0 then Inr (Some (g, rc))
         else if reopen then
           (case re_open e g of (g, rc) \<Rightarrow> if rc \<noteq> 0 then Inr (Some (g, rc)) else evrdr_loop ws g)
         else evrdr_loop ws g)"

text \<open>\<open>follow\<close>: the result of the first \<open>kq_add\<close> is not looked at.\<close>

definition evrdr_follow ::
  "bool \<Rightarrow> bool \<Rightarrow> bool \<Rightarrow> (woken \<times> reopen_env) list \<Rightarrow> follower \<Rightarrow> (follower \<times> int) option cresult" where
  "evrdr_follow kq_ok vnode_ok read_ok ws g =
     (if \<not> kq_ok then Inr (Some (g, -1))
      else evrdr_loop ws (fst (kq_add vnode_ok read_ok (fd g) g)))"

section \<open>Options\<close>

text \<open>
  The options of both programs, a letter with its number (after \<open>atol\<close>); the result is the exit
  code or the options and the timeout in seconds.
\<close>

definition EINVAL_EXIT :: int where "EINVAL_EXIT = 22"

fun follow_opts :: "(char \<times> int) list \<Rightarrow> bool \<times> int \<Rightarrow> int + (bool \<times> int)" where
  "follow_opts [] o1 = Inr o1"
| "follow_opts ((c, lval) # opts) (pr, tmout) =
     (if c = CHR ''p'' then follow_opts opts (True, tmout)
      else if c = CHR ''t'' then (if lval \<le> 0 then Inl EINVAL_EXIT else follow_opts opts (pr, lval))
      else Inl EINVAL_EXIT)"

text \<open>\<open>main\<close> up to the loop: the number of words, the options, the words left, the answer of \<open>open\<close>.\<close>

definition follow_main :: "nat \<Rightarrow> (char \<times> int) list \<Rightarrow> nat \<Rightarrow> (int \<times> u8 list) option \<Rightarrow> int + follower \<times> int" where
  "follow_main argc opts words opn =
     (if argc < 2 then Inl EINVAL_EXIT
      else case follow_opts opts (False, 0) of Inl rc \<Rightarrow> Inl rc
      | Inr (pr, tmout) \<Rightarrow>
          if words = 0 then Inl EINVAL_EXIT
          else (case opn of None \<Rightarrow> Inl 1
            | Some (f, bytes) \<Rightarrow>
                Inr (\<lparr>print = pr, inp = \<lparr>errno = 0, diag = [], sink = [], source = bytes, content = bytes\<rparr>,
                   shown = [], fd = f, regs = []\<rparr>, tmout)))"

text \<open>The programs: the exit code and the pieces of text printed.\<close>

definition reader_main ::
  "nat \<Rightarrow> (char \<times> int) list \<Rightarrow> nat \<Rightarrow> (int \<times> u8 list) option \<Rightarrow> bool \<Rightarrow> bool \<Rightarrow> bool \<Rightarrow> woken list \<Rightarrow>
   (int \<times> u8 list list) option cresult" where
  "reader_main argc opts words opn kq_ok vnode_ok read_ok ws =
     (case follow_main argc opts words opn of
        Inl rc \<Rightarrow> Inr (Some (rc, []))
      | Inr (g, tmout) \<Rightarrow>
          cbind (reader_follow kq_ok vnode_ok read_ok ws g)
            (\<lambda>t. Inr (map_option (\<lambda>(g, rc). (rc, shown g)) t)))"

definition evrdr_main ::
  "nat \<Rightarrow> (char \<times> int) list \<Rightarrow> nat \<Rightarrow> (int \<times> u8 list) option \<Rightarrow> bool \<Rightarrow> bool \<Rightarrow> bool \<Rightarrow>
   (woken \<times> reopen_env) list \<Rightarrow> (int \<times> u8 list list) option cresult" where
  "evrdr_main argc opts words opn kq_ok vnode_ok read_ok ws =
     (case follow_main argc opts words opn of
        Inl rc \<Rightarrow> Inr (Some (rc, []))
      | Inr (g, tmout) \<Rightarrow>
          cbind (evrdr_follow kq_ok vnode_ok read_ok ws g)
            (\<lambda>t. Inr (map_option (\<lambda>(g, rc). (rc, shown g)) t)))"

section \<open>One readable event\<close>

lemma nread_prefix:
  assumes "nread fl n s as = Some (s', got, rest)"
  shows "length got \<le> n" and "source s = got @ source s'"
proof -
  obtain m where "got = take m (source s)" "source s' = drop m (source s)" "length got \<le> n"
    using nread_loop_prefix [of fl n "[]" 0 s as s' got rest] assms by (auto simp: nread_def min_def)
  then show "length got \<le> n" and "source s = got @ source s'"
    by simp_all
qed

text \<open>A handler that traps nowhere and, when it returns, has done what \<open>P\<close> says.\<close>

definition fine :: "(follower \<Rightarrow> 'a \<Rightarrow> bool) \<Rightarrow> (follower \<times> 'a) option cresult \<Rightarrow> bool" where
  "fine P r \<longleftrightarrow> (case r of Inl e \<Rightarrow> False | Inr None \<Rightarrow> True | Inr (Some (g, x)) \<Rightarrow> P g x)"

lemma fine_simps [simp]: "fine P (Inr None)" "fine P (Inr (Some (g, x))) \<longleftrightarrow> P g x"
  by (simp_all add: fine_def)

lemma fineE:
  assumes "fine P r"
  obtains "r = Inr None" | g x where "r = Inr (Some (g, x))" and "P g x"
  using assms by (auto simp: fine_def split: sum.splits option.splits)

lemma fine_mono: "fine P r \<Longrightarrow> (\<And>g x. P g x \<Longrightarrow> Q g x) \<Longrightarrow> fine Q r"
  by (auto simp: fine_def split: sum.splits option.splits)

text \<open>
  The effect of the event: a piece of the input of at most 1024 bytes (perhaps none) is taken, and
  shown up to its first NUL.
\<close>

definition took :: "follower \<Rightarrow> follower \<Rightarrow> u8 list \<Rightarrow> bool" where
  "took g g' got \<longleftrightarrow> length got < BUFLEN \<and> source (inp g) = got @ source (inp g')
     \<and> shown g' = shown g @ (if print g \<and> got \<noteq> [] then [takeWhile (\<lambda>c. c \<noteq> 0) got] else [])
     \<and> print g' = print g \<and> regs g' = regs g \<and> fd g' = fd g"

text \<open>The text printed from the buffer is the piece up to its first NUL.\<close>

lemma shown_part:
  fixes got :: "u8 list"
  assumes "length got < n"
  shows "takeWhile (\<lambda>c. c \<noteq> 0) ((got @ replicate (n - length got) 0)[length got := 0]) = takeWhile (\<lambda>c. c \<noteq> 0) got"
proof -
  obtain m where "n - length got = Suc m"
    using assms by (cases "n - length got") simp_all
  then have buf: "(got @ replicate (n - length got) 0)[length got := 0] = got @ 0 # replicate m 0"
    by simp
  show ?thesis
  proof (cases "0 \<in> set got")
    case True
    then show ?thesis
      unfolding buf by (simp add: takeWhile_append1)
  next
    case False
    then have t: "takeWhile (\<lambda>c. c \<noteq> 0) got = got"
      by (auto simp: takeWhile_eq_all_conv)
    have "takeWhile (\<lambda>c. c \<noteq> 0) (got @ 0 # replicate m 0) = got @ takeWhile (\<lambda>c. c \<noteq> 0) (0 # replicate m 0)"
      by (rule takeWhile_append2) (use False in auto)
    then show ?thesis
      unfolding buf t by simp
  qed
qed

lemma on_readable_took: "fine (\<lambda>g' rc. \<exists>got. took g g' got) (on_readable ke as g)"
proof (cases "0 < kdata ke")
  case False
  then show ?thesis
    by (auto simp: on_readable_def Let_def took_def BUFLEN_def intro!: exI [of _ "[]"])
next
  case True
  define len where "len = (if int BUFLEN \<le> kdata ke then BUFLEN - 1 else nat (kdata ke))"
  have lim: "len < BUFLEN"
    using True by (auto simp: len_def BUFLEN_def)
  show ?thesis
  proof (cases "nread 0 len (inp g) as")
    case None
    then show ?thesis
      using True by (simp add: on_readable_def Let_def flip: len_def)
  next
    case (Some t)
    obtain s got rest where rd: "nread 0 len (inp g) as = Some (s, got, rest)"
      using Some by (cases t) auto
    note pre = nread_prefix [OF rd]
    have lt: "length got < BUFLEN"
      using pre(1) lim by simp
    then show ?thesis
      using True rd pre shown_part [OF lt]
      by (auto simp: on_readable_def Let_def took_def simp flip: len_def intro!: exI [of _ got])
  qed
qed

text \<open>The part of a state the reading of a text keeps: what is shown and what is left.\<close>

definition text_of :: "follower \<Rightarrow> u8 list" where
  "text_of g = concat (shown g) @ source (inp g)"

definition plain_text :: "follower \<Rightarrow> bool" where
  "plain_text g \<longleftrightarrow> print g \<and> 0 \<notin> set (source (inp g))"

definition keeps_text :: "follower \<Rightarrow> follower \<Rightarrow> bool" where
  "keeps_text g g' \<longleftrightarrow> (plain_text g \<longrightarrow> plain_text g' \<and> text_of g' = text_of g)"

lemma keeps_text_refl [simp]: "keeps_text g g"
  by (simp add: keeps_text_def)

lemma keeps_text_trans: "keeps_text g g' \<Longrightarrow> keeps_text g' g'' \<Longrightarrow> keeps_text g g''"
  by (simp add: keeps_text_def)

lemma on_readable_fine:
  "fine (\<lambda>g' rc. keeps_text g g' \<and> regs g' = regs g \<and> fd g' = fd g) (on_readable ke as g)"
proof (rule fine_mono [OF on_readable_took])
  fix g' rc
  assume "\<exists>got. took g g' got"
  then obtain got where got: "took g g' got"
    by blast
  have "takeWhile (\<lambda>c. c \<noteq> 0) got = got" if "0 \<notin> set got"
    using that by (auto simp: takeWhile_eq_all_conv)
  then show "keeps_text g g' \<and> regs g' = regs g \<and> fd g' = fd g"
    using got by (auto simp: took_def keeps_text_def plain_text_def text_of_def)
qed

lemma reader_event_fine: "fine (\<lambda>g' rc. keeps_text g g') (reader_event ke as g)"
  using on_readable_fine [of g ke as]
  by (auto simp: reader_event_def Let_def elim: fine_mono split: evfilt.split)

lemma reader_events_fine: "fine (\<lambda>g' rc. keeps_text g g') (reader_events evs g)"
proof (induction evs g rule: reader_events.induct)
  case (2 ke as evs g)
  from reader_event_fine [of g ke as] show ?case
  proof (cases rule: fineE)
    case (2 g' rc)
    then show ?thesis
      using "2.IH" [of "Some (g', rc)" "(g', rc)" g' rc]
      by (cases "rc = 0") (auto elim: fine_mono intro: keeps_text_trans)
  qed simp
qed simp

lemma reader_loop_fine: "fine (\<lambda>g' rc. keeps_text g g') (reader_loop ws g)"
proof (induction ws arbitrary: g)
  case (Cons w ws)
  show ?case
  proof (cases w)
    case (Kq_events evs)
    from reader_events_fine [of g evs] show ?thesis
    proof (cases rule: fineE)
      case (2 g' rc)
      then show ?thesis
        using Cons [of g'] Kq_events by (auto elim!: fine_mono intro: keeps_text_trans)
    qed (simp add: Kq_events)
  qed simp_all
qed simp


section \<open>Registrations\<close>

text \<open>Every registration with the queue is for the descriptor that is open.\<close>

definition regs_current :: "follower \<Rightarrow> bool" where
  "regs_current g \<longleftrightarrow> (\<forall>(f, k)\<in>set (regs g). f = fd g)"

lemma evrdr_event_fine:
  "fine (\<lambda>g' x. regs g' = regs g \<and> fd g' = fd g) (evrdr_event ke as (g, reopen))"
proof (cases "kfilter ke")
  case EVFILT_READ
  from on_readable_fine [of g ke as] show ?thesis
    by (cases rule: fineE) (auto simp: evrdr_event_def EVFILT_READ)
qed (simp_all add: evrdr_event_def Let_def)

lemma evrdr_events_fine:
  "fine (\<lambda>g' x. regs g' = regs g \<and> fd g' = fd g) (evrdr_events evs (g, reopen))"
proof (induction evs arbitrary: g reopen)
  case (Cons ev evs)
  obtain ke as where ev: "ev = (ke, as)"
    by (cases ev)
  from evrdr_event_fine [of g ke as reopen] show ?case
  proof (cases rule: fineE)
    case (2 g' x)
    obtain r rc where x: "x = (r, rc)"
      by (cases x)
    show ?thesis
      using 2 Cons [of g' r] by (cases "rc = 0") (auto simp: ev x elim: fine_mono)
  qed (simp add: ev)
qed simp

lemma kq_add_regs: "regs_current g \<Longrightarrow> fd g = f \<Longrightarrow> regs_current (fst (kq_add a b f g))"
  by (auto simp: kq_add_def Let_def regs_current_def)

lemma re_open_regs: "regs_current g \<Longrightarrow> regs_current (fst (re_open e g))"
proof -
  assume cur: "regs_current g"
  then have no: "[(f, k)\<leftarrow>regs g. f \<noteq> fd g] = []"
    by (auto simp: regs_current_def filter_empty_conv)
  show "regs_current (fst (re_open e g))"
  proof (cases "close_fine e")
    case True
    then show ?thesis
      using no kq_add_regs by (auto simp: re_open_def Let_def regs_current_def split: option.split)
  qed (simp add: re_open_def cur)
qed

lemma evrdr_loop_regs:
  "regs_current g \<Longrightarrow> fine (\<lambda>g' rc. regs_current g') (evrdr_loop ws g)"
proof (induction ws arbitrary: g)
  case (Cons w ws)
  obtain k e where w: "w = (k, e)"
    by (cases w)
  show ?case
  proof (cases k)
    case (Kq_events evs)
    from evrdr_events_fine [of g evs False] show ?thesis
    proof (cases rule: fineE)
      case (2 g' x)
      then have cur: "regs_current g'"
        using Cons.prems by (simp add: regs_current_def)
      obtain r rc where x: "x = (r, rc)"
        by (cases x)
      obtain g2 rc2 where ro: "re_open e g' = (g2, rc2)"
        by (cases "re_open e g'")
      have "regs_current g2"
        using re_open_regs [OF cur, of e] ro by simp
      then show ?thesis
        using 2(1) cur Cons.IH by (simp add: w Kq_events x ro)
    qed (simp add: w Kq_events)
  qed (simp_all add: w Cons.prems)
qed simp

section \<open>Properties\<close>

text \<open>
  C26: with the option \<open>-p\<close> (which turns printing on) and on a text, that is on bytes without a NUL,
  \<open>reader\<close> stays inside its buffer whatever the events and answers, and when it ends, what it has
  shown followed by what it has not read is the text: nothing is lost, doubled or reordered.
\<close>

theorem reader_shows_text:
  assumes "print g" and "0 \<notin> set (source (inp g))"
  shows "\<exists>r. reader_follow kq_ok vnode_ok read_ok ws g = Inr r
    \<and> (\<forall>g' rc. r = Some (g', rc) \<longrightarrow>
         concat (shown g') @ source (inp g') = concat (shown g) @ source (inp g))"
proof -
  define g1 where "g1 = g\<lparr>regs := regs g @ [(fd g, EVFILT_VNODE), (fd g, EVFILT_READ)]\<rparr>"
  have g1: "plain_text g1" "text_of g1 = concat (shown g) @ source (inp g)"
    using assms by (simp_all add: plain_text_def g1_def text_of_def)
  from reader_loop_fine [of g1 ws] show ?thesis
    by (cases rule: fineE) (use g1 in \<open>auto simp: reader_follow_def keeps_text_def text_of_def simp flip: g1_def\<close>)
qed

text \<open>
  C27: \<open>evrdr\<close> never leaves its buffer, and at the end of its loop every registration with the queue
  is for the descriptor that is open, however often the file has been opened again.
\<close>

theorem evrdr_registrations:
  assumes "regs g = []"
  shows "\<exists>r. evrdr_follow kq_ok vnode_ok read_ok ws g = Inr r
    \<and> (\<forall>g' rc. r = Some (g', rc) \<longrightarrow> (\<forall>(f, k)\<in>set (regs g'). f = fd g'))"
proof -
  define g1 where "g1 = fst (kq_add vnode_ok read_ok (fd g) g)"
  have "regs_current g1"
    unfolding g1_def by (rule kq_add_regs) (simp_all add: regs_current_def assms)
  from evrdr_loop_regs [OF this, of ws] show ?thesis
    by (cases rule: fineE) (auto simp: evrdr_follow_def regs_current_def assms simp flip: g1_def)
qed

text \<open>
  When a file with more than 1024 unread bytes is reported readable and renamed in one turn,
  \<open>evrdr\<close> shows 1024 bytes and opens the path again: the rest of the old file is never shown.
\<close>

theorem evrdr_loses_rest:
  assumes "print g" and "0 \<notin> set old" and "source (inp g) = old" and "errno (inp g) = 0"
    and "1024 < length old" and "close_fine e" and "opened e = Some (f, new)"
    and "vnode_fine e" and "read_fine e"
  shows "\<exists>g'. evrdr_loop
      [(Kq_events [(\<lparr>kfilter = EVFILT_READ, ident = fd g, kdata = int (length old), fflags = 0\<rparr>, [Accept 1024]),
                   (\<lparr>kfilter = EVFILT_VNODE, ident = fd g, kdata = 0, fflags = NOTE_RENAME\<rparr>, [])], e),
       (Kq_timeout, e)] g = Inr (Some (g', 0))
    \<and> shown g' = shown g @ [take 1024 old] \<and> source (inp g') = new \<and> fd g' = f"
proof -
  let ?ke = "\<lparr>kfilter = EVFILT_READ, ident = fd g, kdata = int (length old), fflags = 0\<rparr>"
  have rd: "nread 0 1024 (inp g) [Accept 1024] = Some ((inp g)\<lparr>source := drop 1024 old\<rparr>, take 1024 old, [])"
    using nread_accept_r [of "[]" 1024 "take 1024 old" 1024 "inp g" 0 0 "[]"] assms(3,5)
    by (auto simp: nread_def set_errno_def min_def)
  have len: "(if int BUFLEN \<le> int (length old) then BUFLEN - 1 else nat (int (length old))) = 1024"
    "length (take 1024 old) = 1024" "0 < int (length old)" "1024 < BUFLEN"
    using assms(5) by (auto simp: BUFLEN_def)
  have no0: "takeWhile (\<lambda>c. c \<noteq> 0) (take 1024 old) = take 1024 old"
    using assms(2) by (auto simp: takeWhile_eq_all_conv dest: in_set_takeD)
  have "aset (take 1024 old @ replicate (BUFLEN - 1024) 0) (int 1024) 0
      = Inr ((take 1024 old @ replicate (BUFLEN - 1024) 0)[1024 := 0])"
    using len(2,4) by (intro aset_in [THEN trans]) simp_all
  then have ev: "on_readable ?ke [Accept 1024] g =
      Inr (Some (g\<lparr>inp := (inp g)\<lparr>source := drop 1024 old\<rparr>, shown := shown g @ [take 1024 old]\<rparr>, 0))"
    using assms(1) no0 shown_part [of "take 1024 old" BUFLEN] len(4)
    by (simp only: on_readable_def kevent.simps Let_def if_True rd len(1,2,3) option.case prod.case cbind_Inr
        simp_thms numeral_neq_zero if_False) simp
  show ?thesis
    using assms(6-9)
    by (simp add: evrdr_event_def ev re_open_def kq_add_def Let_def NOTE_RENAME_def NOTE_DELETE_def)
qed


section \<open>Runs\<close>

definition follow_run :: follower where
  "follow_run = \<lparr>print = True, inp = \<lparr>errno = 0, diag = [], sink = [], source = replicate 1030 65, content = []\<rparr>,
     shown = [], fd = 3, regs = []\<rparr>"

definition reopen_run :: reopen_env where
  "reopen_run = \<lparr>close_fine = True, opened = Some (3, [66, 67]), vnode_fine = True, read_fine = True\<rparr>"

definition woken_run :: woken where
  "woken_run = Kq_events [(\<lparr>kfilter = EVFILT_READ, ident = 3, kdata = 1030, fflags = 0\<rparr>, [Accept 9, Fail EINTR, Accept 2000]),
     (\<lparr>kfilter = EVFILT_VNODE, ident = 3, kdata = 0, fflags = NOTE_DELETE\<rparr>, [])]"

theorem reader_shows_text_witness:
  "\<exists>r. reader_follow True True True [woken_run] follow_run = Inr r
    \<and> (case r of None \<Rightarrow> True | Some (g', rc) \<Rightarrow> concat (shown g') @ source (inp g') = replicate 1030 65)"
proof -
  have "print follow_run" "0 \<notin> set (source (inp follow_run))"
    and start: "concat (shown follow_run) @ source (inp follow_run) = replicate 1030 65"
    by (simp_all add: follow_run_def)
  then obtain r where "reader_follow True True True [woken_run] follow_run = Inr r"
    "\<forall>g' rc. r = Some (g', rc) \<longrightarrow> concat (shown g') @ source (inp g') = replicate 1030 65"
    using reader_shows_text [of follow_run True True True "[woken_run]"] unfolding start by blast
  then show ?thesis
    by (intro exI [of _ r]) (simp split: option.split)
qed

theorem evrdr_registrations_witness:
  "\<exists>r. evrdr_follow True True True [(woken_run, reopen_run), (Kq_timeout, reopen_run)] follow_run = Inr r
    \<and> (case r of None \<Rightarrow> True | Some (g', rc) \<Rightarrow> list_all (\<lambda>(f, k). f = fd g') (regs g'))"
proof -
  have "regs follow_run = []"
    by (simp add: follow_run_def)
  from evrdr_registrations [OF this, of True True True "[(woken_run, reopen_run), (Kq_timeout, reopen_run)]"]
  obtain r where "evrdr_follow True True True [(woken_run, reopen_run), (Kq_timeout, reopen_run)] follow_run = Inr r"
    "\<forall>g' rc. r = Some (g', rc) \<longrightarrow> (\<forall>(f, k)\<in>set (regs g'). f = fd g')"
    by blast
  then show ?thesis
    by (intro exI [of _ r]) (simp add: list_all_iff split: option.split)
qed

theorem evrdr_loses_rest_witness:
  "\<exists>g'. evrdr_loop
      [(Kq_events [(\<lparr>kfilter = EVFILT_READ, ident = 3, kdata = 1030, fflags = 0\<rparr>, [Accept 1024]),
                   (\<lparr>kfilter = EVFILT_VNODE, ident = 3, kdata = 0, fflags = NOTE_RENAME\<rparr>, [])], reopen_run),
       (Kq_timeout, reopen_run)] follow_run = Inr (Some (g', 0))
    \<and> shown g' = [replicate 1024 65] \<and> source (inp g') = [66, 67] \<and> fd g' = 3"
  using evrdr_loses_rest [of follow_run "replicate 1030 65" reopen_run 3 "[66, 67]"]
  by (simp add: follow_run_def reopen_run_def)

text \<open>A failing \<open>kevent\<close> ends the loop of either program with the return code 0.\<close>

lemma kevent_error_exits_0:
  "reader_loop (Kq_error # ws) g = Inr (Some (g, 0))" "evrdr_loop ((Kq_error, e) # ws') g = Inr (Some (g, 0))"
  by simp_all


section \<open>The programs\<close>

lemma follow_opts_print:
  "follow_opts opts (pr, tm) = Inr (pr', tm') \<Longrightarrow> pr' \<longleftrightarrow> pr \<or> CHR ''p'' \<in> fst ` set opts"
  by (induction opts "(pr, tm)" arbitrary: pr tm rule: follow_opts.induct) (auto split: if_splits)

lemma follow_main_state:
  assumes "follow_main argc opts words opn = Inr (g, tm)" "CHR ''p'' \<in> fst ` set opts"
  obtains f bytes where "opn = Some (f, bytes)" "print g" "source (inp g) = bytes" "shown g = []" "regs g = []"
  using assms follow_opts_print[of opts False 0]
  by (auto simp: follow_main_def split: if_splits sum.splits option.splits prod.splits)

text \<open>
  What \<open>reader -p\<close> prints of a text file is a prefix of the file, whatever the events, the short
  reads and the failures are; a wrong command line and a file that does not open print nothing.
\<close>

theorem reader_main_prefix:
  assumes "CHR ''p'' \<in> fst ` set opts" and "\<And>f bytes. opn = Some (f, bytes) \<Longrightarrow> 0 \<notin> set bytes"
    and "reader_main argc opts words opn kq_ok vnode_ok read_ok ws = r"
  shows "r = Inr None \<or> (\<exists>rc out. r = Inr (Some (rc, out)) \<and>
    (out = [] \<or> (\<exists>f rest. opn = Some (f, concat out @ rest))))"
proof (cases "follow_main argc opts words opn")
  case (Inl rc)
  then show ?thesis
    using assms(3) by (auto simp: reader_main_def)
next
  case (Inr p)
  then obtain g tm where p: "p = (g, tm)"
    by (cases p)
  from Inr p assms(1) obtain f bytes where g: "opn = Some (f, bytes)" "print g" "source (inp g) = bytes"
      "shown g = []"
    by (auto elim: follow_main_state)
  define g1 where "g1 = g\<lparr>regs := regs g @ [(fd g, EVFILT_VNODE), (fd g, EVFILT_READ)]\<rparr>"
  have g1: "plain_text g1" "text_of g1 = bytes"
    using assms(2) g by (simp_all add: plain_text_def g1_def text_of_def)
  show ?thesis
  proof (cases "kq_ok \<and> vnode_ok \<and> read_ok")
    case False
    then show ?thesis
      using assms(3) Inr p g by (auto simp: reader_main_def reader_follow_def)
  next
    case True
    then have run: "r = cbind (reader_loop ws g1) (\<lambda>t. Inr (map_option (\<lambda>(g, rc). (rc, shown g)) t))"
      using assms(3) Inr p by (simp add: reader_main_def reader_follow_def flip: g1_def)
    from reader_loop_fine [of g1 ws] show ?thesis
    proof (cases rule: fineE)
      case (2 g' rc)
      then have "bytes = concat (shown g') @ source (inp g')"
        using g1 by (simp add: keeps_text_def text_of_def)
      then show ?thesis
        using run 2(1) g(1) by auto
    qed (simp add: run)
  qed
qed

theorem reader_main_prefix_witness:
  "\<exists>r. reader_main 3 [(CHR ''p'', 0)] 1 (Some (3, [72, 105])) True True True
      [Kq_events [(\<lparr>kfilter = EVFILT_READ, ident = 3, kdata = 2, fflags = 0\<rparr>, [Accept 1, Accept 1])], Kq_timeout] = r \<and>
    (r = Inr None \<or> (\<exists>rc out. r = Inr (Some (rc, out)) \<and>
      (out = [] \<or> (\<exists>f rest. Some (3, [72, 105]) = Some (f :: int, concat out @ rest)))))"
  by (intro exI conjI, rule refl, rule reader_main_prefix [OF _ _ refl]) auto

end
