(* ===== verification/Kqfile.thy ===== *)
theory Kqfile
  imports Follow
begin

unbundle bit_operations_syntax

text \<open>
  \<open>fdwatch/kqfile.c\<close>: up to five files are followed with one queue and their new lines printed with
  the name of the file.  Reads and writes of the kernel, the files the path names when it is opened
  and the success of the registrations are parameters.
\<close>

section \<open>Files\<close>

definition NFILES :: nat where "NFILES = 5"

record kqfile =
  kfd :: int
  path :: "string option"
  name :: "string option"

text \<open>A slot of the static array before it is used, and after \<open>kqfremove\<close>.\<close>

definition zero_file :: kqfile where
  "zero_file = \<lparr>kfd = 0, path = None, name = None\<rparr>"

text \<open>\<open>strrchr\<close>: the index of the last occurrence.\<close>

fun strrchr :: "string \<Rightarrow> char \<Rightarrow> nat option" where
  "strrchr [] c = None"
| "strrchr (x # s) c =
     (case strrchr s c of Some i \<Rightarrow> Some (Suc i) | None \<Rightarrow> if x = c then Some 0 else None)"

definition get_filename :: "string \<Rightarrow> string" where
  "get_filename nm = (case strrchr nm (CHR ''/'') of Some i \<Rightarrow> drop (i + 1) nm | None \<Rightarrow> nm)"

section \<open>Lines\<close>

definition NL :: u8 where "NL = 10"

text \<open>
  The loop of \<open>rdline\<close>: \<open>k\<close> places are left in the buffer, \<open>s\<close> are the bytes the file has; at
  their end \<open>read\<close> gives 0, or -1 when \<open>err\<close> holds.
\<close>

fun rd_loop :: "nat \<Rightarrow> bool \<Rightarrow> nat \<Rightarrow> u8 list \<Rightarrow> u8 list \<Rightarrow> (int \<times> u8 list \<times> u8 list) cresult" where
  "rd_loop 0 err i buf s = Inr (int i, buf, s)"
| "rd_loop (Suc k) err i buf [] = Inr (if err then -1 else 0, buf, [])"
| "rd_loop (Suc k) err i buf (b # s) =
     cbind (aset buf (int i) b) (\<lambda>buf.
     if b = NL then Inr (int (i + 1), buf, s) else rd_loop k err (i + 1) buf s)"

definition rdline :: "nat \<Rightarrow> bool \<Rightarrow> u8 list \<Rightarrow> u8 list \<Rightarrow> (int \<times> u8 list \<times> u8 list) cresult" where
  "rdline len err buf s = rd_loop len err 0 buf s"

text \<open>Reading a line consumes bytes; the loop of \<open>rwfile\<close> needs it to end.\<close>

lemma rd_loop_rest: "rd_loop k err i buf s = Inr (r, buf', rest) \<Longrightarrow> length rest \<le> length s"
  by (induction k err i buf s rule: rd_loop.induct) (fastforce simp: cres split: if_splits)+

lemma rd_loop_consumes:
  assumes "rd_loop k err i buf s = Inr (r, buf', rest)" and "int i < r"
  shows "length rest < length s"
proof (cases k)
  case (Suc k')
  then show ?thesis
    using assms by (cases s) (auto simp: cres dest: rd_loop_rest split: if_splits)
qed (use assms in simp)

text \<open>What goes to the standard output: the name of a file, or bytes.\<close>

datatype item = Tag "string option" | Data "u8 list"

text \<open>
  The loop of \<open>rwfile\<close>: \<open>wr j n\<close> is what the \<open>j\<close>th \<open>write\<close> of \<open>n\<close> bytes returns.  The result is
  the return value, the bytes the file still has and what has been printed.
\<close>

function rw_loop :: "(nat \<Rightarrow> nat \<Rightarrow> int) \<Rightarrow> string option \<Rightarrow> nat \<Rightarrow> bool \<Rightarrow> int \<Rightarrow> nat \<Rightarrow> int \<Rightarrow> u8 list \<Rightarrow> u8 list \<Rightarrow>
    item list \<Rightarrow> (int \<times> u8 list \<times> item list) cresult" where
  "rw_loop wr nm len err nbytes j tot buf s outp =
     (case rdline len err buf s of
        Inl e \<Rightarrow> Inl e
      | Inr (i, buf, rest) \<Rightarrow>
          if i = -1 then Inr (-1, rest, outp)
          else
            (let n = wr j (nat i);
                 outp = outp @ [Data (take (nat n) (take (nat i) buf))];
                 tot = (if n \<noteq> i then tot else tot + i);
                 outp = (if i < int len \<and> tot < nbytes then outp @ [Tag nm] else outp) in
             if 0 < i \<and> tot < nbytes
             then rw_loop wr nm len err nbytes (j + 1) tot (replicate len 0) rest outp
             else Inr (tot, rest, outp)))"
  by pat_completeness auto
termination
  by (relation "measure (\<lambda>(wr, nm, len, err, nbytes, j, tot, buf, s, outp). length s)")
     (auto simp: rdline_def dest: rd_loop_consumes)

declare rw_loop.simps [simp del]

definition rwfile ::
  "(nat \<Rightarrow> nat \<Rightarrow> int) \<Rightarrow> string option \<Rightarrow> nat \<Rightarrow> bool \<Rightarrow> int \<Rightarrow> u8 list \<Rightarrow> u8 list \<Rightarrow> item list \<Rightarrow>
    (int \<times> u8 list \<times> item list) cresult" where
  "rwfile wr nm len err nbytes buf s outp = rw_loop wr nm len err nbytes 0 0 buf s (outp @ [Tag nm])"

section \<open>The loop over events\<close>

text \<open>
  The program: the array of files, the bytes their descriptors have not delivered yet, the
  registrations (descriptor, filter, index of the file) and the output.
\<close>

record kqstate =
  files :: "kqfile list"
  unread :: "nat \<Rightarrow> u8 list"
  kregs :: "(int \<times> evfilt \<times> nat) list"
  outp :: "item list"

text \<open>\<open>register_kevents\<close>: \<open>None\<close> is the exit with an error.\<close>

definition register_kevents :: "bool \<Rightarrow> nat \<Rightarrow> kqstate \<Rightarrow> kqstate option" where
  "register_kevents ok i st =
     (if ok then
        (let f = kfd (files st ! i) in
         Some (st\<lparr>kregs := kregs st @ [(f, EVFILT_VNODE, i), (f, EVFILT_READ, i)]\<rparr>))
      else None)"

text \<open>Closing a descriptor removes its registrations.\<close>

definition kq_close :: "int \<Rightarrow> kqstate \<Rightarrow> kqstate" where
  "kq_close f st = st\<lparr>kregs := [(g, k, j)\<leftarrow>kregs st. g \<noteq> f]\<rparr>"

text \<open>
  \<open>kqfreopen\<close>: the answers to the three calls of \<open>open\<close>, a descriptor and the bytes of the file or a
  failure.  The result is the return value, \<open>None\<close> the exit of the program.
\<close>

fun first_open :: "nat \<Rightarrow> (int \<times> u8 list) option list \<Rightarrow> (int \<times> u8 list) option" where
  "first_open 0 os = None"
| "first_open (Suc k) [] = None"
| "first_open (Suc k) (a # os) = (case a of Some fb \<Rightarrow> Some fb | None \<Rightarrow> first_open k os)"

definition kqfreopen :: "(int \<times> u8 list) option list \<Rightarrow> bool \<Rightarrow> nat \<Rightarrow> kqstate \<Rightarrow> (kqstate \<times> int) option" where
  "kqfreopen os reg_ok i st =
     (let st = kq_close (kfd (files st ! i)) st in
      case first_open 3 os of
        None \<Rightarrow> Some (st\<lparr>files := (files st)[i := (files st ! i)\<lparr>kfd := -1\<rparr>]\<rparr>, -1)
      | Some (f, bytes) \<Rightarrow>
          (let st = st\<lparr>files := (files st)[i := (files st ! i)\<lparr>kfd := f\<rparr>], unread := (unread st)(i := bytes)\<rparr> in
           map_option (\<lambda>st. (st, f)) (register_kevents reg_ok i st)))"

definition kqfremove :: "nat \<Rightarrow> kqstate \<Rightarrow> kqstate" where
  "kqfremove i st = (kq_close (kfd (files st ! i)) st)\<lparr>files := (files st)[i := zero_file]\<rparr>"

text \<open>
  One turn of \<open>kq_loop\<close>: what \<open>kevent\<close> gives, with the index of the file in its user data. The size in
  \<open>ke.data\<close> is one that fits the \<open>int\<close> it is passed on as.
\<close>

datatype kq_answer =
    Kevent_fails
  | Readable nat int bool "nat \<Rightarrow> nat \<Rightarrow> int"
  | Vnode nat u32 "(int \<times> u8 list) option list" bool

definition BUFSIZ :: nat where "BUFSIZ = 8192"

definition kq_turn :: "kq_answer \<Rightarrow> kqstate \<Rightarrow> kqstate option cresult" where
  "kq_turn ev st =
     (case ev of
        Kevent_fails \<Rightarrow> Inr None
      | Readable i dat err wr \<Rightarrow>
          if dat < 0 then Inr (Some (st\<lparr>unread := (unread st)(i := [])\<rparr>))
          else
            cbind (rwfile wr (name (files st ! i)) BUFSIZ err dat (replicate BUFSIZ 0) (unread st i) (outp st))
              (\<lambda>(r, rest, o2). Inr (Some (st\<lparr>unread := (unread st)(i := rest), outp := o2\<rparr>)))
      | Vnode i nts os reg_ok \<Rightarrow>
          if nts AND NOTE_DELETE \<noteq> 0 \<or> nts AND NOTE_RENAME \<noteq> 0 then
            (case kqfreopen os reg_ok i st of
               None \<Rightarrow> Inr None
             | Some (st, r) \<Rightarrow> Inr (Some (if r = -1 then kqfremove i st else st)))
          else Inr (Some st))"

fun kq_loop :: "kq_answer list \<Rightarrow> kqstate \<Rightarrow> kqstate option cresult" where
  "kq_loop [] st = Inr (Some st)"
| "kq_loop (ev # evs) st =
     cbind (kq_turn ev st) (\<lambda>t. case t of None \<Rightarrow> Inr None | Some st \<Rightarrow> kq_loop evs st)"

section \<open>Start\<close>

text \<open>\<open>open_file\<close> seeks to the end: nothing is unread.  \<open>seek_ok\<close> says whether that succeeds.\<close>

definition open_file :: "int option \<Rightarrow> bool \<Rightarrow> int" where
  "open_file opn seek_ok = (case opn of None \<Rightarrow> -1 | Some f \<Rightarrow> if seek_ok then f else -1)"

text \<open>
  The loop of \<open>main\<close> over the arguments (each with the answers it gets), from index \<open>i\<close>; the
  result is the state and the final \<open>i\<close>, or \<open>None\<close> for an exit.
\<close>

fun kq_main_loop :: "(string \<times> int option \<times> bool \<times> bool) list \<Rightarrow> nat \<Rightarrow> kqstate \<Rightarrow> (kqstate \<times> nat) option" where
  "kq_main_loop [] i st = Some (st, i)"
| "kq_main_loop ((arg, opn, seek_ok, reg_ok) # args) i st =
     (if i < NFILES then
        (let f = open_file opn seek_ok in
         if f = -1 then kq_main_loop args (i + 1) st
         else
           (let st = st\<lparr>files := (files st)[i := \<lparr>kfd = f, path = Some arg, name = Some (get_filename arg)\<rparr>],
                        unread := (unread st)(i := [])\<rparr> in
            case register_kevents reg_ok i st of None \<Rightarrow> None | Some st \<Rightarrow> kq_main_loop args (i + 1) st))
      else Some (st, i))"

text \<open>\<open>main\<close>: the exit code, or the state in which the loop is entered and whether the warning is given.\<close>

definition kq_start :: kqstate where
  "kq_start = \<lparr>files = replicate NFILES zero_file, unread = (\<lambda>i. []), kregs = [], outp = []\<rparr>"

definition kq_main :: "bool \<Rightarrow> (string \<times> int option \<times> bool \<times> bool) list \<Rightarrow> int + kqstate \<times> bool" where
  "kq_main kq_ok args =
     (if \<not> kq_ok then Inl 1
      else
        (case kq_main_loop args 0 kq_start of
           None \<Rightarrow> Inl 1
         | Some (st, i) \<Rightarrow> if i = NFILES then Inr (st, True) else if i = 0 then Inl 1 else Inr (st, False)))"


section \<open>Names\<close>

lemma strrchr_None: "strrchr s c = None \<longleftrightarrow> c \<notin> set s"
  by (induction s) (auto split: option.split)

lemma strrchr_Some: "strrchr s c = Some i \<Longrightarrow> i < length s \<and> s ! i = c \<and> c \<notin> set (drop (Suc i) s)"
proof (induction s arbitrary: i)
  case (Cons x s)
  then show ?case
    by (cases "strrchr s c") (auto simp: strrchr_None split: if_splits)
qed simp

section \<open>Lines\<close>

text \<open>What \<open>rdline\<close> gives when its buffer is large enough for all the bytes.\<close>

lemma rd_loop_line:
  assumes "i + k = length buf" and "length s < k"
  shows "\<exists>buf'. length buf' = length buf \<and> rd_loop k err i buf s =
    (if NL \<in> set s
     then Inr (int (i + length (takeWhile (\<lambda>b. b \<noteq> NL) s) + 1), buf', tl (dropWhile (\<lambda>b. b \<noteq> NL) s))
     else Inr (if err then -1 else 0, buf', []))
    \<and> take (i + length (takeWhile (\<lambda>b. b \<noteq> NL) s)) buf' = take i buf @ takeWhile (\<lambda>b. b \<noteq> NL) s
    \<and> (NL \<in> set s \<longrightarrow> buf' ! (i + length (takeWhile (\<lambda>b. b \<noteq> NL) s)) = NL)"
  using assms
proof (induction k err i buf s rule: rd_loop.induct)
  case (3 k err i buf b s)
  have lt: "i < length buf"
    using "3.prems" by simp
  show ?case
  proof (cases "b = NL")
    case True
    then show ?thesis
      using lt by (auto intro!: exI [of _ "buf[i := NL]"])
  next
    case False
    have lens: "i + 1 + k = length (buf[i := b])" "length s < k"
      using "3.prems" by simp_all
    have t: "take (i + 1) (buf[i := b]) = take i buf @ [b]"
      using lt by (simp add: take_Suc_conv_app_nth)
    have st: "aset buf (int i) b = Inr (buf[i := b])"
      using lt by simp
    from "3.IH" [OF st False lens] t show ?thesis
      using lt False by auto
  qed
qed auto

text \<open>The complete lines of a text: up to and including its last newline.\<close>

definition complete :: "u8 list \<Rightarrow> u8 list" where
  "complete s = rev (dropWhile (\<lambda>b. b \<noteq> NL) (rev s))"

lemma complete_none: "NL \<notin> set s \<Longrightarrow> complete s = []"
  by (auto simp: complete_def)

lemma first_line:
  assumes "NL \<in> set s"
  shows "s = takeWhile (\<lambda>b. b \<noteq> NL) s @ NL # tl (dropWhile (\<lambda>b. b \<noteq> NL) s)"
proof -
  have ne: "dropWhile (\<lambda>b. b \<noteq> NL) s \<noteq> []"
    using assms by auto
  then have "dropWhile (\<lambda>b. b \<noteq> NL) s = NL # tl (dropWhile (\<lambda>b. b \<noteq> NL) s)"
    using hd_dropWhile [OF ne] by (metis list.collapse)
  then show ?thesis
    by (metis takeWhile_dropWhile_id)
qed

lemma complete_line:
  assumes "NL \<in> set s"
  shows "complete s = takeWhile (\<lambda>b. b \<noteq> NL) s @ [NL] @ complete (tl (dropWhile (\<lambda>b. b \<noteq> NL) s))"
proof -
  define a where "a = takeWhile (\<lambda>b. b \<noteq> NL) s"
  define r where "r = tl (dropWhile (\<lambda>b. b \<noteq> NL) s)"
  have s: "s = a @ NL # r"
    unfolding a_def r_def by (rule first_line [OF assms])
  have "complete s = a @ [NL] @ complete r"
  proof (cases "NL \<in> set r")
    case True
    then show ?thesis
      unfolding complete_def s by (simp add: dropWhile_append1)
  next
    case False
    then show ?thesis
      unfolding complete_def s by (simp add: dropWhile_append2 dropWhile_append3)
  qed
  then show ?thesis
    by (simp add: a_def r_def)
qed

text \<open>The bytes in an output.\<close>

fun bytes_of :: "item list \<Rightarrow> u8 list" where
  "bytes_of [] = []"
| "bytes_of (Tag t # is) = bytes_of is"
| "bytes_of (Data d # is) = d @ bytes_of is"

lemma bytes_of_append [simp]: "bytes_of (a @ b) = bytes_of a @ bytes_of b"
  by (induction a rule: bytes_of.induct) simp_all

lemma rw_loop_lines:
  assumes "length s < len" and "length buf = len" and "nbytes = tot + int (length s)"
    and "\<And>j n. wr j n = int n"
  shows "\<exists>o2. rw_loop wr nm len False nbytes j tot buf s o1 = Inr (tot + int (length (complete s)), [], o2)
    \<and> bytes_of o2 = bytes_of o1 @ complete s"
  using assms(1-3)
proof (induction "length s" arbitrary: s buf tot j o1 rule: less_induct)
  case less
  define a where "a = takeWhile (\<lambda>b. b \<noteq> NL) s"
  define r where "r = tl (dropWhile (\<lambda>b. b \<noteq> NL) s)"
  obtain buf' where b: "length buf' = len" "rdline len False buf s =
    (if NL \<in> set s then Inr (int (length a + 1), buf', r) else Inr (0, buf', []))"
    "take (length a) buf' = a" "NL \<in> set s \<longrightarrow> buf' ! length a = NL"
    using rd_loop_line [of 0 len buf s False] less.prems by (auto simp: rdline_def a_def r_def)
  show ?case
  proof (cases "NL \<in> set s")
    case False
    then show ?thesis
      using b by (subst rw_loop.simps) (auto simp: assms(4) complete_none Let_def)
  next
    case True
    have s: "length s = length a + 1 + length r"
      using arg_cong [OF first_line [OF True], of length] by (simp add: a_def r_def)
    have line: "take (Suc (length a)) buf' = a @ [NL]"
      using b True s less.prems(1) by (simp add: take_Suc_conv_app_nth)
    have comp: "complete s = a @ [NL] @ complete r"
      using complete_line [OF True] by (simp add: a_def r_def)
    define o1' where "o1' = (let o1' = o1 @ [Data (a @ [NL])] in
      if int (length a + 1) < int len \<and> tot + int (length a + 1) < nbytes then o1' @ [Tag nm] else o1')"
    have o1': "bytes_of o1' = bytes_of o1 @ a @ [NL]"
      by (simp add: o1'_def Let_def)
    have step: "rw_loop wr nm len False nbytes j tot buf s o1 =
        (if tot + int (length a + 1) < nbytes
         then rw_loop wr nm len False nbytes (j + 1) (tot + int (length a + 1)) (replicate len 0) r o1'
         else Inr (tot + int (length a + 1), r, o1'))"
      using b(2) True line by (subst rw_loop.simps) (simp add: assms(4) o1'_def Let_def nat_add_distrib)
    show ?thesis
    proof (cases "r = []")
      case nil: True
      then show ?thesis
        using step o1' comp s less.prems(3) by (simp add: complete_none)
    next
      case False
      then show ?thesis
        using step o1' comp s less.prems less.hyps [of r "replicate len 0" "tot + int (length a + 1)" "j + 1" o1']
        by auto
    qed
  qed
qed


text \<open>The name is what follows the last slash.\<close>

lemma get_filename_spec:
  "CHR ''/'' \<notin> set (get_filename nm)
    \<and> (\<exists>d. nm = d @ get_filename nm \<and> (d = [] \<or> last d = CHR ''/''))"
proof (cases "strrchr nm (CHR ''/'')")
  case None
  moreover have "CHR ''/'' \<notin> set nm"
    using None strrchr_None by blast
  ultimately show ?thesis
    by (simp add: get_filename_def)
next
  case (Some i)
  note i = strrchr_Some [OF Some]
  have "last (take (Suc i) nm) = CHR ''/''"
    using i by (simp add: take_Suc_conv_app_nth)
  with i Some show ?thesis
    by (auto simp: get_filename_def intro!: exI [of _ "take (Suc i) nm"])
qed

section \<open>Nothing leaves the buffer\<close>

lemma rd_loop_total:
  assumes "i + k = length buf"
  shows "\<exists>r buf' rest. rd_loop k err i buf s = Inr (r, buf', rest) \<and> length buf' = length buf"
  using assms
proof (induction k err i buf s rule: rd_loop.induct)
  case (3 k err i buf b s)
  then have st: "aset buf (int i) b = Inr (buf[i := b])"
    by simp
  then show ?case
    using "3.IH" [OF st] "3.prems" by (cases "b = NL") auto
qed auto

lemma rw_loop_total:
  assumes "length buf = len"
  shows "\<exists>r. rw_loop wr nm len err nbytes j tot buf s o1 = Inr r"
  using assms
proof (induction "length s" arbitrary: s buf tot j o1 rule: less_induct)
  case less
  obtain i buf' rest where rd: "rdline len err buf s = Inr (i, buf', rest)"
    using rd_loop_total [of 0 len buf err s] less.prems by (auto simp: rdline_def)
  then have dec: "0 < i \<Longrightarrow> length rest < length s"
    by (auto simp: rdline_def dest: rd_loop_consumes)
  have rec: "0 < i \<Longrightarrow> \<exists>r. rw_loop wr nm len err nbytes (j + 1) t (replicate len 0) rest o2 = Inr r" for t o2
    using less.hyps [OF dec] by simp
  show ?case
    by (subst rw_loop.simps) (use rec in \<open>auto simp: rd Let_def\<close>)
qed

section \<open>The files and their registrations\<close>

text \<open>
  The array has five slots, and every registration is for the open descriptor of a slot that has a
  path and a name (so that no message prints a null pointer).
\<close>

definition kq_wf :: "kqstate \<Rightarrow> bool" where
  "kq_wf st \<longleftrightarrow> length (files st) = NFILES
     \<and> (\<forall>f k i. (f, k, i) \<in> set (kregs st) \<longrightarrow>
          i < NFILES \<and> kfd (files st ! i) = f \<and> path (files st ! i) \<noteq> None \<and> name (files st ! i) \<noteq> None)"

text \<open>The queue delivers an event only for a registration.\<close>

definition event_ok :: "kq_answer \<Rightarrow> kqstate \<Rightarrow> bool" where
  "event_ok ev st \<longleftrightarrow>
     (case ev of Kevent_fails \<Rightarrow> True
      | Readable i dat err wr \<Rightarrow> (\<exists>f. (f, EVFILT_READ, i) \<in> set (kregs st))
      | Vnode i nts os reg_ok \<Rightarrow> (\<exists>f. (f, EVFILT_VNODE, i) \<in> set (kregs st)))"

inductive kq_reachable :: "kqstate \<Rightarrow> bool" where
  main: "kq_main kq_ok args = Inr (st, warned) \<Longrightarrow> kq_reachable st"
| turn: "kq_reachable st \<Longrightarrow> event_ok ev st \<Longrightarrow> kq_turn ev st = Inr (Some st') \<Longrightarrow> kq_reachable st'"

lemma kq_wfI:
  assumes "length (files st) = NFILES"
    and "\<And>f k i. (f, k, i) \<in> set (kregs st) \<Longrightarrow>
      i < NFILES \<and> kfd (files st ! i) = f \<and> path (files st ! i) \<noteq> None \<and> name (files st ! i) \<noteq> None"
  shows "kq_wf st"
  using assms by (auto simp: kq_wf_def)

lemma kq_wfD:
  assumes "kq_wf st" and "(f, k, i) \<in> set (kregs st)"
  shows "i < NFILES" and "kfd (files st ! i) = f" and "path (files st ! i) \<noteq> None" and "name (files st ! i) \<noteq> None"
  using assms by (auto simp: kq_wf_def)

text \<open>A slot gets a new descriptor when none of its registrations is left.\<close>

lemma register_wf:
  assumes "kq_wf st" and "i < NFILES" and "\<And>f k. (f, k, i) \<notin> set (kregs st)"
    and "path fl \<noteq> None" and "name fl \<noteq> None"
    and "register_kevents ok i (st\<lparr>files := (files st)[i := fl], unread := u\<rparr>) = Some st'"
  shows "kq_wf st'"
proof -
  have len: "length (files st) = NFILES"
    using assms(1) by (simp add: kq_wf_def)
  have st': "st' = st\<lparr>files := (files st)[i := fl], unread := u,
      kregs := kregs st @ [(kfd fl, EVFILT_VNODE, i), (kfd fl, EVFILT_READ, i)]\<rparr>"
    using assms(2,6) len by (auto simp: register_kevents_def Let_def split: if_splits)
  show ?thesis
  proof (rule kq_wfI)
    fix f k j
    assume "(f, k, j) \<in> set (kregs st')"
    then consider "(f, k, j) \<in> set (kregs st)" | "j = i" "f = kfd fl"
      by (auto simp: st')
    then show "j < NFILES \<and> kfd (files st' ! j) = f \<and> path (files st' ! j) \<noteq> None \<and> name (files st' ! j) \<noteq> None"
    proof cases
      case 1
      then have "j \<noteq> i"
        using assms(3) by blast
      with kq_wfD [OF assms(1) 1] show ?thesis
        by (simp add: st')
    qed (use assms(2,4,5) len in \<open>simp add: st'\<close>)
  qed (simp add: st' len)
qed

lemma kq_close_wf: "kq_wf st \<Longrightarrow> kq_wf (kq_close f st)"
  by (auto simp: kq_wf_def kq_close_def)

lemma kq_close_none:
  "kq_wf st \<Longrightarrow> (g, k, i) \<notin> set (kregs (kq_close (kfd (files st ! i)) st))"
  by (auto simp: kq_wf_def kq_close_def)

lemma clear_slot_wf:
  assumes "kq_wf st" and "\<And>f k. (f, k, i) \<notin> set (kregs st)"
  shows "kq_wf (st\<lparr>files := (files st)[i := fl]\<rparr>)"
proof (rule kq_wfI)
  fix f k j
  assume "(f, k, j) \<in> set (kregs (st\<lparr>files := (files st)[i := fl]\<rparr>))"
  then have 1: "(f, k, j) \<in> set (kregs st)"
    by simp
  then have "j \<noteq> i"
    using assms(2) by blast
  with kq_wfD [OF assms(1) 1] show "j < NFILES \<and> kfd (files (st\<lparr>files := (files st)[i := fl]\<rparr>) ! j) = f
    \<and> path (files (st\<lparr>files := (files st)[i := fl]\<rparr>) ! j) \<noteq> None
    \<and> name (files (st\<lparr>files := (files st)[i := fl]\<rparr>) ! j) \<noteq> None"
    by simp
qed (use assms(1) in \<open>simp add: kq_wf_def\<close>)


lemma register_eq:
  "register_kevents ok i st = Some st' \<Longrightarrow>
     st' = st\<lparr>kregs := kregs st @ [(kfd (files st ! i), EVFILT_VNODE, i), (kfd (files st ! i), EVFILT_READ, i)]\<rparr>"
  by (auto simp: register_kevents_def Let_def split: if_splits)

lemma kqfreopen_wf:
  assumes "kq_wf st" and "i < NFILES" and "path (files st ! i) \<noteq> None" and "name (files st ! i) \<noteq> None"
    and "kqfreopen os ok i st = Some (st', r)"
  shows "kq_wf st'"
proof -
  define s1 where "s1 = kq_close (kfd (files st ! i)) st"
  have s1: "kq_wf s1" "\<And>f k. (f, k, i) \<notin> set (kregs s1)" "files s1 = files st"
    using kq_close_wf [OF assms(1)] kq_close_none [OF assms(1)] by (auto simp: s1_def kq_close_def)
  show ?thesis
  proof (cases "first_open 3 os")
    case None
    then have "st' = s1\<lparr>files := (files s1)[i := (files s1 ! i)\<lparr>kfd := -1\<rparr>]\<rparr>"
      using assms(5) by (auto simp: kqfreopen_def Let_def simp flip: s1_def)
    then show ?thesis
      using clear_slot_wf [OF s1(1,2)] by simp
  next
    case (Some fb)
    obtain g bytes where "fb = (g, bytes)"
      by (cases fb)
    then have "register_kevents ok i (s1\<lparr>files := (files s1)[i := (files s1 ! i)\<lparr>kfd := g\<rparr>],
        unread := (unread s1)(i := bytes)\<rparr>) = Some st'"
      using assms(5) Some by (auto simp: kqfreopen_def Let_def simp flip: s1_def)
    from register_wf [OF s1(1) assms(2) s1(2) _ _ this] assms(3,4) s1(3) show ?thesis
      by simp
  qed
qed

lemma kqfremove_wf: "kq_wf st \<Longrightarrow> kq_wf (kqfremove i st)"
  using clear_slot_wf [OF kq_close_wf kq_close_none, of st i] by (simp add: kqfremove_def kq_close_def)

lemma kq_wf_unread [simp]: "kq_wf (st\<lparr>unread := u\<rparr>) = kq_wf st" "kq_wf (st\<lparr>unread := u, outp := x\<rparr>) = kq_wf st"
  by (simp_all add: kq_wf_def)

lemma kq_turn_total: "\<exists>r. kq_turn ev st = Inr r"
proof (cases ev)
  case (Readable i dat err wr)
  have "\<exists>r. rwfile wr (name (files st ! i)) BUFSIZ err dat (replicate BUFSIZ 0) (unread st i) (outp st) = Inr r"
    unfolding rwfile_def by (rule rw_loop_total) simp
  then show ?thesis
    by (auto simp: kq_turn_def Readable split_beta)
qed (auto simp: kq_turn_def split: option.split prod.split)

lemma kq_turn_wf:
  assumes "kq_wf st" and "event_ok ev st" and "kq_turn ev st = Inr (Some st')"
  shows "kq_wf st'"
proof (cases ev)
  case Kevent_fails
  then show ?thesis
    using assms(3) by (simp add: kq_turn_def)
next
  case (Readable i dat err wr)
  then show ?thesis
    using assms(1,3) by (auto simp: kq_turn_def cres split: if_splits)
next
  case (Vnode i nts os reg_ok)
  obtain f where f: "(f, EVFILT_VNODE, i) \<in> set (kregs st)"
    using assms(2) by (auto simp: event_ok_def Vnode)
  note slot = kq_wfD [OF assms(1) f]
  show ?thesis
  proof (cases "nts AND NOTE_DELETE \<noteq> 0 \<or> nts AND NOTE_RENAME \<noteq> 0")
    case True
    then obtain s1 r where s1: "kqfreopen os reg_ok i st = Some (s1, r)"
      "st' = (if r = -1 then kqfremove i s1 else s1)"
      using assms(3) by (auto simp: kq_turn_def Vnode split: option.splits)
    then show ?thesis
      using kqfreopen_wf [OF assms(1) slot(1,3,4) s1(1)] kqfremove_wf by simp
  next
    case False
    then show ?thesis
      using assms(1,3) by (simp add: kq_turn_def Vnode)
  qed
qed

lemma kq_main_loop_wf:
  assumes "kq_main_loop args i st = Some (st', n)" and "kq_wf st"
    and "\<And>f k j. (f, k, j) \<in> set (kregs st) \<Longrightarrow> j < i"
  shows "kq_wf st'"
  using assms
proof (induction args i st rule: kq_main_loop.induct)
  case (2 arg opn seek_ok reg_ok args i st)
  show ?case
  proof (cases "i < NFILES")
    case lt: True
    define f where "f = open_file opn seek_ok"
    show ?thesis
    proof (cases "f = -1")
      case True
      then show ?thesis
        using "2.IH"(1) [OF lt f_def True] "2.prems" lt by (fastforce simp: Let_def f_def)
    next
      case False
      define fl where "fl = \<lparr>kfd = f, path = Some arg, name = Some (get_filename arg)\<rparr>"
      define s1 where "s1 = st\<lparr>files := (files st)[i := fl], unread := (unread st)(i := [])\<rparr>"
      obtain s2 where s2: "register_kevents reg_ok i s1 = Some s2" "kq_main_loop args (i + 1) s2 = Some (st', n)"
        using "2.prems"(1) lt False
        by (auto simp: Let_def s1_def fl_def f_def split: option.splits)
      have none: "(g, k, i) \<notin> set (kregs st)" for g k
        using "2.prems"(3) by blast
      have wf2: "kq_wf s2"
        by (rule register_wf [OF "2.prems"(2) lt none _ _ s2(1) [unfolded s1_def]]) (simp_all add: fl_def)
      have "j < i + 1" if "(g, k, j) \<in> set (kregs s2)" for g k j
        using that "2.prems"(3) by (fastforce simp: register_eq [OF s2(1)] s1_def)
      then show ?thesis
        using "2.IH"(2) [OF lt f_def False s1_def [unfolded fl_def] s2(1) s2(2) wf2] by blast
    qed
  next
    case False
    then show ?thesis
      using "2.prems" by simp
  qed
qed simp

lemma kq_main_wf:
  assumes "kq_main kq_ok args = Inr (st, warned)"
  shows "kq_wf st"
proof -
  obtain i where "kq_main_loop args 0 kq_start = Some (st, i)"
    using assms by (auto simp: kq_main_def split: if_splits option.splits)
  then show ?thesis
    by (rule kq_main_loop_wf) (auto simp: kq_wf_def kq_start_def)
qed

lemma kq_reachable_wf: "kq_reachable st \<Longrightarrow> kq_wf st"
  by (induction rule: kq_reachable.induct) (auto intro: kq_main_wf kq_turn_wf)

section \<open>Properties\<close>

text \<open>
  C10: while \<open>kqfile\<close> runs, every registration with the queue belongs to a slot of the array, to the
  descriptor open in it, and to a slot that has a path and a name; and no event makes the program
  leave its buffer.
\<close>

theorem kqfile_slots:
  assumes "kq_reachable st"
  shows "length (files st) = NFILES
    \<and> (\<forall>f k i. (f, k, i) \<in> set (kregs st) \<longrightarrow>
         i < NFILES \<and> kfd (files st ! i) = f \<and> path (files st ! i) \<noteq> None \<and> name (files st ! i) \<noteq> None)
    \<and> (\<exists>r. kq_turn ev st = Inr r)"
  using kq_reachable_wf [OF assms] kq_turn_total by (auto simp: kq_wf_def)

text \<open>
  When the bytes reported fit in the buffer and the output accepts everything, \<open>rwfile\<close> consumes
  them all but prints only the complete lines: what follows the last newline is lost (the next
  event starts after it).
\<close>

theorem rwfile_complete_lines:
  assumes "length s < len" and "\<forall>j n. wr j n = int n"
  shows "\<exists>o2. rwfile wr nm len False (int (length s)) (replicate len 0) s o1 = Inr (int (length (complete s)), [], o2)
    \<and> bytes_of o2 = bytes_of o1 @ complete s"
  using rw_loop_lines [of s len "replicate len 0" "int (length s)" 0 wr nm 0 "o1 @ [Tag nm]"] assms
  by (simp add: rwfile_def)

theorem rwfile_complete_lines_witness:
  "\<exists>o2. rwfile (\<lambda>j n. int n) (Some ''log'') 8192 False 5 (replicate 8192 0) [65, 10, 66, 67, 68] [] =
      Inr (2, [], o2) \<and> bytes_of o2 = [65, 10]"
  using rwfile_complete_lines [of "[65, 10, 66, 67, 68]" 8192 "\<lambda>j n. int n" "Some ''log''" "[]"]
  by (simp add: complete_def NL_def)

definition kq_run :: kqstate where
  "kq_run = kq_start\<lparr>files := (replicate NFILES zero_file)[0 := \<lparr>kfd = 4, path = Some ''v/m'', name = Some ''m''\<rparr>],
     kregs := [(4, EVFILT_VNODE, 0), (4, EVFILT_READ, 0)]\<rparr>"

lemma kq_main_run: "kq_main True [(''v/m'', Some 4, True, True)] = Inr (kq_run, False)"
  by (simp add: kq_main_def kq_run_def kq_start_def open_file_def register_kevents_def NFILES_def
      get_filename_def fun_eq_iff)

theorem kqfile_slots_witness:
  "length (files kq_run) = NFILES
    \<and> list_all (\<lambda>(f, k, i).
         i < NFILES \<and> kfd (files kq_run ! i) = f \<and> path (files kq_run ! i) \<noteq> None \<and> name (files kq_run ! i) \<noteq> None) (kregs kq_run)
    \<and> (\<exists>r. kq_turn (Vnode 0 NOTE_RENAME [None, Some (4, [])] True) kq_run = Inr r)"
  using kqfile_slots [OF kq_reachable.main [OF kq_main_run], of "Vnode 0 NOTE_RENAME [None, Some (4, [])] True"]
  by (auto simp: list_all_iff simp del: not_None_eq)

end
