(* ===== verification/Memtools.thy ===== *)
theory Memtools
  imports Prof "HOL-Library.Sublist"
begin

unbundle bit_operations_syntax

text \<open>
  Small programs about memory: \<open>memalign/unalcalc.c\<close> and \<open>memalign/unalign.c\<close>, which write a
  mapped block from a misaligned address on, and \<open>memcached/mmcu.c\<close>, which stores a value of a
  given size in a \<open>memcached\<close> server and fetches it again.  The mapping, the server and the memory
  allocator are parameters.
\<close>

section \<open>Alignment\<close>

text \<open>\<open>align128bit_offset\<close> on the address as an \<open>u_long\<close>: the suggested address and the offset to it.\<close>

definition align128bit_offset :: "u64 \<Rightarrow> u64 \<times> u64" where
  "align128bit_offset lp =
     (let msk_right4bits0 = push_bit 4 (- 1);
          aligned_lp = (if lp AND msk_right4bits0 \<noteq> 0 then push_bit 4 (drop_bit 4 lp + 1) else lp) in
      (aligned_lp, aligned_lp - lp))"

text \<open>
  The loop that clears the block in steps of a pointer: the addresses it writes, from \<open>vp\<close> while
  below \<open>lim\<close>; a store outside the mapping (\<open>mend\<close> is its end) traps.  \<open>mmap\<close> rounds the length up
  to whole pages.
\<close>

definition PAGE :: nat where "PAGE = 4096"

definition map_end :: "nat \<Rightarrow> nat \<Rightarrow> nat" where
  "map_end mblock len = mblock + (len + PAGE - 1) div PAGE * PAGE"

function clear_loop :: "nat \<Rightarrow> nat \<Rightarrow> nat \<Rightarrow> nat list cresult" where
  "clear_loop lim mend vp =
     (if vp < lim then
        (if mend < vp + 8 then Inl OutOfBounds else cbind (clear_loop lim mend (vp + 8)) (\<lambda>ps. Inr (vp # ps)))
      else Inr [])"
  by pat_completeness auto
termination by (relation "measure (\<lambda>(lim, mend, vp). lim - vp)") auto

declare clear_loop.simps [simp del]

text \<open>
  \<open>main\<close> of \<open>unalign.c\<close>: the number of words, the two numbers, the address \<open>mmap\<close> gives (or a
  failure), whether \<open>munmap\<close> succeeds.  The result is the exit code and the addresses written.
\<close>

definition unalign_main :: "nat \<Rightarrow> int \<Rightarrow> int \<Rightarrow> nat option \<Rightarrow> bool \<Rightarrow> (int \<times> nat list) cresult" where
  "unalign_main argc mb_len offset mapped unmap_ok =
     (if argc < 3 then Inr (1, [])
      else if mb_len \<le> 0 then Inr (1, [])
      else if offset \<le> 0 then Inr (1, [])
      else
        (case mapped of None \<Rightarrow> Inr (1, [])
         | Some mblock \<Rightarrow>
             cbind (clear_loop (mblock + nat mb_len) (map_end mblock (nat mb_len)) (mblock + nat offset)) (\<lambda>ps.
             Inr (if unmap_ok then 0 else -1, ps))))"

text \<open>
  \<open>main\<close> of \<open>unalcalc.c\<close>: also the words \<open>argv[0]\<close> and \<open>argv[3]\<close>; the option is looked for as
  \<open>y\<close> in the third argument but as \<open>yes\<close> in the name of the program.
\<close>

definition unalcalc_main ::
  "string \<Rightarrow> nat \<Rightarrow> int \<Rightarrow> int \<Rightarrow> string \<Rightarrow> nat option \<Rightarrow> bool \<Rightarrow> (int \<times> nat list) cresult" where
  "unalcalc_main argv0 argc mb_len offset argv3 mapped unmap_ok =
     (if argc < 3 then Inr (1, [])
      else if mb_len \<le> 0 then Inr (1, [])
      else if offset \<le> 0 then Inr (1, [])
      else
        (let should_align = 3 < argc \<and> (strcaseeq ''y'' argv3 \<or> strcaseeq ''yes'' argv0) in
         case mapped of None \<Rightarrow> Inr (1, [])
         | Some mblock \<Rightarrow>
             (let vp = mblock + nat offset;
                  (ap, al_offset) = align128bit_offset (of_nat vp);
                  vp = (if al_offset \<noteq> 0 \<and> should_align then vp + unat al_offset else vp) in
              cbind (clear_loop (mblock + nat mb_len) (map_end mblock (nat mb_len)) vp) (\<lambda>ps.
              Inr (if unmap_ok then 0 else -1, ps)))))"

section \<open>Filling a buffer\<close>

text \<open>
  The loop of \<open>mmcu.c\<close> that fills the buffer with copies of a string: \<open>pos\<close> is the place of \<open>p\<close> in
  it, \<open>left\<close> what is left; a loop that never ends has no value.
\<close>

definition put_bytes :: "u8 list \<Rightarrow> nat \<Rightarrow> u8 list \<Rightarrow> u8 list cresult" where
  "put_bytes buf pos xs =
     (if pos + length xs \<le> length buf then Inr (take pos buf @ xs @ drop (pos + length xs) buf)
      else Inl OutOfBounds)"

partial_function (option) fill_loop :: "u8 list \<Rightarrow> nat \<Rightarrow> nat \<Rightarrow> u8 list \<Rightarrow> u8 list cresult option" where
  "fill_loop val pos left buf =
     (if 0 < left then
        (let n = (if left < length val then left else length val) in
         case put_bytes buf pos (take n val) of
           Inl e \<Rightarrow> Some (Inl e)
         | Inr buf \<Rightarrow> fill_loop val (pos + n) (left - n) buf)
      else Some (Inr buf))"

text \<open>\<open>strcmp\<close>, as far as the program asks: whether it gives 0.\<close>

fun cstreq :: "u8 list \<Rightarrow> u8 list \<Rightarrow> bool cresult" where
  "cstreq (x # xs) (y # ys) = (if x \<noteq> y then Inr False else if x = 0 then Inr True else cstreq xs ys)"
| "cstreq _ _ = Inl OutOfBounds"

text \<open>
  The answers of \<open>malloc\<close> (the contents of the new block, junk) and of the \<open>memcached\<close> library:
  whether the handle is created, whether the server is added, whether a value is stored, what is
  fetched.
\<close>

record mc_env =
  malloc_mem :: "u8 list option"
  created :: bool
  added :: bool
  stored :: "string \<Rightarrow> u8 list \<Rightarrow> bool"
  fetched :: "string \<Rightarrow> u8 list \<Rightarrow> u8 list option"

text \<open>What \<open>main\<close> ends with: an exit code and whether the comparison is reported as equal.\<close>

definition in_port :: "int \<Rightarrow> nat" where
  "in_port i = nat (i mod 2 ^ 16)"

text \<open>
  \<open>main\<close>: \<open>argc\<close> counts the name of the program; \<open>args\<close> are the words after it: the host, the port
  (after \<open>atoi\<close>), the key, the string, the size (after \<open>atol\<close>); a size that is not there is the
  null pointer that ends \<open>argv\<close>.
\<close>

definition mmcu_main ::
  "mc_env \<Rightarrow> nat \<Rightarrow> int \<Rightarrow> string \<Rightarrow> u8 list \<Rightarrow> int option \<Rightarrow> (int \<times> bool option) cresult option" where
  "mmcu_main e argc port key val lval =
     (if argc < 5 then Some (Inr (1, None))
      else if in_port port = 0 then Some (Inr (1, None))
      else
        (case lval of None \<Rightarrow> Some (Inl BadPointer)
         | Some l \<Rightarrow>
           if l \<le> 0 then Some (Inr (1, None))
           else
             (case malloc_mem e of None \<Rightarrow> Some (Inr (ENOMEM, None))
              | Some junk \<Rightarrow>
                Option.bind (fill_loop val 0 (nat l - 1) junk) (\<lambda>r. Some (
                cbind r (\<lambda>buf.
                cbind (aset buf (l - 1) 0) (\<lambda>buf.
                cbind (cstrlen buf) (\<lambda>n.
                cbind (cassert (n = nat l - 1)) (\<lambda>_.
                if \<not> created e then Inr (1, None)
                else if \<not> added e then Inr (EIO, None)
                else if \<not> stored e key buf then Inr (EIO, None)
                else
                  (case fetched e key buf of
                     None \<Rightarrow> Inr (EIO, None)
                   | Some p \<Rightarrow>
                       cbind (cstreq buf p) (\<lambda>same. Inr (0, Some same))))))))))))"


section \<open>Alignment\<close>

lemma high_bits: "lp AND push_bit 4 (- 1) = (0 :: u64) \<longleftrightarrow> unat lp < 16"
proof -
  have small: "unat lp < 16 \<longleftrightarrow> take_bit 4 lp = lp"
    by (simp add: word_unat_eq_iff unsigned_take_bit_eq take_bit_nat_eq_self_iff)
  have "lp AND NOT (mask 4) = 0 \<longleftrightarrow> take_bit 4 lp = lp"
  proof
    assume z: "lp AND NOT (mask 4) = 0"
    show "take_bit 4 lp = lp"
    proof (rule bit_word_eqI)
      fix n
      assume "n < LENGTH(64)"
      then show "bit (take_bit 4 lp) n = bit lp n"
        using arg_cong [OF z, of "\<lambda>w. bit w n"] by (auto simp: bit_simps)
    qed
  next
    assume t: "take_bit 4 lp = lp"
    have "take_bit 4 lp AND NOT (mask 4) = 0"
      by (rule bit_word_eqI) (auto simp: bit_simps)
    then show "lp AND NOT (mask 4) = 0"
      by (simp add: t)
  qed
  then show ?thesis
    by (simp add: small)
qed

lemma align_eq:
  "align128bit_offset lp =
     (if unat lp < 16 then (lp, 0) else (lp + of_nat (16 - unat lp mod 16), of_nat (16 - unat lp mod 16)))"
proof (cases "unat lp < 16")
  case True
  then show ?thesis
    using high_bits [of lp] by (simp add: align128bit_offset_def Let_def)
next
  case False
  have "unat (drop_bit 4 lp) = unat lp div 16"
    by (simp add: unat_drop_bit_eq drop_bit_eq_div unat_div)
  then have "of_nat (unat (drop_bit 4 lp)) = (of_nat (unat lp div 16) :: u64)"
    by (rule arg_cong)
  then have "drop_bit 4 lp = of_nat (unat lp div 16)"
    by simp
  then have "push_bit 4 (drop_bit 4 lp + 1) = of_nat ((unat lp div 16 + 1) * 16)"
    by (simp add: push_bit_eq_mult)
  also have "(unat lp div 16 + 1) * 16 = unat lp + (16 - unat lp mod 16)"
    by presburger
  also have "of_nat (unat lp + (16 - unat lp mod 16)) = lp + of_nat (16 - unat lp mod 16)"
    by simp
  finally show ?thesis
    using False high_bits [of lp] by (simp add: align128bit_offset_def Let_def)
qed

section \<open>Clearing\<close>

lemma clear_loop_trap:
  "clear_loop lim mend vp = Inl OutOfBounds \<longleftrightarrow> (\<exists>k. vp + 8 * k < lim \<and> mend < vp + 8 * k + 8)"
proof (induction lim mend vp rule: clear_loop.induct)
  case (1 lim mend vp)
  show ?case
  proof (cases "vp < lim \<and> vp + 8 \<le> mend")
    case True
    have "(\<exists>k. vp + 8 * k < lim \<and> mend < vp + 8 * k + 8) \<longleftrightarrow> (\<exists>k. vp + 8 + 8 * k < lim \<and> mend < vp + 8 + 8 * k + 8)"
    proof
      assume "\<exists>k. vp + 8 * k < lim \<and> mend < vp + 8 * k + 8"
      then obtain k where k: "vp + 8 * k < lim" "mend < vp + 8 * k + 8"
        by blast
      with True obtain m where "k = Suc m"
        by (cases k) auto
      with k show "\<exists>k. vp + 8 + 8 * k < lim \<and> mend < vp + 8 + 8 * k + 8"
        by (intro exI [of _ m]) simp
    next
      assume "\<exists>k. vp + 8 + 8 * k < lim \<and> mend < vp + 8 + 8 * k + 8"
      then obtain k where "vp + 8 + 8 * k < lim" "mend < vp + 8 + 8 * k + 8"
        by blast
      then show "\<exists>k. vp + 8 * k < lim \<and> mend < vp + 8 * k + 8"
        by (intro exI [of _ "Suc k"]) simp
    qed
    with 1 True show ?thesis
      by (subst clear_loop.simps) (auto simp: cres not_less)
  next
    case False
    then show ?thesis
      by (subst clear_loop.simps) (auto intro!: exI [of _ 0])
  qed
qed

lemma clear_loop_faults: "clear_loop lim mend vp = Inl e \<Longrightarrow> e = OutOfBounds"
proof (induction lim mend vp rule: clear_loop.induct)
  case (1 lim mend vp)
  then show ?case
    by (subst (asm) (2) clear_loop.simps) (auto simp: cres split: if_splits)
qed

section \<open>Filling\<close>

lemma fill_step:
  assumes "0 < left"
  shows "fill_loop val pos left buf =
    (let n = min left (length val) in
     case put_bytes buf pos (take n val) of Inl e \<Rightarrow> Some (Inl e) | Inr buf \<Rightarrow> fill_loop val (pos + n) (left - n) buf)"
proof -
  have "(if left < length val then left else length val) = min left (length val)"
    by simp
  with assms show ?thesis
    by (subst fill_loop.simps) (simp add: Let_def)
qed

lemma fill_empty:
  assumes "0 < left" and "pos \<le> length buf"
  shows "fill_loop [] pos left buf = None"
proof (rule ccontr)
  assume "fill_loop [] pos left buf \<noteq> None"
  then obtain r where "fill_loop [] pos left buf = Some r"
    by blast
  moreover have "val = [] \<longrightarrow> pos \<le> length buf \<longrightarrow> left = 0" if "fill_loop val pos left buf = Some r" for val pos left buf r
  proof (rule fill_loop.raw_induct [where P = "\<lambda>val pos left buf r. val = [] \<longrightarrow> pos \<le> length buf \<longrightarrow> left = 0",
          OF _ that], intro impI, rule ccontr)
    fix loop :: "u8 list \<Rightarrow> nat \<Rightarrow> nat \<Rightarrow> u8 list \<Rightarrow> u8 list cresult option"
    fix val :: "u8 list" and pos left buf res
    assume IH: "\<And>val pos left buf r. loop val pos left buf = Some r \<Longrightarrow> val = [] \<longrightarrow> pos \<le> length buf \<longrightarrow> left = 0"
      and run: "(if 0 < left then
        (let n = (if left < length val then left else length val) in
         case put_bytes buf pos (take n val) of Inl e \<Rightarrow> Some (Inl e) | Inr buf \<Rightarrow> loop val (pos + n) (left - n) buf)
        else Some (Inr buf)) = Some res"
      and hyps: "val = []" "pos \<le> length buf" "left \<noteq> 0"
    from run hyps have "loop [] pos left buf = Some res"
      by (simp add: put_bytes_def)
    with IH hyps show False
      by blast
  qed
  ultimately show False
    using assms by blast
qed

text \<open>The buffer after the loop: copies of the string, cut to the length.\<close>

definition copies :: "nat \<Rightarrow> u8 list \<Rightarrow> u8 list" where
  "copies n val = take n (concat (replicate n val))"

lemma copies_step:
  assumes "val \<noteq> []" and "0 < n"
  shows "copies n val = take (min n (length val)) val @ copies (n - min n (length val)) val"
proof -
  have len: "length (concat (replicate k val)) = k * length val" for k
    by (induction k) simp_all
  have prefix: "take m (concat (replicate j val)) = take m (concat (replicate k val))" if "m \<le> j" "j \<le> k" for m j k
  proof -
    obtain d where "k = j + d"
      using \<open>j \<le> k\<close> less_eqE by blast
    moreover have "m \<le> j * length val"
      using \<open>m \<le> j\<close> assms(1) by (metis One_nat_def Suc_leI length_greater_0_conv mult.right_neutral mult_le_mono)
    ultimately show ?thesis
      by (simp add: replicate_add len)
  qed
  obtain n' where n': "n = Suc n'"
    using assms(2) by (cases n) auto
  show ?thesis
  proof (cases "n \<le> length val")
    case True
    then show ?thesis
      by (simp add: copies_def n')
  next
    case False
    have "n - length val \<le> n'"
      using assms(1) by (cases val) (simp_all add: n')
    then have "take (n - length val) (concat (replicate n' val)) = take (n - length val) (concat (replicate (n - length val) val))"
      using prefix [of "n - length val" "n - length val" n'] by simp
    with False show ?thesis
      by (simp add: copies_def n')
  qed
qed

lemma copies_length: "val \<noteq> [] \<Longrightarrow> length (copies n val) = n"
proof (induction n rule: less_induct)
  case (less n)
  show ?case
  proof (cases "n = 0")
    case False
    then have "n - min n (length val) < n"
      using less.prems by (cases val) auto
    then show ?thesis
      using copies_step [OF less.prems, of n] less.IH [of "n - min n (length val)"] less.prems False by simp
  qed (simp add: copies_def)
qed

lemma copies_set: "set (copies n val) \<subseteq> set val"
  by (auto simp: copies_def dest: in_set_takeD)

lemma fill_copies:
  assumes "val \<noteq> []" and "pos + left \<le> length buf"
  shows "fill_loop val pos left buf = Some (Inr (take pos buf @ copies left val @ drop (pos + left) buf))"
  using assms(2)
proof (induction left arbitrary: pos buf rule: less_induct)
  case (less left)
  show ?case
  proof (cases "left = 0")
    case True
    then show ?thesis
      by (subst fill_loop.simps) (simp add: copies_def)
  next
    case False
    define n where "n = min left (length val)"
    have n: "0 < n" "n \<le> left" "length (take n val) = n"
      using False assms(1) by (simp_all add: n_def)
    define buf' where "buf' = take pos buf @ take n val @ drop (pos + n) buf"
    have buf': "length buf' = length buf" "take (pos + n) buf' = take pos buf @ take n val"
      "drop (pos + left) buf' = drop (pos + left) buf"
      using less.prems n by (simp_all add: buf'_def add.commute)
    have "fill_loop val pos left buf = fill_loop val (pos + n) (left - n) buf'"
      using False n less.prems by (simp add: fill_step Let_def put_bytes_def buf'_def flip: n_def)
    also have "\<dots> = Some (Inr (take (pos + n) buf' @ copies (left - n) val @ drop (pos + n + (left - n)) buf'))"
      using less.IH [of "left - n" "pos + n" buf'] less.prems n buf'(1) by simp
    finally show ?thesis
      using copies_step [OF assms(1), of left] False n buf' by (simp flip: n_def)
  qed
qed

text \<open>
  The address the alignment routine suggests is the next multiple of 16, also for an address
  that is aligned already, except below 16.
\<close>

theorem align128bit_offset_moves_aligned:
  "align128bit_offset lp =
     (if unat lp < 16 then (lp, 0) else (lp + of_nat (16 - unat lp mod 16), of_nat (16 - unat lp mod 16)))"
  by (rule align_eq)

lemma clear_run_trap:
  assumes "8 dvd len" and "offset < len"
  shows "clear_loop (m + len) (m + len) (m + offset) = Inl OutOfBounds \<longleftrightarrow> \<not> 8 dvd offset"
proof -
  have "(\<exists>k. offset + 8 * k < len \<and> len < offset + 8 * k + 8) \<longleftrightarrow> \<not> 8 dvd offset"
  proof
    assume "\<exists>k. offset + 8 * k < len \<and> len < offset + 8 * k + 8"
    with assms(1) show "\<not> 8 dvd offset"
      by presburger
  next
    assume "\<not> 8 dvd offset"
    then show "\<exists>k. offset + 8 * k < len \<and> len < offset + 8 * k + 8"
      using assms by (intro exI [of _ "(len - offset) div 8"]) presburger
  qed
  then show ?thesis
    by (simp add: clear_loop_trap add.assoc)
qed

lemma map_end_pages: "PAGE dvd len \<Longrightarrow> map_end m len = m + len"
  by (auto simp: map_end_def PAGE_def elim!: dvdE)

lemma cstreq_refl: "0 \<in> set p \<Longrightarrow> cstreq p p = Inr True"
  by (induction p) auto

text \<open>
  A run of \<open>unalign\<close> over whole pages writes behind the mapping exactly when the offset is not a
  multiple of the size of a pointer.
\<close>

theorem unalign_main_traps:
  assumes "3 \<le> argc" and "PAGE dvd len" and "0 < offset" and "offset < len"
  shows "unalign_main argc (int len) (int offset) (Some m) ok = Inl OutOfBounds \<longleftrightarrow> \<not> 8 dvd offset"
proof -
  have "8 dvd PAGE"
    by (simp add: PAGE_def)
  then have "8 dvd len"
    using assms(2) dvd_trans by blast
  then have "clear_loop (m + len) (m + len) (m + offset) = Inl OutOfBounds \<longleftrightarrow> \<not> 8 dvd offset"
    using assms(4) by (rule clear_run_trap)
  then show ?thesis
    using assms by (cases "clear_loop (m + len) (m + len) (m + offset)") (auto simp: unalign_main_def map_end_pages)
qed

lemma unalign_main_traps_witness:
  "unalign_main 3 (int 8192) (int 20) (Some 65536) True = Inl OutOfBounds \<longleftrightarrow> \<not> 8 dvd (20 :: nat)"
  by (rule unalign_main_traps) (simp_all add: PAGE_def)

lemma aligned_total:
  assumes "8 dvd vp" and "8 dvd mend" and "lim \<le> mend"
  shows "\<exists>ps. clear_loop lim mend vp = Inr ps"
proof -
  have "\<not> (vp + 8 * k < lim \<and> mend < vp + 8 * k + 8)" for k
    using assms by presburger
  then have "clear_loop lim mend vp \<noteq> Inl OutOfBounds"
    by (simp add: clear_loop_trap)
  then show ?thesis
    using clear_loop_faults by (cases "clear_loop lim mend vp") blast+
qed

lemma unalcalc_aligned_total:
  assumes "strcaseeq ''y'' argv3" and "3 < argc" and "PAGE dvd m" and "0 < m" and "m + nat offset + 16 < 2 ^ 64"
  shows "\<exists>r. unalcalc_main argv0 argc mb_len offset argv3 (Some m) ok = Inr r"
proof -
  define vp where "vp = m + nat offset"
  have u: "unat (of_nat vp :: u64) = vp"
    using assms(5) by (simp add: unat_of_nat flip: vp_def)
  have "m \<noteq> 0 \<and> 4096 dvd m"
    using assms(3, 4) by (simp add: PAGE_def)
  then have ge: "16 \<le> vp" "8 dvd m"
    by (auto simp: vp_def elim!: dvdE)
  have eo: "unat (snd (align128bit_offset (of_nat vp))) = 16 - vp mod 16"
  proof -
    have "snd (align128bit_offset (of_nat vp)) = of_nat (16 - vp mod 16)"
      using ge(1) by (simp only: align_eq u) simp
    moreover have "16 - vp mod 16 < 2 ^ 64"
      by (simp add: less_imp_diff_less)
    ultimately show ?thesis
      by (simp only: unat_of_nat take_bit_nat_eq_self)
         (simp add: take_bit_nat_eq_self)
  qed
  then have nz: "snd (align128bit_offset (of_nat vp)) \<noteq> 0"
    by (auto simp: unat_eq_zero)
  have al: "8 dvd vp + (16 - vp mod 16)"
    by presburger
  have ends: "8 dvd map_end m l" "m + l \<le> map_end m l" for l
    using ge(2) by (simp_all add: map_end_def PAGE_def)
  obtain ps where "clear_loop (m + nat mb_len) (map_end m (nat mb_len)) (vp + (16 - vp mod 16)) = Inr ps"
    using aligned_total [OF al ends] by blast
  then show ?thesis
    using assms(1, 2) nz eo
    by (auto simp: unalcalc_main_def Let_def case_prod_beta simp flip: vp_def)
qed

text \<open>
  With the option to align, \<open>unalcalc\<close> never writes outside the mapping, whatever the length and the
  offset are.
\<close>

theorem unalcalc_aligned_stays:
  assumes "strcaseeq ''y'' argv3" and "3 < argc" and "PAGE dvd m" and "0 < m" and "m + nat offset + 16 < 2 ^ 64"
  shows "\<exists>r. unalcalc_main argv0 argc mb_len offset argv3 (Some m) ok = Inr r"
  using assms by (rule unalcalc_aligned_total)

lemma unalcalc_aligned_stays_witness:
  "\<exists>r. unalcalc_main ''unal'' 4 8192 20 ''Y'' (Some 65536) True = Inr r"
  by (rule unalcalc_aligned_stays) (code_simp, simp_all add: PAGE_def)

section \<open>The value in the cache\<close>

text \<open>
  An empty string never fills the buffer: the program stays in the loop that copies it.
\<close>

theorem mmcu_empty_hangs:
  assumes "5 \<le> argc" and "in_port port \<noteq> 0" and "1 < sz" and "malloc_mem e = Some junk"
  shows "mmcu_main e argc port key [] (Some sz) = None"
  using assms by (simp add: mmcu_main_def fill_empty)

definition shop :: mc_env where
  "shop = \<lparr>malloc_mem = Some (replicate 8 7), created = True, added = True, stored = (\<lambda>_ _. True), fetched = (\<lambda>_ v. Some v)\<rparr>"

lemma mmcu_empty_hangs_witness: "mmcu_main shop 6 11211 ''k'' [] (Some 8) = None"
  by (rule mmcu_empty_hangs [where junk = "replicate 8 7"]) (simp_all add: in_port_def shop_def)

text \<open>
  The comparison of the buffer with a fetched block: \<open>strcmp\<close> stops at the first difference or at
  the NUL; a block that ends inside the string without a NUL is read past its end.
\<close>

lemma cstreq_text:
  assumes "0 \<notin> set s"
  shows "cstreq (s @ [0]) p = (if prefix p s then Inl OutOfBounds else Inr (prefix (s @ [0]) p))"
  using assms by (induction s arbitrary: p; case_tac p) auto

lemma fill_buffer:
  assumes "val \<noteq> [] \<or> n = 0" and "length junk = Suc n"
  shows "\<exists>x. fill_loop val 0 n junk = Some (Inr (copies n val @ [x])) \<and> length (copies n val) = n"
proof -
  obtain x where x: "drop n junk = [x]"
    using assms(2) by (metis Cons_nth_drop_Suc drop_all lessI order_refl)
  show ?thesis
  proof (cases "val = []")
    case True
    with assms x show ?thesis
      by (subst fill_loop.simps) (simp add: copies_def)
  next
    case False
    then show ?thesis
      using fill_copies [of val 0 n junk] assms(2) x by (simp add: copies_length)
  qed
qed

lemma mmcu_result:
  assumes "\<forall>junk. malloc_mem e = Some junk \<longrightarrow> length junk = nat sz" and "0 \<notin> set val" and "0 < sz"
    and "5 \<le> argc" and "in_port port \<noteq> 0"
  defines "text \<equiv> copies (nat sz - 1) val"
  shows "mmcu_main e argc port key val (Some sz) =
    (if malloc_mem e = None then Some (Inr (ENOMEM, None))
     else if val = [] \<and> 1 < sz then None
     else Some
       (if \<not> created e then Inr (1, None)
        else if \<not> added e \<or> \<not> stored e key (text @ [0]) then Inr (EIO, None)
        else case fetched e key (text @ [0]) of
               None \<Rightarrow> Inr (EIO, None)
             | Some p \<Rightarrow> if prefix p text then Inl OutOfBounds else Inr (0, Some (prefix (text @ [0]) p))))"
proof (cases "malloc_mem e")
  case None
  with assms show ?thesis
    by (simp add: mmcu_main_def)
next
  case (Some junk)
  define n where "n = nat sz - 1"
  have n: "nat sz = Suc n" "nat (sz - 1) = n" "0 \<le> sz - 1" "1 < sz \<longleftrightarrow> n \<noteq> 0"
    using assms(3) by (auto simp: n_def nat_diff_distrib)
  have junk: "length junk = Suc n"
    using assms(1) Some n(1) by simp
  show ?thesis
  proof (cases "val = [] \<and> 1 < sz")
    case True
    then show ?thesis
      using assms Some by (simp add: mmcu_main_def fill_empty)
  next
    case False
    then obtain x where run: "fill_loop val 0 n junk = Some (Inr (copies n val @ [x]))"
      and len: "length (copies n val) = n"
      using fill_buffer [OF _ junk, of val] n(4) by blast
    have "aset (copies n val @ [x]) (sz - 1) 0 = Inr (copies n val @ [0])"
      using n by (simp add: len list_update_append)
    moreover have nz: "0 \<notin> set (copies n val)"
      using copies_set [of n val] assms(2) by blast
    then have "cstrlen (copies n val @ [0]) = Inr n"
      using cstrlen_append [of "copies n val" "[]"] by (simp add: len)
    moreover have "text = copies n val"
      by (simp add: text_def n_def)
    ultimately show ?thesis
      using assms(3-5) Some False run n(1)
      by (simp add: mmcu_main_def cassert_def cstreq_text [OF nz] flip: n_def split: option.split)
  qed
qed

text \<open>
  C33: with the arguments in order, whatever the allocator and the server answer, \<open>mmcu\<close> runs as
  follows. It ends with \<open>ENOMEM\<close> without memory. For an empty string and a size above 1 it never
  ends, since the loop that fills the buffer makes no progress. Otherwise it ends: with 1 when the
  handle cannot be created; with \<open>EIO\<close> when the server cannot be added, does not store the copies
  of the string that fill the size asked for less one and the NUL that closes them, or gives
  nothing back for them; and with 0 otherwise, reporting the fetched block as equal exactly when
  it starts with those copies and their NUL. A fetched block that ends inside the copies and has
  no NUL of its own is read past its end.
\<close>

theorem mmcu_outcome:
  assumes "\<forall>junk. malloc_mem e = Some junk \<longrightarrow> length junk = nat sz" and "0 \<notin> set val" and "0 < sz"
    and "5 \<le> argc" and "in_port port \<noteq> 0"
  defines "text \<equiv> copies (nat sz - 1) val"
  shows "mmcu_main e argc port key val (Some sz) =
    (if malloc_mem e = None then Some (Inr (ENOMEM, None))
     else if val = [] \<and> 1 < sz then None
     else Some
       (if \<not> created e then Inr (1, None)
        else if \<not> added e \<or> \<not> stored e key (text @ [0]) then Inr (EIO, None)
        else case fetched e key (text @ [0]) of
               None \<Rightarrow> Inr (EIO, None)
             | Some p \<Rightarrow> if prefix p text then Inl OutOfBounds else Inr (0, Some (prefix (text @ [0]) p))))"
  using assms(1-5) unfolding text_def by (rule mmcu_result)

lemma mmcu_outcome_witness:
  "mmcu_main shop 6 11211 ''k'' [97, 98, 99] (Some 8) = Some (Inr (0, Some True)) \<and>
   mmcu_main (shop\<lparr>fetched := \<lambda>_ _. Some [97, 98, 0]\<rparr>) 6 11211 ''k'' [97, 98, 99] (Some 8) = Some (Inr (0, Some False)) \<and>
   mmcu_main shop 6 11211 ''k'' [] (Some 8) = None"
proof -
  have "copies 7 [97, 98, 99] = [97, 98, 99, 97, 98, 99, 97 :: u8]"
    by (simp add: copies_def numeral_eq_Suc)
  then show ?thesis
    using mmcu_outcome [of shop 8 "[97, 98, 99]" 6 11211 "''k''"]
      mmcu_outcome [of "shop\<lparr>fetched := \<lambda>_ _. Some [97, 98, 0]\<rparr>" 8 "[97, 98, 99]" 6 11211 "''k''"]
      mmcu_outcome [of shop 8 "[]" 6 11211 "''k''"]
    by (simp add: in_port_def shop_def prefix_def)
qed

text \<open>
  Five words pass the check for the number of arguments, and the sixth is used: the null pointer
  that ends \<open>argv\<close> reaches \<open>atol\<close>.  A port above 65535 is taken modulo 65536.
\<close>

theorem mmcu_five_words:
  "in_port port \<noteq> 0 \<Longrightarrow> mmcu_main e 5 port key val None = Some (Inl BadPointer)"
  by (simp add: mmcu_main_def)

lemma in_port_wraps: "in_port (65536 + 80) = 80"
  by (simp add: in_port_def)

end
