(* ===== verification/DebugSyncDyn.thy ===== *)
theory DebugSyncDyn
  imports Prelude "HOL-Library.List_Lexorder" "HOL-Library.Multiset"
begin

text \<open>
  \<open>debugsync/debugsync_dyn.c\<close>: the debug synchronization facility on a growing table of points and
  one signal name.  The table is an array of pointers to points on the heap; the operations are
  modelled with every access to it, first as they run under the mutex, then as steps of threads.
  Names are the bytes of C strings without the terminating NUL.  The mutex and the condition
  variable are taken to work; \<open>malloc\<close> and \<open>realloc\<close> may fail.
\<close>

section \<open>State\<close>

definition DS_MAXLEN :: nat where "DS_MAXLEN = 32"
definition DS_EXPAND_BY :: nat where "DS_EXPAND_BY = 8"

text \<open>The size of \<open>struct ds_point\<close>, and of a pointer to it.\<close>

definition sizeof_point :: nat where "sizeof_point = DS_MAXLEN + 1 + 1"
definition sizeof_pointer :: nat where "sizeof_pointer = 8"

record ds_point =
  pname :: "u8 list"
  is_enabled :: bool

text \<open>
  The array of pointers: null, released, or its elements; \<open>None\<close> is a null pointer.  \<open>objs\<close> is the
  heap of points by address, \<open>None\<close> once released.
\<close>

datatype parray = PNull | PFreed | PArr "nat option list"

record ds_global =
  signal_name :: "u8 list"
  objs :: "ds_point option list"
  points :: parray
  capacity :: nat
  npoints :: nat

definition ds_zero :: ds_global where
  "ds_zero = \<lparr>signal_name = [], objs = [], points = PNull, capacity = 0, npoints = 0\<rparr>"

text \<open>\<open>ds_init\<close> leaves the capacity alone.\<close>

definition ds_init :: "ds_global \<Rightarrow> ds_global" where
  "ds_init d = d\<lparr>signal_name := [], points := PNull, npoints := 0\<rparr>"

definition pread :: "ds_global \<Rightarrow> nat \<Rightarrow> nat option cresult" where
  "pread d i = (case points d of PArr xs \<Rightarrow> aget xs (int i) | _ \<Rightarrow> Inl BadPointer)"

definition pwrite :: "nat \<Rightarrow> nat option \<Rightarrow> ds_global \<Rightarrow> ds_global cresult" where
  "pwrite i p d =
     (case points d of
        PArr xs \<Rightarrow> cbind (aset xs (int i) p) (\<lambda>xs. Inr (d\<lparr>points := PArr xs\<rparr>))
      | _ \<Rightarrow> Inl BadPointer)"

definition oread :: "ds_global \<Rightarrow> nat option \<Rightarrow> ds_point cresult" where
  "oread d p =
     (case p of None \<Rightarrow> Inl BadPointer
      | Some a \<Rightarrow> if a < length (objs d) then (case objs d ! a of None \<Rightarrow> Inl BadPointer | Some pt \<Rightarrow> Inr pt)
                 else Inl BadPointer)"

definition set_enabled :: "nat \<Rightarrow> bool \<Rightarrow> ds_global \<Rightarrow> ds_global cresult" where
  "set_enabled a b d =
     cbind (oread d (Some a)) (\<lambda>pt. Inr (d\<lparr>objs := (objs d)[a := Some (pt\<lparr>is_enabled := b\<rparr>)]\<rparr>))"

text \<open>\<open>ds_destroy\<close>: a second release of the same object traps.\<close>

fun free_points :: "nat \<Rightarrow> nat \<Rightarrow> ds_global \<Rightarrow> ds_global cresult" where
  "free_points i 0 d = Inr d"
| "free_points i (Suc n) d =
     cbind (pread d i) (\<lambda>p.
     case p of None \<Rightarrow> free_points (i + 1) n d
     | Some a \<Rightarrow> cbind (oread d p) (\<lambda>_. free_points (i + 1) n (d\<lparr>objs := (objs d)[a := None]\<rparr>)))"

definition ds_destroy :: "ds_global \<Rightarrow> ds_global cresult" where
  "ds_destroy d =
     cbind (free_points 0 (npoints d) d) (\<lambda>d.
     case points d of PNull \<Rightarrow> Inr d | PFreed \<Rightarrow> Inl BadPointer | PArr _ \<Rightarrow> Inr (d\<lparr>points := PFreed\<rparr>))"

section \<open>The table\<close>

text \<open>\<open>strcmp\<close> on two names; only the sign is used.\<close>

fun strcmp :: "u8 list \<Rightarrow> u8 list \<Rightarrow> int" where
  "strcmp [] [] = 0"
| "strcmp [] (y # ys) = -1"
| "strcmp (x # xs) [] = 1"
| "strcmp (x # xs) (y # ys) = (if x = y then strcmp xs ys else int (unat x) - int (unat y))"

text \<open>
  What a pointer given to \<open>ds_cmp\<close> points to: an element of the array, or a \<open>struct ds_point\<close> with
  a name, whose first bytes \<open>ds_cmp\<close> takes for a pointer.
\<close>

datatype cmp_arg = Slot nat | Struct "u8 list"

definition deref :: "ds_global \<Rightarrow> cmp_arg \<Rightarrow> ds_point cresult" where
  "deref d p = (case p of Slot i \<Rightarrow> cbind (pread d i) (oread d) | Struct n \<Rightarrow> Inl BadPointer)"

definition ds_cmp :: "ds_global \<Rightarrow> cmp_arg \<Rightarrow> cmp_arg \<Rightarrow> int cresult" where
  "ds_cmp d p1 p2 = cbind (deref d p1) (\<lambda>a. cbind (deref d p2) (\<lambda>b. Inr (strcmp (pname a) (pname b))))"

definition swap_point :: "nat \<Rightarrow> nat \<Rightarrow> ds_global \<Rightarrow> ds_global cresult" where
  "swap_point i j d =
     cbind (pread d i) (\<lambda>tmp. cbind (pread d j) (\<lambda>q. cbind (pwrite i q d) (\<lambda>d. pwrite j tmp d)))"

fun sift_down :: "nat \<Rightarrow> ds_global \<Rightarrow> (nat \<times> ds_global) cresult" where
  "sift_down 0 d = Inr (0, d)"
| "sift_down (Suc i) d =
     cbind (ds_cmp d (Slot (Suc i)) (Slot i)) (\<lambda>c.
     if c < 0 then cbind (swap_point (Suc i) i d) (\<lambda>d. sift_down i d) else Inr (Suc i, d))"

text \<open>
  The answers of the allocator: whether \<open>realloc\<close> and \<open>malloc\<close> succeed.  A failed \<open>realloc\<close> leaves
  the null pointer in \<open>ds.point\<close>.
\<close>

record answers =
  realloc_ok :: bool
  malloc_ok :: bool

definition grow_table :: "answers \<Rightarrow> ds_global \<Rightarrow> ds_global cresult" where
  "grow_table m d =
     (case points d of
        PFreed \<Rightarrow> Inl BadPointer
      | PNull \<Rightarrow>
          Inr (if realloc_ok m
               then d\<lparr>points := PArr (replicate (DS_EXPAND_BY + capacity d) None), capacity := capacity d + DS_EXPAND_BY\<rparr>
               else d)
      | PArr xs \<Rightarrow>
          Inr (if realloc_ok m
               then d\<lparr>points := PArr (take (DS_EXPAND_BY + capacity d) (xs @ replicate DS_EXPAND_BY None)),
                      capacity := capacity d + DS_EXPAND_BY\<rparr>
               else d\<lparr>points := PNull\<rparr>))"

text \<open>
  \<open>ds_add\<close> from the array on, for a point allocated with \<open>sz\<close> bytes: \<open>strncpy\<close> fills
  \<open>DS_MAXLEN\<close> bytes of the name whatever its length, then come its last byte and the flag.
\<close>

definition place_point :: "nat \<Rightarrow> answers \<Rightarrow> u8 list \<Rightarrow> ds_global \<Rightarrow> (ds_global \<times> nat option) cresult" where
  "place_point sz m point_name d =
     (let i = npoints d;
          d = d\<lparr>npoints := npoints d + 1\<rparr> in
      if \<not> malloc_ok m then cbind (pwrite i None d) (\<lambda>d. Inr (d, None))
      else
        cbind (pwrite i (Some (length (objs d))) d) (\<lambda>d.
        if sz < sizeof_point then Inl OutOfBounds
        else
          cbind (sift_down i (d\<lparr>objs := objs d @ [Some \<lparr>pname = take DS_MAXLEN point_name, is_enabled = False\<rparr>]\<rparr>)) (\<lambda>(i, d).
          cbind (pread d i) (\<lambda>p. Inr (d, p)))))"

definition ds_add_with :: "nat \<Rightarrow> answers \<Rightarrow> u8 list \<Rightarrow> ds_global \<Rightarrow> (ds_global \<times> nat option) cresult" where
  "ds_add_with sz m point_name d =
     (if capacity d \<le> npoints d then
        cbind (grow_table m d) (\<lambda>d. if points d = PNull then Inr (d, None) else place_point sz m point_name d)
      else place_point sz m point_name d)"

text \<open>The code allocates a point with the size of a pointer.\<close>

definition ds_add :: "answers \<Rightarrow> u8 list \<Rightarrow> ds_global \<Rightarrow> (ds_global \<times> nat option) cresult" where
  "ds_add = ds_add_with sizeof_pointer"

text \<open>\<open>bsearch\<close> of the standard library on \<open>u - l\<close> elements, with what the comparison gives.\<close>

function bsearch :: "(nat \<Rightarrow> int cresult) \<Rightarrow> nat \<Rightarrow> nat \<Rightarrow> nat option cresult" where
  "bsearch cmp l u =
     (if l < u then
        (let i = (l + u) div 2 in
         cbind (cmp i) (\<lambda>c. if c < 0 then bsearch cmp l i else if 0 < c then bsearch cmp (i + 1) u else Inr (Some i)))
      else Inr None)"
  by pat_completeness auto
termination by (relation "measure (\<lambda>(cmp, l, u). u - l)") auto

declare bsearch.simps [simp del]

text \<open>\<open>ds_lookup\<close> gives \<open>bsearch\<close> a pointer to the key, not to a pointer to it; it returns the element.\<close>

definition ds_lookup :: "u8 list \<Rightarrow> ds_global \<Rightarrow> nat option cresult" where
  "ds_lookup point_name d = bsearch (\<lambda>i. ds_cmp d (Struct (take DS_MAXLEN point_name)) (Slot i)) 0 (npoints d)"

section \<open>The operations under the mutex\<close>

text \<open>
  The wait loop from its test on: the name waited for and, for \<open>ds_set\<close>, the point whose flag ends
  the wait and is cleared at its end.  \<open>None\<close> means that the caller sleeps.
\<close>

definition on_signal :: "u8 list \<Rightarrow> ds_global \<Rightarrow> bool" where
  "on_signal point_name d \<longleftrightarrow> take (DS_MAXLEN + 1) (signal_name d) = take (DS_MAXLEN + 1) point_name"

definition end_wait :: "nat option \<Rightarrow> int \<Rightarrow> ds_global \<Rightarrow> (ds_global \<times> int option) cresult" where
  "end_wait pt rc d =
     (case pt of None \<Rightarrow> Inr (d, Some rc)
      | Some a \<Rightarrow> cbind (set_enabled a False d) (\<lambda>d. Inr (d, Some rc)))"

definition wait_on :: "u8 list \<Rightarrow> nat option \<Rightarrow> ds_global \<Rightarrow> (ds_global \<times> int option) cresult" where
  "wait_on point_name pt d =
     (if on_signal point_name d then end_wait pt 0 d
      else
        (case pt of None \<Rightarrow> Inr (d, None)
         | Some a \<Rightarrow>
             cbind (oread d pt) (\<lambda>q.
             if \<not> is_enabled q then end_wait pt (-1) d else Inr (d, None))))"

text \<open>
  \<open>ds_set\<close>: the new state, the point (for the wait) and the result.  A point that was found is an
  element of the array taken for a point: its flag lies outside that element.
\<close>

definition ds_set_with ::
  "nat \<Rightarrow> answers \<Rightarrow> u8 list \<Rightarrow> bool \<Rightarrow> ds_global \<Rightarrow> (ds_global \<times> nat option \<times> int option) cresult" where
  "ds_set_with sz m point_name enable d =
     cbind (ds_lookup point_name d) (\<lambda>found.
     case found of Some i \<Rightarrow> Inl BadPointer
     | None \<Rightarrow>
         cbind (ds_add_with sz m point_name d) (\<lambda>(d, pt).
         case pt of None \<Rightarrow> Inr (d, None, Some (-1))
         | Some a \<Rightarrow>
             cbind (set_enabled a enable d) (\<lambda>d.
             if enable then cbind (wait_on point_name pt d) (\<lambda>(d, rc). Inr (d, pt, rc))
             else Inr (d, pt, Some 0))))"

definition ds_set :: "answers \<Rightarrow> u8 list \<Rightarrow> bool \<Rightarrow> ds_global \<Rightarrow> (ds_global \<times> nat option \<times> int option) cresult" where
  "ds_set = ds_set_with sizeof_pointer"

definition ds_wait :: "u8 list \<Rightarrow> ds_global \<Rightarrow> (ds_global \<times> int option) cresult" where
  "ds_wait point_name d = wait_on point_name None d"

definition ds_signal :: "u8 list \<Rightarrow> ds_global \<Rightarrow> ds_global" where
  "ds_signal point_name d = d\<lparr>signal_name := take DS_MAXLEN point_name\<rparr>"

section \<open>Threads\<close>

text \<open>
  A thread is outside (with the last result) or in the wait loop, asleep or woken.  A signal wakes
  one sleeping thread, any of them, when there is one; a thread may wake without a signal.
\<close>

datatype thread = Outside int | Waiting "u8 list" "nat option" bool

datatype label =
    CallSet answers "u8 list" bool
  | CallWait "u8 list"
  | CallSignal "u8 list" "nat option"
  | Spurious
  | Resume

record sys =
  glob :: ds_global
  threads :: "thread list"

fun asleep :: "thread \<Rightarrow> bool" where
  "asleep (Waiting n pt b) = b"
| "asleep (Outside rc) = False"

fun wake :: "thread \<Rightarrow> thread" where
  "wake (Waiting n pt b) = Waiting n pt False"
| "wake (Outside rc) = Outside rc"

definition settle :: "sys \<Rightarrow> nat \<Rightarrow> u8 list \<Rightarrow> nat option \<Rightarrow> ds_global \<times> int option \<Rightarrow> sys" where
  "settle s t n pt r =
     (case r of (d, rc) \<Rightarrow>
      \<lparr>glob = d, threads = (threads s)[t := (case rc of None \<Rightarrow> Waiting n pt True | Some rc \<Rightarrow> Outside rc)]\<rparr>)"

definition is_outside :: "thread \<Rightarrow> bool" where
  "is_outside th = (case th of Outside _ \<Rightarrow> True | _ \<Rightarrow> False)"

text \<open>\<open>pthread_cond_signal\<close>: the thread it wakes, none only when none sleeps.\<close>

definition may_wake :: "nat option \<Rightarrow> thread list \<Rightarrow> bool" where
  "may_wake w ths =
     (case w of None \<Rightarrow> \<not> list_ex asleep ths | Some u \<Rightarrow> u < length ths \<and> asleep (ths ! u))"

definition wake_one :: "nat option \<Rightarrow> thread list \<Rightarrow> thread list" where
  "wake_one w ths = (case w of None \<Rightarrow> ths | Some u \<Rightarrow> ths[u := wake (ths ! u)])"

fun dyn_step :: "nat \<Rightarrow> sys \<Rightarrow> nat \<Rightarrow> label \<Rightarrow> sys cresult option" where
  "dyn_step sz s t (CallSet m n b) =
     (if t < length (threads s) \<and> is_outside (threads s ! t)
      then Some (cbind (ds_set_with sz m n b (glob s)) (\<lambda>(d, pt, rc). Inr (settle s t n pt (d, rc))))
      else None)"
| "dyn_step sz s t (CallWait n) =
     (if t < length (threads s) \<and> is_outside (threads s ! t)
      then Some (cbind (ds_wait n (glob s)) (\<lambda>r. Inr (settle s t n None r)))
      else None)"
| "dyn_step sz s t (CallSignal n w) =
     (if t < length (threads s) \<and> is_outside (threads s ! t) \<and> may_wake w (threads s)
      then Some (Inr \<lparr>glob = ds_signal n (glob s), threads = (wake_one w (threads s))[t := Outside 0]\<rparr>)
      else None)"
| "dyn_step sz s t Spurious =
     (if t < length (threads s) then Some (Inr (s\<lparr>threads := (threads s)[t := wake (threads s ! t)]\<rparr>)) else None)"
| "dyn_step sz s t Resume =
     (if t < length (threads s) then
        (case threads s ! t of
           Waiting n pt False \<Rightarrow> Some (cbind (wait_on n pt (glob s)) (\<lambda>r. Inr (settle s t n pt r)))
         | _ \<Rightarrow> None)
      else None)"

definition sys_init :: "nat \<Rightarrow> sys" where
  "sys_init n = \<lparr>glob = ds_init ds_zero, threads = replicate n (Outside 0)\<rparr>"

inductive reachable :: "nat \<Rightarrow> nat \<Rightarrow> sys \<Rightarrow> bool" for sz n where
  init: "reachable sz n (sys_init n)"
| step: "reachable sz n s \<Longrightarrow> dyn_step sz s t l = Some (Inr s') \<Longrightarrow> reachable sz n s'"

section \<open>The order of the names\<close>

lemma strcmp_less: "strcmp xs ys < 0 \<longleftrightarrow> xs < ys"
  by (induction xs ys rule: strcmp.induct) (auto simp: word_less_alt)

section \<open>The table stays sorted\<close>

definition live :: "ds_global \<Rightarrow> nat option \<Rightarrow> bool" where
  "live d p \<longleftrightarrow> (case p of None \<Rightarrow> False | Some a \<Rightarrow> a < length (objs d) \<and> objs d ! a \<noteq> None)"

definition name_at :: "ds_global \<Rightarrow> nat option \<Rightarrow> u8 list" where
  "name_at d p = pname (the (objs d ! the p))"

text \<open>The pointers of the points in the table, and their names.\<close>

definition entries :: "ds_global \<Rightarrow> nat option list" where
  "entries d = (case points d of PArr xs \<Rightarrow> take (npoints d) xs | _ \<Rightarrow> [])"

definition names :: "ds_global \<Rightarrow> u8 list list" where
  "names d = map (name_at d) (entries d)"

definition wf_table :: "ds_global \<Rightarrow> bool" where
  "wf_table d \<longleftrightarrow>
     (case points d of PFreed \<Rightarrow> False
      | PNull \<Rightarrow> capacity d = 0 \<and> npoints d = 0
      | PArr xs \<Rightarrow> length xs = capacity d \<and> npoints d \<le> capacity d) \<and>
     list_all (live d) (entries d) \<and> distinct (entries d) \<and> sorted (names d)"

lemma oread_live: "live d p \<Longrightarrow> oread d p = Inr (the (objs d ! the p))"
  by (auto simp: live_def oread_def split: option.splits)

lemma live_points [simp]: "live (d\<lparr>points := q\<rparr>) = live d" "name_at (d\<lparr>points := q\<rparr>) = name_at d"
  by (auto simp: live_def name_at_def fun_eq_iff split: option.split)

lemma ds_cmp_slots:
  assumes "points d = PArr xs" and "i < length xs" and "j < length xs" and "live d (xs ! i)" and "live d (xs ! j)"
  shows "ds_cmp d (Slot i) (Slot j) = Inr (strcmp (name_at d (xs ! i)) (name_at d (xs ! j)))"
  using assms by (simp add: ds_cmp_def deref_def pread_def oread_live name_at_def)

lemma swap_adjacent:
  assumes "points d = PArr (ps @ a # b # rest)"
  shows "swap_point (Suc (length ps)) (length ps) d = Inr (d\<lparr>points := PArr (ps @ b # a # rest)\<rparr>)"
  using assms by (simp add: swap_point_def pread_def pwrite_def nth_append list_update_append)

text \<open>The loop at the end of \<open>ds_add\<close> splits the sorted entries before the new one.\<close>

lemma sift_down_splits:
  assumes "points d = PArr (ps @ p # rest)" and "list_all (live d) (p # ps)" and "sorted (map (name_at d) ps)"
  shows "\<exists>us vs. ps = us @ vs \<and> sift_down (length ps) d = Inr (length us, d\<lparr>points := PArr (us @ p # vs @ rest)\<rparr>) \<and>
    (\<forall>u \<in> set us. name_at d u \<le> name_at d p) \<and> (\<forall>v \<in> set vs. name_at d p < name_at d v)"
  using assms
proof (induction ps arbitrary: d rest rule: rev_induct)
  case Nil
  then show ?case
    by simp
next
  case (snoc q ps)
  have cmp: "ds_cmp d (Slot (Suc (length ps))) (Slot (length ps)) = Inr (strcmp (name_at d p) (name_at d q))"
    using snoc.prems ds_cmp_slots [of d "ps @ q # p # rest" "Suc (length ps)" "length ps"] by (simp add: nth_append)
  show ?case
  proof (cases "name_at d p < name_at d q")
    case True
    define d' where "d' = d\<lparr>points := PArr (ps @ p # q # rest)\<rparr>"
    have "swap_point (Suc (length ps)) (length ps) d = Inr d'"
      using snoc.prems(1) by (simp add: swap_adjacent d'_def)
    with True cmp have step: "sift_down (length (ps @ [q])) d = sift_down (length ps) d'"
      by (simp add: strcmp_less)
    have "points d' = PArr (ps @ p # q # rest)" "list_all (live d') (p # ps)" "sorted (map (name_at d') ps)"
      using snoc.prems by (simp_all add: d'_def sorted_append list_all_iff)
    from snoc.IH [OF this] obtain us vs where uv: "ps = us @ vs"
      "sift_down (length ps) d' = Inr (length us, d'\<lparr>points := PArr (us @ p # vs @ q # rest)\<rparr>)"
      "\<forall>u \<in> set us. name_at d' u \<le> name_at d' p" "\<forall>v \<in> set vs. name_at d' p < name_at d' v"
      by blast
    show ?thesis
      using uv True step by (intro exI [of _ us] exI [of _ "vs @ [q]"]) (auto simp: d'_def)
  next
    case False
    then have "sift_down (length (ps @ [q])) d = Inr (length (ps @ [q]), d)"
      using cmp by (simp add: strcmp_less)
    moreover have "name_at d u \<le> name_at d p" if "u \<in> set (ps @ [q])" for u
      using that snoc.prems(3) False by (auto simp: sorted_append intro: order_trans)
    moreover have "d\<lparr>points := PArr ((ps @ [q]) @ p # rest)\<rparr> = d"
      using snoc.prems(1) by simp
    ultimately show ?thesis
      by (intro exI [of _ "ps @ [q]"] exI [of _ "[]"]) simp
  qed
qed

text \<open>Allocating a new point leaves the others as they are.\<close>

lemma live_alloc: "live d p \<Longrightarrow> objs e = objs d @ [x] \<Longrightarrow> live e p \<and> name_at e p = name_at d p"
  by (auto simp: live_def name_at_def nth_append split: option.splits)

lemma live_lt: "live d (Some a) \<Longrightarrow> a < length (objs d)"
  by (simp add: live_def)

text \<open>Where the new entry ends up: behind the names that are not greater, before the greater ones.\<close>

lemma place_point_splits:
  assumes "points d = PArr xs" and "npoints d < length xs" and "wf_table d" and "sizeof_point \<le> sz" and "malloc_ok m"
  defines "a \<equiv> length (objs d)" and "rest \<equiv> drop (Suc (npoints d)) xs"
  obtains us vs d' where "place_point sz m n d = Inr (d', Some a)" and "entries d = us @ vs"
    and "d' = d\<lparr>npoints := npoints d + 1, points := PArr (us @ Some a # vs @ rest),
      objs := objs d @ [Some \<lparr>pname = take DS_MAXLEN n, is_enabled = False\<rparr>]\<rparr>"
    and "\<forall>u \<in> set us. name_at d' u \<le> take DS_MAXLEN n" and "\<forall>v \<in> set vs. take DS_MAXLEN n < name_at d' v"
    and "list_all (live d') (Some a # us @ vs)" and "map (name_at d') (us @ vs) = names d" and "name_at d' (Some a) = take DS_MAXLEN n"
proof -
  define ps where "ps = take (npoints d) xs"
  define e where "e = d\<lparr>npoints := npoints d + 1, points := PArr (ps @ Some a # rest),
    objs := objs d @ [Some \<lparr>pname = take DS_MAXLEN n, is_enabled = False\<rparr>]\<rparr>"
  have len: "length ps = npoints d"
    using assms(2) by (simp add: ps_def)
  have ent: "entries d = ps" and wf: "list_all (live d) ps" "sorted (map (name_at d) ps)"
    using assms(1, 3) by (simp_all add: entries_def ps_def wf_table_def names_def)
  have upd: "xs[npoints d := Some a] = ps @ Some a # rest"
    using assms(2) by (simp add: ps_def rest_def upd_conv_take_nth_drop)
  have old: "live e p" "name_at e p = name_at d p" if "p \<in> set ps" for p
    using that wf(1) live_alloc [of d p e] by (auto simp: e_def list_all_iff)
  have new: "live e (Some a)" "name_at e (Some a) = take DS_MAXLEN n"
    by (simp_all add: live_def name_at_def e_def a_def)
  have maps: "map (name_at e) ps = map (name_at d) ps"
    using old by simp
  from maps wf(2) have sorted: "sorted (map (name_at e) ps)"
    by (simp only:)
  have pe: "points e = PArr (ps @ Some a # rest)"
    by (simp add: e_def)
  have lv: "list_all (live e) (Some a # ps)"
    using old new by (simp add: list_all_iff)
  obtain us vs where uv: "ps = us @ vs"
    "sift_down (length ps) e = Inr (length us, e\<lparr>points := PArr (us @ Some a # vs @ rest)\<rparr>)"
    "\<forall>u \<in> set us. name_at e u \<le> name_at e (Some a)" "\<forall>v \<in> set vs. name_at e (Some a) < name_at e v"
    using sift_down_splits [OF pe lv sorted] by blast
  define d' where "d' = e\<lparr>points := PArr (us @ Some a # vs @ rest)\<rparr>"
  have same: "live d' = live e" "name_at d' = name_at e"
    by (simp_all add: d'_def)
  show thesis
  proof (rule that)
    show "place_point sz m n d = Inr (d', Some a)"
      using assms(1, 2, 4, 5) uv(2) upd
      by (simp add: place_point_def Let_def pwrite_def pread_def len e_def d'_def a_def nth_append)
    show "map (name_at d') (us @ vs) = names d"
      using maps uv(1) by (simp add: same names_def ent)
    show "entries d = us @ vs"
      using ent uv(1) by simp
    show "d' = d\<lparr>npoints := npoints d + 1, points := PArr (us @ Some a # vs @ rest),
        objs := objs d @ [Some \<lparr>pname = take DS_MAXLEN n, is_enabled = False\<rparr>]\<rparr>"
      by (simp add: d'_def e_def)
    show "\<forall>u \<in> set us. name_at d' u \<le> take DS_MAXLEN n" "\<forall>v \<in> set vs. take DS_MAXLEN n < name_at d' v"
      using uv(3,4) by (simp_all add: same new)
    show "list_all (live d') (Some a # us @ vs)" "name_at d' (Some a) = take DS_MAXLEN n"
      using lv new uv(1) by (simp_all add: same)
  qed
qed

lemma place_point_sorted:
  assumes "points d = PArr xs" and "npoints d < length xs" and "length xs = capacity d" and "wf_table d"
    and "sizeof_point \<le> sz" and "malloc_ok m"
  shows "\<exists>d'. place_point sz m n d = Inr (d', Some (length (objs d))) \<and> wf_table d' \<and>
    objs d' = objs d @ [Some \<lparr>pname = take DS_MAXLEN n, is_enabled = False\<rparr>] \<and>
    mset (names d') = add_mset (take DS_MAXLEN n) (mset (names d)) \<and> npoints d' = npoints d + 1"
proof -
  define a where "a = length (objs d)"
  obtain us vs d' where pl: "place_point sz m n d = Inr (d', Some a)" and ed: "entries d = us @ vs"
    and d': "d' = d\<lparr>npoints := npoints d + 1, points := PArr (us @ Some a # vs @ drop (Suc (npoints d)) xs),
      objs := objs d @ [Some \<lparr>pname = take DS_MAXLEN n, is_enabled = False\<rparr>]\<rparr>"
    and le: "\<forall>u \<in> set us. name_at d' u \<le> take DS_MAXLEN n" and gt: "\<forall>v \<in> set vs. take DS_MAXLEN n < name_at d' v"
    and lv: "list_all (live d') (Some a # us @ vs)" and nm: "map (name_at d') (us @ vs) = names d" and na: "name_at d' (Some a) = take DS_MAXLEN n"
    unfolding a_def by (rule place_point_splits [OF assms(1, 2, 4-6)])
  have len: "npoints d = length us + length vs"
    using assms(1, 2) arg_cong [OF ed, of length] by (simp add: entries_def)
  have ents: "entries d' = us @ Some a # vs"
    by (simp add: entries_def d' len)
  have wf: "list_all (live d) (us @ vs)" "distinct (us @ vs)" "sorted (names d)"
    using assms(4) by (simp_all add: wf_table_def ed)
  have "Some a \<notin> set (us @ vs)"
    using wf(1) live_lt by (auto simp: list_all_iff a_def)
  then have "distinct (us @ Some a # vs)"
    using wf(2) by auto
  moreover have "sorted (map (name_at d') (us @ Some a # vs))"
    using wf(3) le gt by (auto simp: nm [symmetric] na sorted_append less_imp_le)
  moreover have "npoints d' = npoints d + 1" "capacity d' = capacity d"
      "points d' = PArr (us @ Some a # vs @ drop (Suc (npoints d)) xs)"
    by (simp_all add: d')
  ultimately have "wf_table d'"
    using lv assms(2, 3) len by (simp add: wf_table_def ents names_def)
  moreover have "mset (names d') = add_mset (take DS_MAXLEN n) (mset (names d))"
    by (simp add: names_def [of d'] ents na nm [symmetric])
  ultimately show ?thesis
    using pl unfolding a_def by (auto simp: d')
qed

lemma entries_grown: "points d = PArr xs \<Longrightarrow> npoints d \<le> length xs \<Longrightarrow> entries (d\<lparr>points := PArr (xs @ ys), capacity := c\<rparr>) = entries d"
  by (simp add: entries_def)

lemma live_capacity [simp]: "live (d\<lparr>capacity := c\<rparr>) = live d" "name_at (d\<lparr>capacity := c\<rparr>) = name_at d"
  by (auto simp: live_def name_at_def fun_eq_iff split: option.split)

text \<open>A table that is full grows by \<open>DS_EXPAND_BY\<close> free places.\<close>

lemma grow_table_room:
  assumes "wf_table d" and "capacity d \<le> npoints d" and "realloc_ok m"
  shows "\<exists>d' xs. grow_table m d = Inr d' \<and> wf_table d' \<and> points d' = PArr xs \<and> length xs = capacity d' \<and>
    npoints d' < length xs \<and> objs d' = objs d \<and> names d' = names d \<and> npoints d' = npoints d"
proof (cases "points d")
  case PNull
  then show ?thesis
    using assms by (simp add: grow_table_def wf_table_def entries_def names_def DS_EXPAND_BY_def)
next
  case PFreed
  then show ?thesis
    using assms by (simp add: wf_table_def)
next
  case (PArr xs)
  define d' where "d' = d\<lparr>points := PArr (xs @ replicate DS_EXPAND_BY None), capacity := capacity d + DS_EXPAND_BY\<rparr>"
  have wf: "length xs = capacity d" "npoints d = capacity d"
    using assms PArr by (auto simp: wf_table_def)
  have "grow_table m d = Inr d'"
    using assms PArr wf by (simp add: grow_table_def d'_def)
  moreover have same: "entries d' = entries d"
    using entries_grown [OF PArr] wf by (simp add: d'_def)
  have at: "live d' = live d" "name_at d' = name_at d"
    by (simp_all add: d'_def)
  then have "names d' = names d"
    by (simp add: names_def same)
  moreover have "wf_table d'"
    using assms(1) wf at same \<open>names d' = names d\<close> by (simp add: wf_table_def d'_def)
  ultimately show ?thesis
    using wf by (simp add: d'_def DS_EXPAND_BY_def)
qed

text \<open>
  What the insertion would do for points of the size of their structure (\<open>ds_add\<close> gives them the
  size of a pointer, see below): the new name, cut to 32 characters, comes to its place.
\<close>

lemma ds_add_with_sorted:
  assumes "wf_table d" and "sizeof_point \<le> sz" and "realloc_ok m" and "malloc_ok m"
  shows "\<exists>d'. ds_add_with sz m n d = Inr (d', Some (length (objs d))) \<and> wf_table d' \<and>
    objs d' = objs d @ [Some \<lparr>pname = take DS_MAXLEN n, is_enabled = False\<rparr>] \<and>
    mset (names d') = add_mset (take DS_MAXLEN n) (mset (names d)) \<and> npoints d' = npoints d + 1"
proof (cases "capacity d \<le> npoints d")
  case True
  obtain d1 xs where "grow_table m d = Inr d1" "wf_table d1" "points d1 = PArr xs" "length xs = capacity d1"
    "npoints d1 < length xs" "objs d1 = objs d" "names d1 = names d" "npoints d1 = npoints d"
    using grow_table_room [OF assms(1) True assms(3)] by blast
  then show ?thesis
    using place_point_sorted [of d1 xs sz m n] assms(2, 4) True by (simp add: ds_add_with_def)
next
  case False
  then obtain xs where "points d = PArr xs" "length xs = capacity d"
    using assms(1) by (auto simp: wf_table_def split: parray.splits)
  then show ?thesis
    using place_point_sorted [of d xs sz m n] assms False by (simp add: ds_add_with_def)
qed

section \<open>Setting a point\<close>

lemma bsearch_first: "l < u \<Longrightarrow> cmp ((l + u) div 2) = Inl e \<Longrightarrow> bsearch cmp l u = Inl e"
  by (subst bsearch.simps) (simp add: Let_def)

lemma ds_lookup_eq: "ds_lookup n d = (if npoints d = 0 then Inr None else Inl BadPointer)"
proof (cases "npoints d = 0")
  case True
  then show ?thesis
    by (simp add: ds_lookup_def bsearch.simps)
next
  case False
  then show ?thesis
    using bsearch_first [of 0 "npoints d"] by (simp add: ds_lookup_def ds_cmp_def deref_def)
qed

lemma ds_add_fails: "ds_add m n d = Inr (d', pt) \<Longrightarrow> pt = None \<and> \<not> (realloc_ok m \<and> malloc_ok m)"
  by (auto simp: ds_add_def ds_add_with_def grow_table_def place_point_def Let_def cres sizeof_pointer_def
      sizeof_point_def DS_MAXLEN_def split: if_splits parray.splits)

lemma ds_set_fails:
  "ds_set m n b d = Inr (d', pt, rc) \<Longrightarrow> npoints d = 0 \<and> rc = Some (-1) \<and> \<not> (realloc_ok m \<and> malloc_ok m)"
  by (auto simp: ds_set_def ds_set_with_def ds_lookup_eq cres simp flip: ds_add_def
      dest!: ds_add_fails split: if_splits option.splits prod.splits)

text \<open>
  The tables the facility can have from \<open>ds_init\<close> on: none, or one with eight places of which
  the first is counted and holds the null pointer of a failed allocation. There is no point.
\<close>

definition barren :: "ds_global \<Rightarrow> bool" where
  "barren d \<longleftrightarrow> objs d = [] \<and>
     (if npoints d = 0 then points d = PNull \<and> capacity d = 0
      else points d = PArr (replicate DS_EXPAND_BY None) \<and> capacity d = DS_EXPAND_BY \<and> npoints d = 1)"

lemma ds_set_barren:
  assumes "barren d"
  shows "ds_set_with sizeof_pointer m n b d =
    (if npoints d \<noteq> 0 then Inl BadPointer
     else if \<not> realloc_ok m then Inr (d, None, Some (-1))
     else if \<not> malloc_ok m
     then Inr (d\<lparr>points := PArr (replicate DS_EXPAND_BY None), capacity := DS_EXPAND_BY, npoints := 1\<rparr>, None, Some (-1))
     else Inl OutOfBounds)"
proof (cases "npoints d = 0")
  case False
  then show ?thesis
    by (simp add: ds_set_with_def ds_lookup_eq)
next
  case True
  have "aset (replicate DS_EXPAND_BY None) (int 0) p = Inr ((replicate DS_EXPAND_BY None)[0 := p])" for p :: "nat option"
    by (simp add: aset_def DS_EXPAND_BY_def)
  moreover have "(replicate DS_EXPAND_BY None)[0 := None] = replicate DS_EXPAND_BY (None :: nat option)"
    by (simp add: DS_EXPAND_BY_def list_update_same_conv)
  ultimately show ?thesis
    using assms True
    by (simp add: barren_def ds_set_with_def ds_lookup_eq ds_add_with_def grow_table_def place_point_def Let_def
        pwrite_def sizeof_pointer_def sizeof_point_def DS_MAXLEN_def)
qed

lemma barren_signal: "barren (ds_signal n d) = barren d"
  by (simp add: barren_def ds_signal_def)

fun pointless :: "thread \<Rightarrow> bool" where
  "pointless (Outside rc) = (rc = 0 \<or> rc = -1)"
| "pointless (Waiting n pt b) = (pt = None)"

lemma pointless_wake [simp]: "pointless th \<Longrightarrow> pointless (wake th)"
  by (cases th) auto

lemma wait_on_pointless: "wait_on n None d = Inr (d, if on_signal n d then Some 0 else None)"
  by (simp add: wait_on_def end_wait_def)

lemma list_all_update: "list_all P xs \<Longrightarrow> P x \<Longrightarrow> list_all P (xs[i := x])"
  by (cases "i < length xs") (auto simp: list_all_length nth_list_update)

lemma barren_step:
  assumes "dyn_step sizeof_pointer s t l = Some (Inr s')" and "barren (glob s)" and "list_all pointless (threads s)"
  shows "barren (glob s') \<and> list_all pointless (threads s')"
proof (cases l)
  case (CallSet m n b)
  with assms show ?thesis
    by (auto simp: ds_set_barren settle_def barren_def intro!: list_all_update split: if_splits)
next
  case (CallWait n)
  with assms show ?thesis
    by (auto simp: ds_wait_def wait_on_pointless settle_def intro!: list_all_update split: if_splits)
next
  case (CallSignal n w)
  with assms show ?thesis
    by (auto simp: barren_signal wake_one_def may_wake_def intro!: list_all_update split: if_splits option.splits)
       (auto simp: list_all_length)
next
  case Spurious
  with assms show ?thesis
    by (auto simp: list_all_length nth_list_update split: if_splits)
next
  case Resume
  then obtain n pt where t: "t < length (threads s)" "threads s ! t = Waiting n pt False"
    using assms(1) by (auto split: if_splits thread.splits bool.splits)
  moreover have "pt = None"
    using assms(3) t by (auto simp: list_all_length dest: spec [of _ t])
  ultimately show ?thesis
    using assms Resume by (auto simp: wait_on_pointless settle_def intro!: list_all_update split: if_splits)
qed

lemma barren_reachable: "reachable sizeof_pointer k s \<Longrightarrow> barren (glob s) \<and> list_all pointless (threads s)"
proof (induction rule: reachable.induct)
  case init
  then show ?case
    by (simp add: sys_init_def ds_init_def ds_zero_def barren_def list_all_length)
next
  case (step s t l s')
  then show ?case
    using barren_step by blast
qed

text \<open>
  C16: with the size of a pointer that \<open>ds_add\<close> allocates for a point, \<open>ds_set\<close> can set none. In every
  state the facility can reach from \<open>ds_init\<close> on, whatever other threads do, there is no point, no thread
  waits on the flag of one, and a call of \<open>ds_set\<close>, for any name and flag, does exactly this: it
  dereferences a wild pointer when the table has an entry (the comparison takes the key for a
  pointer); without memory for the table it returns -1 and changes nothing; without memory for the
  point it returns -1 and leaves a table of eight places that counts a null pointer; and with both
  it writes the name past the end of the new point.
\<close>

theorem ds_set_outcome:
  assumes "reachable sizeof_pointer k s" and "t < length (threads s)" and "is_outside (threads s ! t)"
  shows "objs (glob s) = [] \<and> list_all (\<lambda>th. case th of Waiting n pt b \<Rightarrow> pt = None | Outside rc \<Rightarrow> rc = 0 \<or> rc = -1) (threads s) \<and>
    dyn_step sizeof_pointer s t (CallSet m n b) = Some
      (if npoints (glob s) \<noteq> 0 then Inl BadPointer
       else if \<not> realloc_ok m then Inr (s\<lparr>threads := (threads s)[t := Outside (-1)]\<rparr>)
       else if \<not> malloc_ok m then Inr
         \<lparr>glob = (glob s)\<lparr>points := PArr (replicate DS_EXPAND_BY None), capacity := DS_EXPAND_BY, npoints := 1\<rparr>,
          threads = (threads s)[t := Outside (-1)]\<rparr>
       else Inl OutOfBounds)"
proof -
  have inv: "barren (glob s)" "list_all pointless (threads s)"
    using barren_reachable [OF assms(1)] by simp_all
  have "pointless = (\<lambda>th. case th of Waiting n pt b \<Rightarrow> pt = None | Outside rc \<Rightarrow> rc = 0 \<or> rc = -1)"
    by (rule ext) (simp split: thread.split)
  moreover have "objs (glob s) = []"
    using inv(1) by (simp add: barren_def)
  ultimately show ?thesis
    using assms(2, 3) inv by (simp add: ds_set_barren settle_def)
qed

lemma ds_set_outcome_witness:
  "dyn_step sizeof_pointer (sys_init 2) 1 (CallSet \<lparr>realloc_ok = True, malloc_ok = True\<rparr> [97] True) = Some (Inl OutOfBounds) \<and>
   dyn_step sizeof_pointer (sys_init 2) 1 (CallSet \<lparr>realloc_ok = False, malloc_ok = True\<rparr> [97] True) =
     Some (Inr \<lparr>glob = ds_init ds_zero, threads = [Outside 0, Outside (-1)]\<rparr>)"
  using ds_set_outcome [OF reachable.init, of 1 2 "\<lparr>realloc_ok = True, malloc_ok = True\<rparr>" "[97]" True]
    ds_set_outcome [OF reachable.init, of 1 2 "\<lparr>realloc_ok = False, malloc_ok = True\<rparr>" "[97]" True]
  by (simp add: sys_init_def is_outside_def ds_init_def ds_zero_def numeral_2_eq_2)

text \<open>
  With the size the code allocates, \<open>ds_set\<close> never succeeds: whenever it returns at all the table is
  empty, the allocator has failed and the result is -1.
\<close>

theorem ds_set_never_succeeds:
  assumes "ds_set m n b d = Inr (d', pt, rc)"
  shows "npoints d = 0 \<and> rc = Some (-1) \<and> \<not> (realloc_ok m \<and> malloc_ok m)"
  using assms by (rule ds_set_fails)

lemma ds_set_never_succeeds_witness:
  "npoints ds_zero = 0 \<and> Some (-1 :: int) = Some (-1) \<and> \<not> (realloc_ok \<lparr>realloc_ok = False, malloc_ok = True\<rparr> \<and>
    malloc_ok \<lparr>realloc_ok = False, malloc_ok = True\<rparr>)"
  by (rule ds_set_never_succeeds [of _ "[97]" True ds_zero ds_zero None])
     (simp add: ds_zero_def ds_set_def ds_set_with_def ds_lookup_eq ds_add_with_def grow_table_def)

text \<open>
  A facility that was destroyed and initialised again still counts the places of the old array:
  the next point is stored through the null pointer.
\<close>

lemma reused_table_traps:
  assumes "0 < capacity d"
  shows "ds_add m n (ds_init d) = Inl BadPointer"
  using assms by (simp add: ds_add_def ds_add_with_def place_point_def Let_def ds_init_def pwrite_def)

section \<open>Waiting\<close>

lemma pwrite_signal: "pwrite i p d = Inr d' \<Longrightarrow> signal_name d' = signal_name d"
  by (auto simp: pwrite_def cres split: parray.splits)

lemma swap_signal: "swap_point i j d = Inr d' \<Longrightarrow> signal_name d' = signal_name d"
  unfolding swap_point_def by (auto simp only: cres dest!: pwrite_signal)

lemma frame_signal:
  "grow_table m d = Inr d' \<Longrightarrow> signal_name d' = signal_name d"
  "set_enabled a b d = Inr d' \<Longrightarrow> signal_name d' = signal_name d"
  "end_wait pt rc d = Inr (d', r) \<Longrightarrow> signal_name d' = signal_name d"
  "wait_on n pt d = Inr (d', r) \<Longrightarrow> signal_name d' = signal_name d"
  by (auto simp: grow_table_def set_enabled_def end_wait_def wait_on_def cres
      split: parray.splits if_splits option.splits)

lemma sift_down_signal: "sift_down i d = Inr (j, d') \<Longrightarrow> signal_name d' = signal_name d"
  by (induction i arbitrary: d) (auto simp: cres dest!: swap_signal split: if_splits)

lemma place_point_signal: "place_point sz m n d = Inr (d', p) \<Longrightarrow> signal_name d' = signal_name d"
  by (auto simp: place_point_def Let_def cres dest!: pwrite_signal sift_down_signal split: if_splits)

lemma ds_set_signal: "ds_set_with sz m n b d = Inr (d', pt, rc) \<Longrightarrow> signal_name d' = signal_name d"
  by (auto simp: ds_set_with_def ds_add_with_def cres dest!: frame_signal place_point_signal split: if_splits option.splits)

lemma signal_short_step:
  assumes "dyn_step sz s t l = Some (Inr s')" and "length (signal_name (glob s)) \<le> DS_MAXLEN"
  shows "length (signal_name (glob s')) \<le> DS_MAXLEN"
  using assms
  by (cases l) (auto simp: settle_def ds_signal_def ds_wait_def cres dest!: ds_set_signal frame_signal
      split: if_splits thread.splits bool.splits)

text \<open>The signal fits its buffer in every reachable state.\<close>

lemma signal_short: "reachable sz n s \<Longrightarrow> length (signal_name (glob s)) \<le> DS_MAXLEN"
  by (induction rule: reachable.induct) (auto simp: sys_init_def ds_init_def dest: signal_short_step)

lemma long_name_off: "length (signal_name d) \<le> DS_MAXLEN \<Longrightarrow> DS_MAXLEN < length n \<Longrightarrow> \<not> on_signal n d"
  by (auto simp: on_signal_def dest!: arg_cong [of _ _ length])

lemma wake_one_waiting:
  "t < length ths \<Longrightarrow> ths ! t = Waiting n pt b \<Longrightarrow> \<exists>b'. wake_one w ths ! t = Waiting n pt b'"
  by (cases "w = Some t") (auto simp: wake_one_def split: option.split)

lemma wake_one_length [simp]: "length (wake_one w ths) = length ths"
  by (simp add: wake_one_def split: option.split)

lemma long_name_step:
  assumes "reachable sz k s" and "t < length (threads s)" and "threads s ! t = Waiting n None b" and "DS_MAXLEN < length n"
    and "dyn_step sz s u l = Some (Inr s')"
  shows "t < length (threads s') \<and> (\<exists>b'. threads s' ! t = Waiting n None b')"
proof -
  have off: "\<not> on_signal n (glob s)"
    using signal_short [OF assms(1)] assms(4) by (rule long_name_off)
  then have w: "wait_on n None (glob s) = Inr (glob s, None)"
    by (simp add: wait_on_def)
  show ?thesis
    using assms(2, 3, 5) w
    by (cases l) (auto simp: settle_def is_outside_def nth_list_update wake_one_waiting cres
        split: if_splits thread.splits bool.splits option.splits)
qed

text \<open>
  C28: a thread that waits for a signal with a name longer than 32 characters stays waiting whatever
  step any thread takes: \<open>ds_signal\<close> stores the name cut to 32 characters, and the comparison looks at 33.
\<close>

theorem long_name_waits_forever:
  assumes "reachable sz k s" and "t < length (threads s)" and "threads s ! t = Waiting n None b" and "DS_MAXLEN < length n"
    and "dyn_step sz s u l = Some (Inr s')"
  shows "t < length (threads s') \<and> (\<exists>b'. threads s' ! t = Waiting n None b')"
  using assms by (rule long_name_step)

definition two_waiting :: "u8 list \<Rightarrow> u8 list \<Rightarrow> sys" where
  "two_waiting a b = \<lparr>glob = ds_zero, threads = [Waiting a None True, Waiting b None True, Outside 0]\<rparr>"

lemma two_waiting_reachable:
  assumes "a \<noteq> []" and "b \<noteq> []"
  shows "reachable sz 3 (two_waiting a b)"
proof -
  have e: "signal_name ds_zero = []" "ds_init ds_zero = ds_zero"
    by (simp_all add: ds_zero_def ds_init_def)
  have w: "ds_wait n ds_zero = Inr (ds_zero, None)" if "n \<noteq> []" for n
    using that by (simp add: ds_wait_def wait_on_def on_signal_def e)
  define s1 where "s1 = \<lparr>glob = ds_zero, threads = [Waiting a None True, Outside 0, Outside 0]\<rparr>"
  have "dyn_step sz (sys_init 3) 0 (CallWait a) = Some (Inr s1)"
    using w [OF assms(1)] by (simp add: sys_init_def e settle_def is_outside_def s1_def numeral_3_eq_3)
  then have "reachable sz 3 s1"
    by (rule reachable.step [OF reachable.init])
  moreover have "dyn_step sz s1 1 (CallWait b) = Some (Inr (two_waiting a b))"
    using w [OF assms(2)] by (simp add: s1_def settle_def is_outside_def two_waiting_def)
  ultimately show ?thesis
    by (rule reachable.step)
qed

lemma long_name_waits_forever_witness:
  "0 < length (threads (two_waiting (replicate 33 97) [98])) \<and>
    (\<exists>b'. threads (two_waiting (replicate 33 97) [98]) ! 0 = Waiting (replicate 33 97) None b')"
proof (rule long_name_waits_forever)
  show "reachable 8 3 (two_waiting (replicate 33 97) [98])"
    by (rule two_waiting_reachable) simp_all
  show "dyn_step 8 (two_waiting (replicate 33 97) [98]) 2 Spurious = Some (Inr (two_waiting (replicate 33 97) [98]))"
    by (simp add: two_waiting_def numeral_2_eq_2)
qed (simp_all add: two_waiting_def DS_MAXLEN_def)

text \<open>
  A signal may miss the thread that waits for it: when the signal wakes a thread that waits
  for another name, that thread goes back to sleep, and so does the one the signal was for.
\<close>

theorem signal_is_lost:
  assumes "t < length (threads s)" and "threads s ! t = Waiting a None True"
    and "u < length (threads s)" and "threads s ! u = Waiting b None True" and "t \<noteq> u"
    and "v < length (threads s)" and "threads s ! v = Outside rc"
    and "length a \<le> DS_MAXLEN" and "take (DS_MAXLEN + 1) b \<noteq> a"
  shows "\<exists>s1 s2. dyn_step sz s v (CallSignal a (Some u)) = Some (Inr s1) \<and> dyn_step sz s1 u Resume = Some (Inr s2) \<and>
    signal_name (glob s2) = a \<and> threads s2 ! t = Waiting a None True \<and> threads s2 ! u = Waiting b None True"
proof -
  have ne: "v \<noteq> t" "v \<noteq> u"
    using assms by auto
  define s1 where "s1 = \<lparr>glob = ds_signal a (glob s), threads = (threads s)[u := Waiting b None False, v := Outside 0]\<rparr>"
  have sig: "signal_name (ds_signal a (glob s)) = a"
    using assms(8) by (simp add: ds_signal_def)
  have "dyn_step sz s v (CallSignal a (Some u)) = Some (Inr s1)"
    using assms by (simp add: is_outside_def may_wake_def wake_one_def s1_def)
  moreover have "wait_on b None (glob s1) = Inr (glob s1, None)"
    using assms(8, 9) sig by (simp add: wait_on_def on_signal_def s1_def)
  then have "dyn_step sz s1 u Resume =
      Some (Inr \<lparr>glob = glob s1, threads = (threads s)[u := Waiting b None True, v := Outside 0]\<rparr>)"
    using assms ne by (simp add: s1_def settle_def list_update_swap)
  ultimately show ?thesis
    using assms ne sig by (simp add: s1_def)
qed

lemma signal_is_lost_witness:
  "\<exists>s1 s2. dyn_step 8 (two_waiting [97] [98]) 2 (CallSignal [97] (Some 1)) = Some (Inr s1) \<and> dyn_step 8 s1 1 Resume = Some (Inr s2) \<and>
    signal_name (glob s2) = [97] \<and> threads s2 ! 0 = Waiting [97] None True \<and> threads s2 ! 1 = Waiting [98] None True"
  by (rule signal_is_lost) (simp_all add: two_waiting_def DS_MAXLEN_def numeral_2_eq_2)

end
