(* ===== verification/XvdatTest.thy ===== *)
theory XvdatTest
  imports Xvdat
begin

text \<open>
  \<open>fdwatch/test_xvdat.c\<close>: the unit test of the growing array and the slot list.  The test keeps records
  with a name and an index in the block the list manages; every store into it and every read of a
  name by the dumps is modelled, the text of the messages is not.  The tests pass for every size
  when the allocator succeeds.
\<close>

section \<open>Records in the block\<close>

text \<open>\<open>struct rec\<close>: ten bytes of name, padding, eight bytes of index.\<close>

definition NAME_SZ :: nat where "NAME_SZ = 10"
definition INDEX_AT :: nat where "INDEX_AT = 16"
definition REC_SZ :: nat where "REC_SZ = 24"
definition GROW :: nat where "GROW = 10"

text \<open>The list the test declares, cleared with \<open>memset\<close>; the array test uses its first fields.\<close>

definition xv_zero :: xvlst where
  "xv_zero = \<lparr>data = None, xlen = 0, max_len = 0, taken = None, last_ix = 0, avail = 0\<rparr>"

definition store_at :: "nat \<Rightarrow> u8 list \<Rightarrow> xvlst \<Rightarrow> xvlst cresult" where
  "store_at off xs l =
     (case data l of None \<Rightarrow> Inl BadPointer
      | Some b \<Rightarrow>
          if off + length xs \<le> length b
          then Inr (l\<lparr>data := Some (take off b @ xs @ drop (off + length xs) b)\<rparr>)
          else Inl OutOfBounds)"

fun decimal :: "nat \<Rightarrow> u8 list" where
  "decimal n = (if n < 10 then [of_nat (48 + n)] else decimal (n div 10) @ [of_nat (48 + n mod 10)])"

declare decimal.simps [simp del]

text \<open>\<open>snprintf\<close> of a prefix and a number into the name, limited to one byte less than its size.\<close>

definition name_text :: "u8 list \<Rightarrow> nat \<Rightarrow> u8 list" where
  "name_text prefix n = take (NAME_SZ - 2) (prefix @ decimal n) @ [0]"

definition index_bytes :: "nat \<Rightarrow> u8 list" where
  "index_bytes n = map (\<lambda>k. of_nat (n div 256 ^ k)) [0..<8]"

definition put_rec :: "nat \<Rightarrow> u8 list \<Rightarrow> nat \<Rightarrow> nat \<Rightarrow> xvlst \<Rightarrow> xvlst cresult" where
  "put_rec j prefix n ix l =
     cbind (store_at (j * REC_SZ) (name_text prefix n) l) (store_at (j * REC_SZ + INDEX_AT) (index_bytes ix))"

text \<open>\<open>strncpy\<close> of a literal: it pads to the limit, the last byte of the name is left.\<close>

definition put_name :: "nat \<Rightarrow> u8 list \<Rightarrow> xvlst \<Rightarrow> xvlst cresult" where
  "put_name j s l =
     store_at (j * REC_SZ) (take (NAME_SZ - 1) (s @ replicate (NAME_SZ - 1) 0)) l"

section \<open>Dumps\<close>

text \<open>What the dumps read: the flags up to the last slot, and the names, up to their NUL.\<close>

fun check_flags :: "nat list \<Rightarrow> xvlst \<Rightarrow> unit cresult" where
  "check_flags [] l = Inr ()"
| "check_flags (i # is) l = cbind (pget (taken l) (int i)) (\<lambda>_. check_flags is l)"

definition dump_xvl :: "xvlst \<Rightarrow> unit cresult" where
  "dump_xvl l =
     cbind (cassert (data l \<noteq> None)) (\<lambda>_.
     case taken l of None \<Rightarrow> Inr () | Some _ \<Rightarrow> check_flags [0..<last_ix l + 1] l)"

definition read_rec :: "nat \<Rightarrow> xvlst \<Rightarrow> unit cresult" where
  "read_rec i l =
     (case data l of None \<Rightarrow> Inl BadPointer
      | Some b \<Rightarrow>
          cbind (cstrlen (drop (i * REC_SZ) b)) (\<lambda>_.
          if (i + 1) * REC_SZ \<le> length b then Inr () else Inl OutOfBounds))"

fun dump_recs :: "nat list \<Rightarrow> xvlst \<Rightarrow> unit cresult" where
  "dump_recs [] l = Inr ()"
| "dump_recs (i # is) l =
     cbind (case taken l of None \<Rightarrow> Inr 1 | Some _ \<Rightarrow> pget (taken l) (int i)) (\<lambda>c.
     if c = 0 then dump_recs is l else cbind (read_rec i l) (\<lambda>_. dump_recs is l))"

definition dump_xvrec :: "xvlst \<Rightarrow> unit cresult" where
  "dump_xvrec l =
     (case data l of None \<Rightarrow> Inr ()
      | Some _ \<Rightarrow> dump_recs [0..<(case taken l of None \<Rightarrow> xlen l | Some _ \<Rightarrow> last_ix l + 1)] l)"

definition dump :: "bool \<Rightarrow> xvlst \<Rightarrow> unit cresult" where
  "dump fl l = cbind (dump_xvl l) (\<lambda>_. if fl then dump_xvrec l else Inr ())"

section \<open>The tests\<close>

text \<open>A \<open>for\<close> loop whose body may break with a return code.\<close>

fun for_rc :: "nat list \<Rightarrow> (nat \<Rightarrow> 's \<Rightarrow> ('s \<times> int) cresult) \<Rightarrow> 's \<Rightarrow> ('s \<times> int) cresult" where
  "for_rc [] f s = Inr (s, 0)"
| "for_rc (i # is) f s = cbind (f i s) (\<lambda>(s, rc). if rc \<noteq> 0 then Inr (s, rc) else for_rc is f s)"

text \<open>Whether \<open>realloc\<close> succeeds on the data and on the flags, and what fresh memory holds.\<close>

record memory =
  data_ok :: "nat \<Rightarrow> bool"
  flags_ok :: "nat \<Rightarrow> bool"
  fresh :: u8

definition vec_fill :: "memory \<Rightarrow> nat \<Rightarrow> xvlst \<Rightarrow> (xvlst \<times> int) cresult" where
  "vec_fill m i l =
     cbind (xvec_expand (data_ok m) (fresh m) l 1 REC_SZ GROW) (\<lambda>(l, rc).
     if rc \<noteq> 0 then Inr (l, rc)
     else cbind (put_rec i [78] (i + 1) i l) (\<lambda>l. Inr (l\<lparr>xlen := size_add (xlen l) 1\<rparr>, 0)))"

definition vec_extend :: "memory \<Rightarrow> nat \<Rightarrow> xvlst \<Rightarrow> (xvlst \<times> int) cresult" where
  "vec_extend m i l =
     cbind (xvec_expand (data_ok m) (fresh m) l 2 REC_SZ GROW) (\<lambda>(l, rc).
     if rc \<noteq> 0 then Inr (l, rc)
     else
       cbind (put_rec i [70] (i + 1) (i * 2) l) (\<lambda>l.
       cbind (put_rec (i + 1) [83] (i + 1) (i * 2 + 1) l) (\<lambda>l.
       Inr (l\<lparr>xlen := size_add (xlen l) 2\<rparr>, 0))))"

definition test_xvec :: "memory \<Rightarrow> nat \<Rightarrow> int cresult" where
  "test_xvec m cap =
     cbind (xvec_reserve (data_ok m) (fresh m) xv_zero (cap div 2) REC_SZ GROW) (\<lambda>(l, rc).
     if rc \<noteq> 0 then Inr rc
     else
       cbind (dump False l) (\<lambda>_.
       cbind (cassert (xlen l = 0 \<and> cap div 2 \<le> max_len l)) (\<lambda>_.
       cbind (for_rc [0..<cap div 2] (vec_fill m) l) (\<lambda>(l, rc).
       if rc \<noteq> 0 then Inr rc
       else
         cbind (dump True l) (\<lambda>_.
         cbind (for_rc (map (\<lambda>k. xlen l + 2 * k) [0..<(cap * 2 + 1 - xlen l) div 2]) (vec_extend m) l) (\<lambda>(l, rc).
         cbind (dump True l) (\<lambda>_. Inr rc)))))))"

definition add_slot :: "memory \<Rightarrow> xvlst \<Rightarrow> (xvlst \<times> int) cresult" where
  "add_slot m l = xvlst_add (data_ok m) (flags_ok m) (fresh m) l REC_SZ GROW"

definition lst_fill :: "memory \<Rightarrow> nat \<Rightarrow> xvlst \<Rightarrow> (xvlst \<times> int) cresult" where
  "lst_fill m i l =
     cbind (add_slot m l) (\<lambda>(l, j).
     if j < 0 then Inr (l, -1)
     else if j \<noteq> int i then Inr (l, -1)
     else cbind (put_rec (nat j) [78, 78] (nat j) (nat j) l) (\<lambda>l. cbind (dump False l) (\<lambda>_. Inr (l, 0))))"

definition lst_more :: "memory \<Rightarrow> nat \<Rightarrow> xvlst \<Rightarrow> (xvlst \<times> int) cresult" where
  "lst_more m i l =
     cbind (add_slot m l) (\<lambda>(l, j).
     if j < 0 then Inr (l, -1)
     else cbind (put_rec (nat j) [68, 68] (nat j) (nat j) l) (\<lambda>l. cbind (dump False l) (\<lambda>_. Inr (l, 0))))"

definition lst_del :: "nat \<Rightarrow> xvlst \<Rightarrow> (xvlst \<times> int) cresult" where
  "lst_del i l = xvlst_del l i"

text \<open>The last additions: the slot that must come back; a failing addition ends the test with \<open>rc\<close> 0.\<close>

definition readd :: "memory \<Rightarrow> int \<Rightarrow> xvlst \<Rightarrow> (xvlst \<times> bool) cresult" where
  "readd m expected l =
     cbind (add_slot m l) (\<lambda>(l, j).
     if j < 0 then Inr (l, False)
     else
       cbind (cassert (j = expected)) (\<lambda>_.
       cbind (store_at (nat j * REC_SZ) (name_text [81, 81] (nat j)) l) (\<lambda>l. Inr (l, True))))"

text \<open>\<open>test_xvlst\<close> from the check of the number of elements on.\<close>

definition lst_second_half :: "memory \<Rightarrow> xvlst \<Rightarrow> int cresult" where
  "lst_second_half m l =
     (if xlen l < 8 then Inr 0
      else
        cbind (for_rc [0..<3] lst_del l) (\<lambda>(l, rc).
        if rc \<noteq> 0 then Inr rc
        else cbind (dump False l) (\<lambda>_.
        cbind (for_rc [7, 6, 5] lst_del l) (\<lambda>(l, rc).
        if rc \<noteq> 0 then Inr rc
        else cbind (dump False l) (\<lambda>_.
        cbind (for_rc [0..<10] (lst_more m) l) (\<lambda>(l, rc).
        if rc \<noteq> 0 then Inr rc
        else cbind (dump True l) (\<lambda>_.
        let lj = to_ssize (size_sub (xlen l) 1) in
        cbind (xvlst_del l 2) (\<lambda>(l, rc).
        if rc \<noteq> 0 then Inr (-1)
        else cbind (xvlst_del l (to_size lj)) (\<lambda>(l, rc).
        if rc \<noteq> 0 then Inr (-1)
        else cbind (dump False l) (\<lambda>_.
        cbind (readd m 2 l) (\<lambda>(l, more).
        if \<not> more then Inr 0
        else cbind (dump False l) (\<lambda>_.
        cbind (readd m lj l) (\<lambda>(l, more).
        if \<not> more then Inr 0
        else cbind (dump True l) (\<lambda>_. Inr 0))))))))))))))"

definition test_xvlst :: "memory \<Rightarrow> nat \<Rightarrow> int cresult" where
  "test_xvlst m cap =
     cbind (xvlst_reserve (data_ok m) (flags_ok m) (fresh m) xv_zero (cap div 2) REC_SZ GROW) (\<lambda>(l, rc).
     if rc \<noteq> 0 then Inr rc
     else
       cbind (dump False l) (\<lambda>_.
       cbind (cassert (xlen l = 0 \<and> cap div 2 \<le> max_len l)) (\<lambda>_.
       cbind (for_rc [0..<cap] (lst_fill m) l) (\<lambda>(l, rc).
       if rc \<noteq> 0 then Inr rc
       else cbind (dump True l) (\<lambda>_.
       cbind (xvlst_del l 3) (\<lambda>(l, rc).
       if rc \<noteq> 0 then Inr rc
       else cbind (dump True l) (\<lambda>_.
       cbind (xvlst_del l 3) (\<lambda>(l, rc).
       cbind (cassert (rc = EALREADY)) (\<lambda>_.
       cbind (xvlst_del l (size_add (last_ix l) 1)) (\<lambda>(l, rc).
       cbind (cassert (rc = ERANGE)) (\<lambda>_.
       cbind (add_slot m l) (\<lambda>(l, j).
       cbind (cassert (j = 3)) (\<lambda>_.
       cbind (put_name 3 [116, 104, 105, 114, 100] l) (\<lambda>l.
       cbind (dump True l) (\<lambda>_.
       lst_second_half m l)))))))))))))))"

text \<open>\<open>main\<close>: the mode (an unknown one is reported, with the exit code 0) and the size.\<close>

datatype mode = ModeVec | ModeLst | ModeOther

definition MIN_VSIZE :: int where "MIN_VSIZE = 4"

definition xvdat_main :: "memory \<Rightarrow> nat \<Rightarrow> mode \<Rightarrow> int \<Rightarrow> int cresult" where
  "xvdat_main m argc mode vsize =
     (if argc < 3 then Inr 1
      else if vsize \<le> MIN_VSIZE then Inr 1
      else
        (case mode of
           ModeVec \<Rightarrow> test_xvec m (nat vsize)
         | ModeLst \<Rightarrow> test_xvlst m (nat vsize)
         | ModeOther \<Rightarrow> Inr 0))"

section \<open>Stores and dumps stay in the block\<close>

definition splice :: "nat \<Rightarrow> u8 list \<Rightarrow> u8 list \<Rightarrow> u8 list" where
  "splice off xs b = take off b @ xs @ drop (off + length xs) b"

lemma store_at_in:
  "data l = Some b \<Longrightarrow> off + length xs \<le> length b \<Longrightarrow> store_at off xs l = Inr (l\<lparr>data := Some (splice off xs b)\<rparr>)"
  by (simp add: store_at_def splice_def)

lemma splice_length [simp]: "off + length xs \<le> length b \<Longrightarrow> length (splice off xs b) = length b"
  by (simp add: splice_def)

lemma splice_other:
  assumes "off + length xs \<le> length b" and "k + n \<le> off \<or> off + length xs \<le> k"
  shows "take n (drop k (splice off xs b)) = take n (drop k b)"
  using assms by (intro nth_equalityI) (auto simp: splice_def nth_append)

lemma splice_at: "off + length xs \<le> length b \<Longrightarrow> take (length xs) (drop off (splice off xs b)) = xs"
  by (simp add: splice_def)

lemma name_text_facts: "0 \<in> set (name_text p n)" "length (name_text p n) < NAME_SZ"
  by (simp_all add: name_text_def NAME_SZ_def)

text \<open>The name of record \<open>i\<close> ends within its ten bytes.\<close>

definition named :: "'z xvec_scheme \<Rightarrow> nat \<Rightarrow> bool" where
  "named l i \<longleftrightarrow> 0 \<in> set (take NAME_SZ (drop (i * REC_SZ) (bytes l)))"

lemma named_extends: "named l i \<Longrightarrow> extends junk l' l \<Longrightarrow> named l' i"
  by (auto simp: named_def extends_def)

lemma bytes_Some [simp]: "bytes (l\<lparr>data := Some b\<rparr>) = b"
  by (simp add: bytes_def)

lemma store_name:
  assumes "data l = Some b" and "(i + 1) * REC_SZ \<le> length b" and "0 \<in> set xs" and "length xs < NAME_SZ"
  shows "\<exists>b'. store_at (i * REC_SZ) xs l = Inr (l\<lparr>data := Some b'\<rparr>) \<and> length b' = length b \<and>
    named (l\<lparr>data := Some b'\<rparr>) i \<and> (\<forall>j. j \<noteq> i \<longrightarrow> named l j \<longrightarrow> named (l\<lparr>data := Some b'\<rparr>) j)"
proof -
  define b' where "b' = splice (i * REC_SZ) xs b"
  have fit: "i * REC_SZ + length xs \<le> length b"
    using assms(2, 4) by (simp add: NAME_SZ_def REC_SZ_def)
  have "take (length xs) (take NAME_SZ (drop (i * REC_SZ) b')) = xs"
    using splice_at [OF fit] assms(4) by (simp add: b'_def min_def)
  then have "0 \<in> set (take NAME_SZ (drop (i * REC_SZ) b'))"
    using assms(3) by (metis in_set_takeD)
  moreover have "take NAME_SZ (drop (j * REC_SZ) b') = take NAME_SZ (drop (j * REC_SZ) b)" if "j \<noteq> i" for j
    unfolding b'_def by (rule splice_other [OF fit])
      (use that assms(4) in \<open>simp add: REC_SZ_def NAME_SZ_def; arith\<close>)
  moreover have "length b' = length b" "store_at (i * REC_SZ) xs l = Inr (l\<lparr>data := Some b'\<rparr>)"
    using fit store_at_in [OF assms(1) fit] by (simp_all add: b'_def)
  ultimately show ?thesis
    using assms(1) by (intro exI [of _ b']) (simp add: named_def bytes_def)
qed

lemma put_rec_named:
  assumes "data l = Some b" and "(i + 1) * REC_SZ \<le> length b"
  shows "\<exists>b'. put_rec i p n x l = Inr (l\<lparr>data := Some b'\<rparr>) \<and> length b' = length b \<and>
    named (l\<lparr>data := Some b'\<rparr>) i \<and> (\<forall>j. j \<noteq> i \<longrightarrow> named l j \<longrightarrow> named (l\<lparr>data := Some b'\<rparr>) j)"
proof -
  obtain b1 where b1: "store_at (i * REC_SZ) (name_text p n) l = Inr (l\<lparr>data := Some b1\<rparr>)" "length b1 = length b"
    "named (l\<lparr>data := Some b1\<rparr>) i" "\<forall>j. j \<noteq> i \<longrightarrow> named l j \<longrightarrow> named (l\<lparr>data := Some b1\<rparr>) j"
    using store_name [OF assms name_text_facts] by blast
  define b2 where "b2 = splice (i * REC_SZ + INDEX_AT) (index_bytes x) b1"
  have fit: "i * REC_SZ + INDEX_AT + length (index_bytes x) \<le> length b1"
    using assms(2) b1(2) by (simp add: REC_SZ_def INDEX_AT_def index_bytes_def)
  have "take NAME_SZ (drop (j * REC_SZ) b2) = take NAME_SZ (drop (j * REC_SZ) b1)" for j
    unfolding b2_def by (rule splice_other [OF fit])
      (simp add: REC_SZ_def NAME_SZ_def INDEX_AT_def index_bytes_def; arith)
  moreover have "store_at (i * REC_SZ + INDEX_AT) (index_bytes x) (l\<lparr>data := Some b1\<rparr>) = Inr (l\<lparr>data := Some b2\<rparr>)"
    using store_at_in [of "l\<lparr>data := Some b1\<rparr>" b1, OF _ fit] by (simp add: b2_def)
  moreover have "length b2 = length b"
    using fit b1(2) by (simp add: b2_def)
  ultimately show ?thesis
    using b1 by (intro exI [of _ b2]) (simp add: put_rec_def named_def)
qed

lemma read_named:
  assumes "data l = Some b" and "(i + 1) * REC_SZ \<le> length b" and "named l i"
  shows "read_rec i l = Inr ()"
proof -
  have "0 \<in> set (drop (i * REC_SZ) b)"
    using assms(1, 3) by (auto simp: named_def bytes_def dest: in_set_takeD)
  then show ?thesis
    using assms(1, 2) by (simp add: read_rec_def cstrlen_def)
qed

lemma check_flags_in: "taken l = Some t \<Longrightarrow> \<forall>i\<in>set is. i < length t \<Longrightarrow> check_flags is l = Inr ()"
  by (induction "is") (simp_all add: pget_def)

lemma dump_recs_in:
  assumes "\<forall>i\<in>set is. \<exists>c. (case taken l of None \<Rightarrow> Inr 1 | Some _ \<Rightarrow> pget (taken l) (int i)) = Inr c \<and>
      (c \<noteq> 0 \<longrightarrow> read_rec i l = Inr ())"
  shows "dump_recs is l = Inr ()"
  using assms by (induction "is") auto

section \<open>The slot list under test\<close>

text \<open>
  The slots in use are \<open>U\<close>, each with a name, and \<open>h\<close> is the highest one ever used; \<open>U0\<close> are
  the slots whose name is known to be there, all of \<open>U\<close> or all but a new one.
\<close>

definition holds_slots :: "nat set \<Rightarrow> nat set \<Rightarrow> nat \<Rightarrow> xvlst \<Rightarrow> bool" where
  "holds_slots U0 U h l \<longleftrightarrow> slots_ok REC_SZ l \<and> used_slots l = U \<and> last_ix l = h \<and> (\<forall>i\<in>U0. named l i)"

abbreviation tracks :: "nat set \<Rightarrow> nat \<Rightarrow> xvlst \<Rightarrow> bool" where
  "tracks U h l \<equiv> holds_slots U U h l"

lemma slots_okE:
  assumes "slots_ok REC_SZ l"
  obtains b where "data l = Some b" and "length b = max_len l * REC_SZ" and "taken l = Some (flags l)"
    and "length (flags l) = max_len l" and "last_ix l < max_len l"
proof -
  have ok: "xvlst_ok REC_SZ l" "0 < max_len l"
    using assms by (simp_all add: slots_ok_def)
  then obtain b where "data l = Some b" "length b = max_len l * REC_SZ"
    by (cases "data l") (simp_all add: xvlst_ok_def)
  then show thesis
    using that xvlst_okD(1, 6, 7) [OF ok(1)] ok(2) by blast
qed

lemma slots_ok_data:
  "slots_ok REC_SZ l \<Longrightarrow> data l = Some b \<Longrightarrow> length b' = length b \<Longrightarrow> slots_ok REC_SZ (l\<lparr>data := Some b'\<rparr>)"
  by (simp add: slots_ok_def xvlst_ok_def flags_def used_slots_def)

lemma used_data [simp]: "used_slots (l\<lparr>data := d\<rparr>) = used_slots l"
  by (simp add: used_slots_def flags_def)

lemma used_below: "slots_ok REC_SZ l \<Longrightarrow> i \<in> used_slots l \<Longrightarrow> i < max_len l"
  by (auto simp: used_slots_def elim: slots_okE)

text \<open>Storing a name into the slot just taken, with \<open>put_rec\<close> or as a string.\<close>

lemma fill_slot:
  assumes "holds_slots U (insert i U) h l"
    and "\<And>b. data l = Some b \<Longrightarrow> (i + 1) * REC_SZ \<le> length b \<Longrightarrow>
      \<exists>b'. put l = Inr (l\<lparr>data := Some b'\<rparr>) \<and> length b' = length b \<and>
        named (l\<lparr>data := Some b'\<rparr>) i \<and> (\<forall>j. j \<noteq> i \<longrightarrow> named l j \<longrightarrow> named (l\<lparr>data := Some b'\<rparr>) j)"
  shows "\<exists>l'. put l = Inr l' \<and> tracks (insert i U) h l'"
proof -
  have ok: "slots_ok REC_SZ l" and i: "i \<in> used_slots l"
    using assms(1) by (simp_all add: holds_slots_def)
  obtain b where b: "data l = Some b" "length b = max_len l * REC_SZ"
    using ok by (rule slots_okE)
  have "i + 1 \<le> max_len l"
    using used_below [OF ok i] by simp
  then have "(i + 1) * REC_SZ \<le> length b"
    unfolding b(2) by (rule mult_le_mono1)
  then obtain b' where "put l = Inr (l\<lparr>data := Some b'\<rparr>)" "length b' = length b"
    "named (l\<lparr>data := Some b'\<rparr>) i" "\<forall>j. j \<noteq> i \<longrightarrow> named l j \<longrightarrow> named (l\<lparr>data := Some b'\<rparr>) j"
    using assms(2) [OF b(1)] by blast
  moreover from this have "named (l\<lparr>data := Some b'\<rparr>) j" if "j \<in> insert i U" for j
    using that assms(1) by (cases "j = i") (simp_all add: holds_slots_def)
  ultimately show ?thesis
    using assms(1) slots_ok_data [OF ok b(1)] by (simp add: holds_slots_def)
qed

lemma fill_rec: "holds_slots U (insert i U) h l \<Longrightarrow> \<exists>l'. put_rec i p n x l = Inr l' \<and> tracks (insert i U) h l'"
  by (rule fill_slot) (use put_rec_named in blast)+

lemma fill_name:
  assumes "holds_slots U (insert i U) h l" and "0 \<in> set xs" and "length xs < NAME_SZ"
  shows "\<exists>l'. store_at (i * REC_SZ) xs l = Inr l' \<and> tracks (insert i U) h l'"
  using assms(1) by (rule fill_slot) (use store_name [OF _ _ assms(2, 3)] in blast)+

lemma dump_fine:
  assumes "tracks U h l"
  shows "dump fl l = Inr ()"
proof -
  have ok: "slots_ok REC_SZ l" "used_slots l = U" and names: "\<forall>i\<in>U. named l i"
    using assms by (simp_all add: holds_slots_def)
  obtain b where b: "data l = Some b" "length b = max_len l * REC_SZ" "taken l = Some (flags l)"
    "length (flags l) = max_len l" "last_ix l < max_len l"
    using ok(1) by (rule slots_okE)
  have "dump_xvl l = Inr ()"
    using b check_flags_in [OF b(3), of "[0..<last_ix l + 1]"] by (simp add: dump_xvl_def)
  moreover have "dump_recs [0..<last_ix l + 1] l = Inr ()"
  proof (rule dump_recs_in, rule ballI)
    fix i
    assume "i \<in> set [0..<last_ix l + 1]"
    then have "i \<le> last_ix l"
      by auto
    then have i: "i < max_len l"
      using b(5) by (rule le_less_trans)
    then have "(i + 1) * REC_SZ \<le> length b"
      unfolding b(2) by (intro mult_le_mono1) simp
    moreover have "named l i" if "flags l ! i \<noteq> 0"
      using that names i b(4) by (simp add: used_slots_def flip: ok(2))
    ultimately show "\<exists>c. (case taken l of None \<Rightarrow> Inr 1 | Some _ \<Rightarrow> pget (taken l) (int i)) = Inr c \<and>
        (c \<noteq> 0 \<longrightarrow> read_rec i l = Inr ())"
      using i b read_named [OF b(1), of i] by (simp add: pget_def)
  qed
  ultimately show ?thesis
    using b by (simp add: dump_def dump_xvrec_def)
qed

text \<open>A memory that always gives what is asked for, and a size for which no product wraps.\<close>

definition plenty :: "memory \<Rightarrow> nat \<Rightarrow> bool" where
  "plenty m cap \<longleftrightarrow> (\<forall>k. data_ok m k) \<and> (\<forall>k. flags_ok m k) \<and> grow_ok REC_SZ GROW cap"

lemma plenty_mono: "plenty m a \<Longrightarrow> b \<le> a \<Longrightarrow> plenty m b"
  by (auto simp: plenty_def grow_ok_def REC_SZ_def GROW_def)

lemma add_tracked:
  assumes "tracks U h l" and "plenty m cap" and "card U < cap" and "i \<notin> U" and "\<forall>j<i. j \<in> U"
  shows "\<exists>l'. add_slot m l = Inr (l', int i) \<and> holds_slots U (insert i U) (max h i) l'"
proof -
  have ok: "slots_ok REC_SZ l" "card (used_slots l) < cap" "used_slots l = U" "last_ix l = h"
    using assms(1, 3) by (simp_all add: holds_slots_def)
  define k where "k = first_free (flags l)"
  obtain l' where l': "add_slot m l = Inr (l', int k)" "slots_ok REC_SZ l'" "used_slots l' = insert k U"
    "k \<notin> U" "\<forall>j<k. j \<in> U" "last_ix l' = max h k" "extends (fresh m) l' l"
    using xvlst_add_ok [OF ok(1) _ ok(2), of GROW "data_ok m" "flags_ok m" "fresh m"] assms(2)
    unfolding ok(3, 4) add_slot_def plenty_def k_def by blast
  have "k = i"
    using l'(4, 5) assms(4, 5) by (metis linorder_neqE_nat)
  moreover have "named l' j" if "j \<in> U" for j
    using named_extends [OF _ l'(7)] that assms(1) by (simp add: holds_slots_def)
  ultimately show ?thesis
    using l' assms(1) by (simp add: holds_slots_def)
qed

lemma del_tracked:
  assumes "tracks U h l"
  shows "\<exists>l'. xvlst_del l k = Inr (l', if h < k then ERANGE else if k \<notin> U then EALREADY else 0) \<and> tracks (U - {k}) h l'"
proof -
  obtain l' where l': "xvlst_del l k = Inr (l', if h < k then ERANGE else if k \<notin> U then EALREADY else 0)"
    "slots_ok REC_SZ l'" "last_ix l' = h" "used_slots l' = U - {k}" "data l' = data l"
    using xvlst_del_ok [of REC_SZ l k] assms unfolding holds_slots_def by blast
  moreover have "named l' i = named l i" for i
    using l'(5) by (simp add: named_def bytes_def)
  ultimately show ?thesis
    using assms by (auto simp: holds_slots_def)
qed

lemma tracked_count: "tracks U h l \<Longrightarrow> xlen l = card U \<and> card U < 2 ^ 63 \<and> finite U"
proof -
  assume "tracks U h l"
  then have ok: "xvlst_ok REC_SZ l" "used_slots l = U"
    by (simp_all add: holds_slots_def slots_ok_def)
  show ?thesis
    using card_used_le [of l] xvlst_okD(1-3) [OF ok(1)] finite_used [of l] unfolding ok(2) by simp
qed

lemma for_rc_inv:
  assumes "J 0 s" and "\<And>k s. k < length xs \<Longrightarrow> J k s \<Longrightarrow> \<exists>s'. f (xs ! k) s = Inr (s', 0) \<and> J (Suc k) s'"
  shows "\<exists>s'. for_rc xs f s = Inr (s', 0) \<and> J (length xs) s'"
  using assms
proof (induction xs arbitrary: s J)
  case (Cons x xs)
  obtain s1 where s1: "f x s = Inr (s1, 0)" "J (Suc 0) s1"
    using Cons.prems(2) [of 0 s] Cons.prems(1) by auto
  have "\<exists>s'. f (xs ! k) s = Inr (s', 0) \<and> J (Suc (Suc k)) s'" if "k < length xs" "J (Suc k) s" for k s
    using Cons.prems(2) [of "Suc k" s] that by simp
  then have "\<exists>s'. for_rc xs f s1 = Inr (s', 0) \<and> J (Suc (length xs)) s'"
    using Cons.IH [of "\<lambda>k. J (Suc k)" s1] s1(2) by simp
  with s1(1) show ?case
    by simp
qed simp

section \<open>The slot test passes\<close>

lemma zero_ok: "xvlst_ok REC_SZ xv_zero"
  by (simp add: xvlst_ok_def xv_zero_def flags_def used_slots_def first_free_def)

lemma reserve_start:
  assumes "plenty m cap" and "0 < n" and "n \<le> cap"
  shows "\<exists>l. xvlst_reserve (data_ok m) (flags_ok m) (fresh m) xv_zero n REC_SZ GROW = Inr (l, 0) \<and>
    tracks {} 0 l \<and> xlen l = 0 \<and> n \<le> max_len l"
proof -
  have mem: "\<And>k. data_ok m k" "\<And>k. flags_ok m k" and g: "0 < GROW" "0 < REC_SZ"
    and "n + GROW \<le> cap + GROW" "cap + GROW \<le> 2 ^ 63" "(cap + GROW) * REC_SZ \<le> 2 ^ 64"
    using assms by (simp_all add: plenty_def grow_ok_def)
  then have small: "n + GROW \<le> 2 ^ 63" "(n + GROW) * REC_SZ \<le> 2 ^ 64"
    using mult_le_mono1 [of "n + GROW" "cap + GROW" REC_SZ] by linarith+
  obtain l where l: "xvlst_reserve (data_ok m) (flags_ok m) (fresh m) xv_zero n REC_SZ GROW = Inr (l, 0)"
    "xvlst_ok REC_SZ l" "flags l = flags xv_zero @ replicate (max_len l - max_len xv_zero) 0" "n \<le> max_len l"
    "xlen l = xlen xv_zero" "last_ix l = last_ix xv_zero"
    using xvlst_reserve_ok [where okd = "data_ok m" and okt = "flags_ok m" and junk = "fresh m",
        OF zero_ok g(1) assms(2) small mem g(2)] by blast
  have "used_slots l = used_slots xv_zero"
    using l(3) by (rule used_slots_grow)
  then have "used_slots l = {}"
    by (simp add: used_slots_def xv_zero_def flags_def)
  then show ?thesis
    using l assms(2) by (simp add: holds_slots_def slots_ok_def xv_zero_def)
qed

lemma lst_fill_step:
  assumes "plenty m cap" and "k < cap" and "tracks {..<k} (k - 1) l"
  shows "\<exists>l'. lst_fill m k l = Inr (l', 0) \<and> tracks {..<Suc k} (Suc k - 1) l'"
proof -
  obtain l1 where l1: "add_slot m l = Inr (l1, int k)" "holds_slots {..<k} (insert k {..<k}) (max (k - 1) k) l1"
    using add_tracked [OF assms(3, 1), of k] assms(2) by auto
  obtain l2 where l2: "put_rec k [78, 78] k k l1 = Inr l2" "tracks (insert k {..<k}) (max (k - 1) k) l2"
    using fill_rec [OF l1(2)] by blast
  have "dump False l2 = Inr ()"
    using l2(2) by (rule dump_fine)
  moreover have "insert k {..<k} = {..<Suc k}" "max (k - 1) k = Suc k - 1"
    by (auto simp: lessThan_Suc)
  ultimately show ?thesis
    using l1(1) l2 by (simp add: lst_fill_def)
qed

lemma lst_more_step:
  assumes "plenty m cap" and "tracks U h l" and "card U < cap" and "i \<notin> U" and "\<forall>j<i. j \<in> U"
  shows "\<exists>l'. lst_more m k l = Inr (l', 0) \<and> tracks (insert i U) (max h i) l'"
proof -
  obtain l1 where l1: "add_slot m l = Inr (l1, int i)" "holds_slots U (insert i U) (max h i) l1"
    using add_tracked [OF assms(2, 1, 3-5)] by blast
  obtain l2 where l2: "put_rec i [68, 68] i i l1 = Inr l2" "tracks (insert i U) (max h i) l2"
    using fill_rec [OF l1(2)] by blast
  have "dump False l2 = Inr ()"
    using l2(2) by (rule dump_fine)
  then show ?thesis
    using l1(1) l2 by (simp add: lst_more_def)
qed

lemma readd_step:
  assumes "plenty m cap" and "tracks U h l" and "card U < cap" and "i \<notin> U" and "\<forall>j<i. j \<in> U"
  shows "\<exists>l'. readd m (int i) l = Inr (l', True) \<and> tracks (insert i U) (max h i) l'"
proof -
  obtain l1 where l1: "add_slot m l = Inr (l1, int i)" "holds_slots U (insert i U) (max h i) l1"
    using add_tracked [OF assms(2, 1, 3-5)] by blast
  obtain l2 where "store_at (i * REC_SZ) (name_text [81, 81] i) l1 = Inr l2" "tracks (insert i U) (max h i) l2"
    using fill_name [OF l1(2) name_text_facts] by blast
  then show ?thesis
    using l1(1) by (auto simp: readd_def)
qed

text \<open>The slots the ten additions hand out, in order.\<close>

definition handed_out :: "nat \<Rightarrow> nat list" where
  "handed_out cap = [0, 1, 2, 5, 6, 7, cap, cap + 1, cap + 2, cap + 3]"

definition slots_after :: "nat \<Rightarrow> nat \<Rightarrow> nat set" where
  "slots_after cap k = ({..<cap} - {0, 1, 2, 5, 6, 7}) \<union> set (take k (handed_out cap))"

lemma nat_below_ten: "(k :: nat) < 10 \<Longrightarrow> k \<in> {0, 1, 2, 3, 4, 5, 6, 7, 8, 9}"
  by auto

lemma handed_out_next:
  assumes "8 \<le> cap" and "k < 10"
  shows "handed_out cap ! k \<notin> slots_after cap k \<and> (\<forall>j<handed_out cap ! k. j \<in> slots_after cap k) \<and>
    slots_after cap (Suc k) = insert (handed_out cap ! k) (slots_after cap k)"
proof -
  have "handed_out cap ! k \<notin> slots_after cap k \<and> (\<forall>j<handed_out cap ! k. j \<in> slots_after cap k)"
    using nat_below_ten [OF assms(2)] assms(1)
    by (elim insertE emptyE) (auto simp: slots_after_def handed_out_def numeral_nat)
  moreover have "slots_after cap (Suc k) = insert (handed_out cap ! k) (slots_after cap k)"
  proof -
    have "k < length (handed_out cap)"
      using assms(2) by (simp add: handed_out_def)
    then show ?thesis
      by (simp add: slots_after_def take_Suc_conv_app_nth)
  qed
  ultimately show ?thesis
    by blast
qed

lemma del_used:
  assumes "tracks U h l" and "k \<in> U"
  shows "\<exists>l'. xvlst_del l k = Inr (l', 0) \<and> tracks (U - {k}) h l'"
proof -
  have "\<not> h < k"
    using assms xvlst_okD(5) [of REC_SZ l k] by (auto simp: holds_slots_def slots_ok_def)
  with del_tracked [OF assms(1), of k] assms(2) show ?thesis
    by simp
qed

lemma del_all: "tracks U h l \<Longrightarrow> distinct xs \<Longrightarrow> set xs \<subseteq> U \<Longrightarrow>
  \<exists>l'. for_rc xs lst_del l = Inr (l', 0) \<and> tracks (U - set xs) h l'"
proof (induction xs arbitrary: U l)
  case (Cons x xs)
  obtain l1 where l1: "xvlst_del l x = Inr (l1, 0)" "tracks (U - {x}) h l1"
    using del_used [OF Cons.prems(1), of x] Cons.prems(3) by auto
  have "set xs \<subseteq> U - {x}"
    using Cons.prems(2, 3) by auto
  then obtain l2 where "for_rc xs lst_del l1 = Inr (l2, 0)" "tracks (U - {x} - set xs) h l2"
    using Cons.IH [OF l1(2)] Cons.prems(2) by auto
  moreover have "U - {x} - set xs = U - set (x # xs)"
    by auto
  moreover have "lst_del x l = Inr (l1, 0)"
    using l1(1) by (simp add: lst_del_def)
  ultimately show ?case
    by simp
qed simp

lemma add_ten:
  assumes "plenty m (cap + 5)" and "8 \<le> cap" and "tracks (slots_after cap 0) h l"
  shows "\<exists>l' h'. for_rc [0..<10] (lst_more m) l = Inr (l', 0) \<and> tracks (slots_after cap 10) h' l'"
proof -
  have "\<exists>l'. for_rc [0..<10] (lst_more m) l = Inr (l', 0) \<and> (\<exists>h. tracks (slots_after cap (length [0..<10])) h l')"
  proof (rule for_rc_inv)
    show "\<exists>h. tracks (slots_after cap 0) h l"
      using assms(3) by blast
  next
    fix k l
    assume k: "k < length [0..<10]" and "\<exists>h. tracks (slots_after cap k) h l"
    then obtain h where t: "tracks (slots_after cap k) h l"
      by blast
    have "slots_after cap k \<subseteq> {..<cap + 4}"
      using assms(2) by (auto simp: slots_after_def handed_out_def dest!: in_set_takeD)
    from card_mono [OF finite_lessThan this] have c: "card (slots_after cap k) < cap + 5"
      by simp
    have "k < 10"
      using k by simp
    note next_slot = handed_out_next [OF assms(2) this]
    then obtain l' where "lst_more m k l = Inr (l', 0)" "tracks (slots_after cap (Suc k)) (max h (handed_out cap ! k)) l'"
      using lst_more_step [OF assms(1) t c, of "handed_out cap ! k" k] by auto
    then show "\<exists>l'. lst_more m ([0..<10] ! k) l = Inr (l', 0) \<and> (\<exists>h. tracks (slots_after cap (Suc k)) h l')"
      using k by auto
  qed
  then show ?thesis
    by auto
qed

text \<open>The slots 2 and the last one are given back and handed out again, the lower one first.\<close>

lemma two_slots_again:
  assumes "plenty m (cap + 5)" and "8 \<le> cap" and l3: "tracks {..<cap + 4} h3 l3"
  obtains l4 l5 l6 l7 h5 h6 h7 where "xvlst_del l3 2 = Inr (l4, 0)" and "xvlst_del l4 (cap + 3) = Inr (l5, 0)"
    and "tracks ({..<cap + 4} - {2} - {cap + 3}) h5 l5"
    and "readd m 2 l5 = Inr (l6, True)" and "tracks ({..<cap + 4} - {cap + 3}) h6 l6"
    and "readd m (int (cap + 3)) l6 = Inr (l7, True)"
    and "tracks (insert (cap + 3) ({..<cap + 4} - {cap + 3})) h7 l7"
proof -
  obtain l4 where l4: "xvlst_del l3 2 = Inr (l4, 0)" "tracks ({..<cap + 4} - {2}) h3 l4"
    using del_used [OF l3, of 2] by auto
  obtain l5 where l5: "xvlst_del l4 (cap + 3) = Inr (l5, 0)" "tracks ({..<cap + 4} - {2} - {cap + 3}) h3 l5"
    using del_used [OF l4(2), of "cap + 3"] assms(2) by auto
  have "card ({..<cap + 4} - {2} - {cap + 3}) \<le> card {..<cap + 4}" "card ({..<cap + 4} - {cap + 3}) \<le> card {..<cap + 4}"
    by (intro card_mono; auto)+
  then have c: "card ({..<cap + 4} - {2} - {cap + 3}) < cap + 5" "card ({..<cap + 4} - {cap + 3}) < cap + 5"
    by simp_all
  obtain l6 where l6: "readd m (int 2) l5 = Inr (l6, True)" "tracks (insert 2 ({..<cap + 4} - {2} - {cap + 3})) (max h3 2) l6"
    using readd_step [OF assms(1) l5(2) c(1), of 2] by auto
  have "insert 2 ({..<cap + 4} - {2} - {cap + 3}) = {..<cap + 4} - {cap + 3}"
    using assms(2) by auto
  with l6(2) have t6: "tracks ({..<cap + 4} - {cap + 3}) (max h3 2) l6"
    by simp
  obtain l7 h7 where l7: "readd m (int (cap + 3)) l6 = Inr (l7, True)" "tracks (insert (cap + 3) ({..<cap + 4} - {cap + 3})) h7 l7"
    using readd_step [OF assms(1) t6 c(2), of "cap + 3"] by auto
  show thesis
    by (rule that[OF l4(1) l5 _ t6 l7]) (use l6(1) in simp)
qed

lemma second_half_passes:
  assumes "plenty m (cap + 5)" and "8 \<le> cap" and "tracks {..<cap} h l"
  shows "lst_second_half m l = Inr 0"
proof -
  have len: "\<not> xlen l < 8"
    using tracked_count [OF assms(3)] assms(2) by simp
  obtain l1 where l1: "for_rc [0..<3] lst_del l = Inr (l1, 0)" "tracks ({..<cap} - set [0..<3]) h l1"
  proof -
    have "set [0..<3] \<subseteq> {..<cap}"
      using assms(2) by auto
    then show thesis
      using that del_all [OF assms(3) distinct_upt] by blast
  qed
  obtain l2 where l2: "for_rc [7, 6, 5] lst_del l1 = Inr (l2, 0)" "tracks ({..<cap} - set [0..<3] - set [7, 6, 5]) h l2"
  proof -
    have "set [7, 6, 5] \<subseteq> {..<cap} - set [0..<3]" "distinct [7 :: nat, 6, 5]"
      using assms(2) by auto
    then show thesis
      using that del_all [OF l1(2)] by blast
  qed
  have "{..<cap} - set [0..<3] - set [7, 6, 5] = slots_after cap 0"
    by (auto simp: slots_after_def)
  with l2(2) have t2: "tracks (slots_after cap 0) h l2"
    by simp
  obtain l3 h3 where l3: "for_rc [0..<10] (lst_more m) l2 = Inr (l3, 0)" "tracks (slots_after cap 10) h3 l3"
    using add_ten [OF assms(1, 2) t2] by blast
  have "slots_after cap 10 = {..<cap + 4}"
    using assms(2) by (auto simp: slots_after_def handed_out_def)
  with l3(2) have t3: "tracks {..<cap + 4} h3 l3"
    by simp
  have lj: "to_ssize (size_sub (xlen l3) 1) = int (cap + 3)" "to_size (int (cap + 3)) = cap + 3"
    using tracked_count [OF t3] by (simp_all add: size_sub_small)
  obtain l4 l5 l6 l7 h5 h6 h7 where l4: "xvlst_del l3 2 = Inr (l4, 0)" "xvlst_del l4 (cap + 3) = Inr (l5, 0)"
    and l5: "tracks ({..<cap + 4} - {2} - {cap + 3}) h5 l5"
    and l6: "readd m 2 l5 = Inr (l6, True)" "tracks ({..<cap + 4} - {cap + 3}) h6 l6"
    and l7: "readd m (int (cap + 3)) l6 = Inr (l7, True)" "tracks (insert (cap + 3) ({..<cap + 4} - {cap + 3})) h7 l7"
    by (rule two_slots_again[OF assms(1, 2) t3])
  note dumps = dump_fine [OF l1(2)] dump_fine [OF l2(2)] dump_fine [OF t3] dump_fine [OF l5] dump_fine [OF l6(2)] dump_fine [OF l7(2)]
  note runs = l1(1) l2(1) l3(1) l4 l6(1) l7(1)
  show ?thesis
    unfolding lst_second_half_def
    by (simp only: len runs dumps lj cbind_Inr prod.case Let_def if_False if_True simp_thms)
qed

text \<open>Slot 3 is given back, twice, then one behind the end; the next request gets slot 3 again.\<close>

lemma slot_three_again:
  assumes "plenty m (cap + 5)" and "4 < cap" and l1: "tracks {..<cap} (cap - 1) l1"
  obtains l2 l3 l4 l5 l6 where "xvlst_del l1 3 = Inr (l2, 0)" and "tracks ({..<cap} - {3}) (cap - 1) l2"
    and "xvlst_del l2 3 = Inr (l3, EALREADY)" and "xvlst_del l3 (size_add (last_ix l3) 1) = Inr (l4, ERANGE)"
    and "add_slot m l4 = Inr (l5, 3)" and "put_name 3 [116, 104, 105, 114, 100] l5 = Inr l6"
    and "tracks {..<cap} (max (cap - 1) 3) l6"
proof -
  obtain l2 where l2: "xvlst_del l1 3 = Inr (l2, 0)" "tracks ({..<cap} - {3}) (cap - 1) l2"
    using del_used [OF l1, of 3] assms(2) by auto
  obtain l3 where l3: "xvlst_del l2 3 = Inr (l3, EALREADY)" "tracks ({..<cap} - {3}) (cap - 1) l3"
    using del_tracked [OF l2(2), of 3] assms(2) by auto
  have "size_add (last_ix l3) 1 = cap"
    using l3(2) tracked_count [OF l1] assms(2) by (simp add: holds_slots_def)
  moreover obtain l4 where "xvlst_del l3 cap = Inr (l4, ERANGE)" and t4: "tracks ({..<cap} - {3}) (cap - 1) l4"
    using del_tracked [OF l3(2), of cap] assms(2) by auto
  ultimately have l4: "xvlst_del l3 (size_add (last_ix l3) 1) = Inr (l4, ERANGE)"
    by simp
  have "card ({..<cap} - {3}) \<le> card {..<cap}"
    by (rule card_mono) auto
  then have c: "card ({..<cap} - {3}) < cap + 5"
    by simp
  have "3 \<notin> {..<cap} - {3}" "\<forall>j<3. j \<in> {..<cap} - {3}"
    using assms(2) by auto
  then obtain l5 where l5: "add_slot m l4 = Inr (l5, int 3)"
    "holds_slots ({..<cap} - {3}) (insert 3 ({..<cap} - {3})) (max (cap - 1) 3) l5"
    using add_tracked [OF t4 assms(1) c] by blast
  obtain l6 where l6: "put_name 3 [116, 104, 105, 114, 100] l5 = Inr l6"
    "tracks (insert 3 ({..<cap} - {3})) (max (cap - 1) 3) l6"
    using fill_name [OF l5(2), of "take (NAME_SZ - 1) ([116, 104, 105, 114, 100] @ replicate (NAME_SZ - 1) 0)"]
    by (auto simp: put_name_def NAME_SZ_def numeral_nat)
  have "insert 3 ({..<cap} - {3}) = {..<cap}"
    using assms(2) by auto
  with l6(2) have t6: "tracks {..<cap} (max (cap - 1) 3) l6"
    by simp
  show thesis
    by (rule that[OF l2 l3(1) l4 _ l6(1) t6]) (use l5(1) in simp)
qed

lemma lst_passes:
  assumes "plenty m (cap + 5)" and "4 < cap"
  shows "test_xvlst m cap = Inr 0"
proof -
  obtain l0 where l0: "xvlst_reserve (data_ok m) (flags_ok m) (fresh m) xv_zero (cap div 2) REC_SZ GROW = Inr (l0, 0)"
    "tracks {} 0 l0" "xlen l0 = 0" "cap div 2 \<le> max_len l0"
  proof -
    have "0 < cap div 2" "cap div 2 \<le> cap + 5"
      using assms(2) by linarith+
    then show thesis
      using that reserve_start [OF assms(1)] by blast
  qed
  have "\<exists>l1. for_rc [0..<cap] (lst_fill m) l0 = Inr (l1, 0) \<and> tracks {..<length [0..<cap]} (length [0..<cap] - 1) l1"
  proof (rule for_rc_inv)
    show "tracks {..<0} (0 - 1) l0"
      using l0(2) by simp
  qed (use lst_fill_step [OF assms(1)] in simp)
  then obtain l1 where l1: "for_rc [0..<cap] (lst_fill m) l0 = Inr (l1, 0)" "tracks {..<cap} (cap - 1) l1"
    by auto
  obtain l2 l3 l4 l5 l6 where l2: "xvlst_del l1 3 = Inr (l2, 0)" "tracks ({..<cap} - {3}) (cap - 1) l2"
    and l3: "xvlst_del l2 3 = Inr (l3, EALREADY)" "xvlst_del l3 (size_add (last_ix l3) 1) = Inr (l4, ERANGE)"
    and l5: "add_slot m l4 = Inr (l5, 3)" and l6: "put_name 3 [116, 104, 105, 114, 100] l5 = Inr l6"
    and t6: "tracks {..<cap} (max (cap - 1) 3) l6"
    by (rule slot_three_again[OF assms l1(2)])
  have rest: "lst_second_half m l6 = Inr 0"
  proof (cases "8 \<le> cap")
    case True
    then show ?thesis
      using second_half_passes [OF assms(1) _ t6] by simp
  next
    case False
    then show ?thesis
      using tracked_count [OF t6] by (simp add: lst_second_half_def)
  qed
  have start: "xlen l0 = 0 \<and> cap div 2 \<le> max_len l0"
    using l0 by simp
  note dumps = dump_fine [OF l0(2)] dump_fine [OF l1(2)] dump_fine [OF l2(2)] dump_fine [OF t6]
  note runs = l0(1) l1(1) l2(1) l3 l5 l6 rest
  show ?thesis
    unfolding test_xvlst_def
    by (simp only: runs dumps start cassert_simps cbind_Inr prod.case if_False if_True simp_thms)
qed

section \<open>The array test passes\<close>

text \<open>The array under test: \<open>n\<close> records, of which the first \<open>k\<close> have names.\<close>

definition holds_recs :: "nat \<Rightarrow> nat \<Rightarrow> xvlst \<Rightarrow> bool" where
  "holds_recs k n l \<longleftrightarrow> length (bytes l) = max_len l * REC_SZ \<and> data l \<noteq> None \<and> taken l = None \<and> xlen l = n \<and> n \<le> max_len l \<and> (\<forall>i<k. named l i)"

lemma reserve_vec:
  assumes "plenty m cap" and "0 < n" and "n \<le> cap" and "length (bytes l) = max_len l * REC_SZ" and "n < max_len l \<Longrightarrow> data l \<noteq> None"
  shows "\<exists>b k. xvec_reserve (data_ok m) (fresh m) l n REC_SZ GROW = Inr (l\<lparr>data := Some b, max_len := k\<rparr>, 0) \<and>
    extends (fresh m) (l\<lparr>data := Some b, max_len := k\<rparr>) l \<and> length b = k * REC_SZ \<and> n \<le> k"
proof (cases "n < max_len l")
  case True
  then obtain b where "data l = Some b"
    using assms(5) by blast
  moreover from this have "l\<lparr>data := Some b, max_len := max_len l\<rparr> = l"
    by simp
  ultimately show ?thesis
    using True assms(4) block_extends_same [of "l\<lparr>data := Some b, max_len := max_len l\<rparr>" l "fresh m"]
    by (intro exI [of _ b] exI [of _ "max_len l"]) (simp add: xvec_reserve_def bytes_def GROW_def)
next
  case False
  define k where "k = (1 + (n - 1) div GROW) * GROW"
  have g: "0 < GROW" "n \<le> k" "k < n + GROW"
    using round_up [OF assms(2), of GROW] by (simp_all add: k_def GROW_def)
  have "(cap + GROW) * REC_SZ \<le> 2 ^ 64" "0 < REC_SZ"
    using assms(1) by (simp_all add: plenty_def grow_ok_def)
  moreover have "(n + GROW) * REC_SZ \<le> (cap + GROW) * REC_SZ" "k * REC_SZ < (n + GROW) * REC_SZ" "n + GROW \<le> (n + GROW) * REC_SZ"
    using assms(3) g by (simp_all add: REC_SZ_def)
  ultimately have sz: "n + GROW \<le> 2 ^ 64" "size_mul k REC_SZ = k * REC_SZ"
    by (linarith, intro size_mul_small, linarith)
  define b where "b = bytes l @ replicate (k * REC_SZ - length (bytes l)) (fresh m)"
  have "length (bytes l) \<le> k * REC_SZ"
    unfolding assms(4) using False g(2) by (intro mult_le_mono1) simp
  moreover from this have "c_realloc (data_ok m) (fresh m) (data l) (k * REC_SZ) = Some b"
    using assms(1) by (simp add: c_realloc_def plenty_def b_def Let_def flip: bytes_def)
  then have "xvec_reserve (data_ok m) (fresh m) l n REC_SZ GROW = Inr (l\<lparr>data := Some b, max_len := k\<rparr>, 0)"
    using False sz assms(2) g(1) xvec_reserve_eq [of GROW n l "data_ok m" "fresh m" REC_SZ, folded k_def]
    by (simp del: One_nat_def)
  ultimately show ?thesis
    using g(2) by (intro exI [of _ b] exI [of _ k]) (auto simp: b_def extends_def bytes_def)
qed

lemma expand_vec:
  assumes "plenty m cap" and "holds_recs n n l" and "0 < e" and "n + e \<le> cap"
  shows "\<exists>l'. xvec_expand (data_ok m) (fresh m) l e REC_SZ GROW = Inr (l', 0) \<and> holds_recs n n l' \<and> n + e \<le> max_len l'"
proof -
  have h: "length (bytes l) = max_len l * REC_SZ" "data l \<noteq> None" "xlen l = n"
    using assms(2) by (simp_all add: holds_recs_def)
  have "0 < n + e"
    using assms(3) by simp
  from reserve_vec [OF assms(1) this assms(4) h(1, 2)]
  obtain b k where bk: "xvec_reserve (data_ok m) (fresh m) l (n + e) REC_SZ GROW = Inr (l\<lparr>data := Some b, max_len := k\<rparr>, 0)"
    "extends (fresh m) (l\<lparr>data := Some b, max_len := k\<rparr>) l" "length b = k * REC_SZ" "n + e \<le> k"
    by blast
  have "n + e < 2 ^ 64"
    using assms(1, 4) by (simp add: plenty_def grow_ok_def)
  then have "xvec_expand (data_ok m) (fresh m) l e REC_SZ GROW = Inr (l\<lparr>data := Some b, max_len := k\<rparr>, 0)"
    using assms(3) bk(1) h(3) by (simp add: xvec_expand_def REC_SZ_def GROW_def)
  moreover have "named (l\<lparr>data := Some b, max_len := k\<rparr>) i" if "i < n" for i
    using named_extends [OF _ bk(2)] that assms(2) by (simp add: holds_recs_def)
  ultimately show ?thesis
    using assms(2) bk(3, 4) by (simp add: holds_recs_def bytes_def)
qed

text \<open>Writing the record after the named ones.\<close>

lemma put_next:
  assumes "holds_recs k n l" and "k < max_len l"
  shows "\<exists>l'. put_rec k p a x l = Inr l' \<and> holds_recs (Suc k) n l' \<and> max_len l' = max_len l"
proof -
  obtain b where b: "data l = Some b" "length b = max_len l * REC_SZ"
    using assms(1) by (auto simp: holds_recs_def bytes_def)
  have "(k + 1) * REC_SZ \<le> length b"
    unfolding b(2) using assms(2) by (intro mult_le_mono1) simp
  then obtain b' where "put_rec k p a x l = Inr (l\<lparr>data := Some b'\<rparr>)" "length b' = length b"
    "named (l\<lparr>data := Some b'\<rparr>) k" "\<forall>j. j \<noteq> k \<longrightarrow> named l j \<longrightarrow> named (l\<lparr>data := Some b'\<rparr>) j"
    using put_rec_named [OF b(1)] by blast
  then show ?thesis
    using assms(1) b by (auto simp: holds_recs_def less_Suc_eq)
qed

lemma vec_fill_step:
  assumes "plenty m cap" and "holds_recs n n l" and "n + 1 \<le> cap"
  shows "\<exists>l'. vec_fill m n l = Inr (l', 0) \<and> holds_recs (n + 1) (n + 1) l'"
proof -
  obtain l1 where l1: "xvec_expand (data_ok m) (fresh m) l 1 REC_SZ GROW = Inr (l1, 0)" "holds_recs n n l1" "n + 1 \<le> max_len l1"
    using expand_vec [OF assms(1, 2), of 1] assms(3) by auto
  then obtain l2 where l2: "put_rec n [78] (n + 1) n l1 = Inr l2" "holds_recs (Suc n) n l2" "max_len l2 = max_len l1"
    using put_next [OF l1(2)] by fastforce
  have "n + 1 < 2 ^ 64"
    using assms(1, 3) by (simp add: plenty_def grow_ok_def)
  then have "holds_recs (n + 1) (n + 1) (l2\<lparr>xlen := size_add (xlen l2) 1\<rparr>)"
    using l2(2, 3) l1(3) by (simp add: holds_recs_def named_def bytes_def)
  then show ?thesis
    using l1(1) l2(1) by (simp add: vec_fill_def)
qed

lemma vec_extend_step:
  assumes "plenty m cap" and "holds_recs n n l" and "n + 2 \<le> cap"
  shows "\<exists>l'. vec_extend m n l = Inr (l', 0) \<and> holds_recs (n + 2) (n + 2) l'"
proof -
  obtain l1 where l1: "xvec_expand (data_ok m) (fresh m) l 2 REC_SZ GROW = Inr (l1, 0)" "holds_recs n n l1" "n + 2 \<le> max_len l1"
    using expand_vec [OF assms(1, 2), of 2] assms(3) by auto
  then obtain l2 where l2: "put_rec n [70] (n + 1) (n * 2) l1 = Inr l2" "holds_recs (Suc n) n l2" "max_len l2 = max_len l1"
    using put_next [OF l1(2)] by fastforce
  then obtain l3 where l3: "put_rec (n + 1) [83] (n + 1) (n * 2 + 1) l2 = Inr l3" "holds_recs (Suc (Suc n)) n l3" "max_len l3 = max_len l2"
    using put_next [OF l2(2)] l1(3) by fastforce
  have "n + 2 < 2 ^ 64"
    using assms(1, 3) by (simp add: plenty_def grow_ok_def)
  then have "holds_recs (n + 2) (n + 2) (l3\<lparr>xlen := size_add (xlen l3) 2\<rparr>)"
    using l3(2, 3) l2(3) l1(3) by (simp add: holds_recs_def named_def bytes_def)
  then show ?thesis
    using l1(1) l2(1) l3(1) by (simp add: vec_extend_def)
qed

lemma dump_vec:
  assumes "holds_recs n n l"
  shows "dump fl l = Inr ()"
proof -
  obtain b where b: "data l = Some b" "length b = max_len l * REC_SZ" "taken l = None" "xlen l = n" "n \<le> max_len l"
    using assms(1) by (auto simp: holds_recs_def bytes_def)
  have "dump_recs [0..<n] l = Inr ()"
  proof (rule dump_recs_in, rule ballI)
    fix i
    assume "i \<in> set [0..<n]"
    then have "i < n" "i + 1 \<le> max_len l"
      using b(5) by auto
    then have "(i + 1) * REC_SZ \<le> length b" "named l i"
      unfolding b(2) using assms(1) by (intro mult_le_mono1, simp_all add: holds_recs_def)
    then show "\<exists>c. (case taken l of None \<Rightarrow> Inr 1 | Some _ \<Rightarrow> pget (taken l) (int i)) = Inr c \<and>
        (c \<noteq> 0 \<longrightarrow> read_rec i l = Inr ())"
      using read_named [OF b(1)] b(3) by simp
  qed
  then show ?thesis
    using b by (simp add: dump_def dump_xvl_def dump_xvrec_def)
qed

lemma vec_passes:
  assumes "plenty m (2 * cap + 2)" and "4 < cap"
  shows "test_xvec m cap = Inr 0"
proof -
  define c where "c = cap div 2"
  have c: "0 < c" "c \<le> 2 * cap + 2" "c \<le> 2 * cap"
    using assms(2) by (simp_all add: c_def)
  have "length (bytes xv_zero) = max_len xv_zero * REC_SZ" "c < max_len xv_zero \<Longrightarrow> data xv_zero \<noteq> None"
    by (simp_all add: xv_zero_def bytes_def)
  from reserve_vec [OF assms(1) c(1, 2) this]
  obtain b k where bk: "xvec_reserve (data_ok m) (fresh m) xv_zero c REC_SZ GROW = Inr (xv_zero\<lparr>data := Some b, max_len := k\<rparr>, 0)"
    "length b = k * REC_SZ" "c \<le> k"
    by blast
  define l0 where "l0 = xv_zero\<lparr>data := Some b, max_len := k\<rparr>"
  have l0: "holds_recs 0 0 l0" "xlen l0 = 0 \<and> c \<le> max_len l0"
    using bk(2, 3) by (simp_all add: l0_def holds_recs_def bytes_def xv_zero_def)
  have "\<exists>l1. for_rc [0..<c] (vec_fill m) l0 = Inr (l1, 0) \<and> holds_recs (length [0..<c]) (length [0..<c]) l1"
  proof (rule for_rc_inv)
    fix i l
    assume "i < length [0..<c]" and "holds_recs i i l"
    then show "\<exists>s'. vec_fill m ([0..<c] ! i) l = Inr (s', 0) \<and> holds_recs (Suc i) (Suc i) s'"
      using vec_fill_step [OF assms(1), of i l] c(3) by simp
  qed (rule l0(1))
  then obtain l1 where l1: "for_rc [0..<c] (vec_fill m) l0 = Inr (l1, 0)" "holds_recs c c l1"
    by auto
  have xl: "xlen l1 = c"
    using l1(2) by (simp add: holds_recs_def)
  define ix where "ix = map (\<lambda>j. xlen l1 + 2 * j) [0..<(cap * 2 + 1 - xlen l1) div 2]"
  have "\<exists>l2. for_rc ix (vec_extend m) l1 = Inr (l2, 0) \<and> holds_recs (c + 2 * length ix) (c + 2 * length ix) l2"
  proof (rule for_rc_inv)
    show "holds_recs (c + 2 * 0) (c + 2 * 0) l1"
      using l1(2) by simp
  next
    fix j l
    assume j: "j < length ix" and h: "holds_recs (c + 2 * j) (c + 2 * j) l"
    have "c + 2 * j + 2 \<le> 2 * cap + 2"
      using j c(3) by (simp add: ix_def xl)
    from vec_extend_step [OF assms(1) h this] j
    show "\<exists>s'. vec_extend m (ix ! j) l = Inr (s', 0) \<and> holds_recs (c + 2 * Suc j) (c + 2 * Suc j) s'"
      by (simp add: ix_def xl)
  qed
  then obtain l2 where l2: "for_rc ix (vec_extend m) l1 = Inr (l2, 0)" "holds_recs (c + 2 * length ix) (c + 2 * length ix) l2"
    by blast
  note dumps = dump_vec [OF l0(1)] dump_vec [OF l1(2)] dump_vec [OF l2(2)]
  note runs = bk(1) [folded l0_def] l1(1) l2(1) l0(2)
  show ?thesis
    unfolding test_xvec_def c_def [symmetric] ix_def [symmetric]
    by (simp only: runs ix_def [symmetric] dumps cassert_simps cbind_Inr prod.case if_False if_True simp_thms)
qed

text \<open>
  C13: for every size the program accepts, when the allocator gives what it is asked for and no
  product of sizes wraps, both unit tests end with 0: no assertion of the tests or of the code under
  test fails, every index comes back as expected, and nothing is read or written out of bounds.
\<close>

theorem xvdat_tests_pass:
  assumes "plenty m (2 * nat vsize + 2)" and "4 < vsize" and "3 \<le> argc"
  shows "xvdat_main m argc md vsize = Inr 0"
proof -
  have big: "nat vsize + 5 \<le> 2 * nat vsize + 2" "4 < nat vsize"
    using assms(2) by simp_all
  have "plenty m (nat vsize + 5)"
    using assms(1) big(1) by (rule plenty_mono)
  from lst_passes [OF this big(2)] vec_passes [OF assms(1) big(2)] show ?thesis
    using assms(2, 3) by (cases md) (simp_all add: xvdat_main_def MIN_VSIZE_def)
qed

lemma xvdat_tests_pass_witness:
  "xvdat_main \<lparr>data_ok = \<lambda>_. True, flags_ok = \<lambda>_. True, fresh = 7\<rparr> 3 ModeLst 12 = Inr 0"
  by (rule xvdat_tests_pass) (simp_all add: plenty_def grow_ok_def REC_SZ_def GROW_def)

text \<open>
  When the memory gives out in the last additions, the test still reports success: the branch leaves
  \<open>rc\<close> at 0.
\<close>

lemma readd_failure_passes: "add_slot m l = Inr (l', j) \<Longrightarrow> j < 0 \<Longrightarrow> readd m k l = Inr (l', False)"
  by (simp add: readd_def)

end
