(* ===== verification/Testq.thy ===== *)
theory Testq
  imports Pqueue Prof
begin

text \<open>
  \<open>queue/testq.c\<close>: the test application around the queue, from the characters of its input to the
  exit code.  The command loop is that of \<open>Pqueue\<close>, run on handles.
\<close>

section \<open>Lines and commands\<close>

definition MAX_INPUT :: nat where "MAX_INPUT = 80"
definition MIN_CAP :: int where "MIN_CAP = 2"
definition MAX_CAP :: int where "MAX_CAP = 128"

definition newline :: char where "newline = CHR 0x0A"
definition carriage :: char where "carriage = CHR 0x0D"

text \<open>\<open>fgets\<close> for at most \<open>n\<close> characters: what it reads and the rest of the input.\<close>

fun read_line :: "nat \<Rightarrow> string \<Rightarrow> string \<times> string" where
  "read_line 0 s = ([], s)"
| "read_line (Suc n) [] = ([], [])"
| "read_line (Suc n) (c # s) =
     (if c = newline then ([c], s) else (case read_line n s of (l, r) \<Rightarrow> (c # l, r)))"

text \<open>The string in the buffer ends at its first NUL; \<open>strrchr\<close> finds the last place of a character.\<close>

definition c_string :: "string \<Rightarrow> string" where
  "c_string s = takeWhile (\<lambda>c. c \<noteq> CHR 0x00) s"

definition cut_last :: "char \<Rightarrow> string \<Rightarrow> string" where
  "cut_last c s = (if c \<in> set s then rev (drop 1 (dropWhile (\<lambda>d. d \<noteq> c) (rev s))) else s)"

definition input_line :: "string \<Rightarrow> string" where
  "input_line raw = cut_last carriage (cut_last newline (c_string raw))"

text \<open>\<open>atol\<close>: white space, a sign, digits, kept within the range of a \<open>long\<close>.\<close>

definition is_space :: "char \<Rightarrow> bool" where
  "is_space c \<longleftrightarrow> c = CHR '' '' \<or> (9 \<le> (of_char c :: nat) \<and> (of_char c :: nat) \<le> 13)"

definition is_digit :: "char \<Rightarrow> bool" where
  "is_digit c \<longleftrightarrow> 48 \<le> (of_char c :: nat) \<and> (of_char c :: nat) \<le> 57"

definition digits_value :: "string \<Rightarrow> int" where
  "digits_value s = foldl (\<lambda>v c. 10 * v + (of_char c - 48)) 0 (takeWhile is_digit s)"

definition atol :: "string \<Rightarrow> int" where
  "atol s =
     (let s = dropWhile is_space s;
          v = (case s of [] \<Rightarrow> 0
               | c # r \<Rightarrow> if c = CHR ''-'' then - digits_value r else if c = CHR ''+'' then digits_value r else digits_value s) in
      max (- (2 ^ 63)) (min (2 ^ 63 - 1) v))"

definition command_of :: "string \<Rightarrow> qcmd" where
  "command_of s =
     (if strcaseeq s ''get'' then CmdGet
      else if strcaseeq ''dump'' s \<or> strcaseeq ''list'' s then CmdDump
      else if atol s = 0 \<and> s \<noteq> ''0'' then CmdInvalid
      else CmdPut (word_of_int (atol s)))"

lemma read_line_shorter: "read_line n s = (l, r) \<Longrightarrow> length r \<le> length s \<and> (0 < n \<longrightarrow> s \<noteq> [] \<longrightarrow> length r < length s)"
proof (induction n s arbitrary: l r rule: read_line.induct)
  case (3 n c s)
  then show ?case
    by (cases "read_line n s") (auto split: if_splits)
qed simp_all

function commands :: "string \<Rightarrow> qcmd list" where
  "commands s =
     (if s = [] then []
      else (case read_line (MAX_INPUT - 2) s of (l, r) \<Rightarrow> command_of (input_line l) # commands r))"
  by pat_completeness auto
termination
  by (relation "measure length") (auto simp: MAX_INPUT_def dest!: read_line_shorter [OF sym])

declare commands.simps [simp del]

section \<open>The application\<close>

text \<open>The calls of the loop, on the handle \<open>q\<close>; errno is passed apart from the queues.\<close>

type_synonym queues = "int \<Rightarrow> pqueue option"

definition put_at :: "int \<Rightarrow> u64 \<Rightarrow> int \<Rightarrow> queues \<Rightarrow> (int \<times> int \<times> queues) cresult" where
  "put_at q v e m = cbind (hput q v \<lparr>pq_at = m, q_errno = e\<rparr>) (\<lambda>(rc, h). Inr (rc, q_errno h, pq_at h))"

definition get_at :: "int \<Rightarrow> int \<Rightarrow> queues \<Rightarrow> (u64 \<times> int \<times> queues) cresult" where
  "get_at q e m = cbind (hget q \<lparr>pq_at = m, q_errno = e\<rparr>) (\<lambda>(v, h). Inr (v, q_errno h, pq_at h))"

definition dump_at :: "int \<Rightarrow> queues \<Rightarrow> u64 list cresult" where
  "dump_at q m =
     (case m q of None \<Rightarrow> Inl BadPointer | Some pq \<Rightarrow> cbind (pqueue_dump pq) (\<lambda>r. Inr (snd r)))"

text \<open>
  \<open>main\<close>: \<open>argc\<close>, the capacity (after \<open>atoi\<close>), the answers of the allocator, the input; the
  printed results, the exit code and the heap at the end.
\<close>

definition testq_main :: "nat \<Rightarrow> int \<Rightarrow> int option \<Rightarrow> bool \<Rightarrow> string \<Rightarrow> qheap \<Rightarrow> (qout list \<times> int \<times> qheap) cresult" where
  "testq_main argc cap c1 c2 inp h =
     (if argc < 2 then Inr ([], 1, h)
      else if cap < MIN_CAP \<or> MAX_CAP < cap then Inr ([], 1, h)
      else
        (case pqueue_create c1 c2 (nat cap) h of (q, h) \<Rightarrow>
           if q = -1 then Inr ([], 1, h)
           else
             cbind (hcount q h) (\<lambda>_.
             cbind (testq_loop (put_at q) (get_at q) (dump_at q) (commands inp) (0, q_errno h, pq_at h)) (\<lambda>(outs, rc, e, m).
             cbind (pqueue_free q \<lparr>pq_at = m, q_errno = e\<rparr>) (\<lambda>h. Inr (outs, rc, h))))))"

section \<open>The queue behind a handle\<close>

definition handle_inv :: "int \<Rightarrow> queues \<Rightarrow> bool" where
  "handle_inv q m \<longleftrightarrow> (case m q of None \<Rightarrow> False | Some pq \<Rightarrow> pq_inv pq)"

definition handle_list :: "int \<Rightarrow> queues \<Rightarrow> u64 list" where
  "handle_list q m = pq_list (the (m q))"

definition handle_cap :: "int \<Rightarrow> queues \<Rightarrow> nat" where
  "handle_cap q m = pq_max_count (the (m q))"

lemma handle_invE:
  assumes "handle_inv q m"
  obtains pq where "m q = Some pq" and "pq_inv pq" and "handle_list q m = pq_list pq" and "handle_cap q m = pq_max_count pq"
  using assms by (auto simp: handle_inv_def handle_list_def handle_cap_def split: option.splits)

lemma handle_upd [simp]:
  "handle_inv q (m(q := Some pq)) = pq_inv pq" "handle_list q (m(q := Some pq)) = pq_list pq"
  "handle_cap q (m(q := Some pq)) = pq_max_count pq"
  by (simp_all add: handle_inv_def handle_list_def handle_cap_def)

interpretation handle: bounded_fifo "put_at q" "get_at q" "dump_at q" "handle_inv q" "handle_list q" "handle_cap q" for q
proof (unfold_locales, goal_cases)
  case (1 m)
  then show ?case
    by (auto elim!: handle_invE dest: ring.bounded)
next
  case (2 m v e)
  from 2(1) show ?case
    by (rule handle_invE) (use 2(2) ring.put_full in \<open>auto simp: put_at_def hput_def fun_upd_idem\<close>)
next
  case (3 m v e)
  from 3(1) obtain pq where pq: "m q = Some pq" "pq_inv pq" "handle_list q m = pq_list pq" "handle_cap q m = pq_max_count pq"
    by (rule handle_invE)
  then obtain pq' where "pqueue_put v e pq = Inr (0, e, pq')" "pq_inv pq'" "pq_max_count pq' = pq_max_count pq"
    "pq_list pq' = pq_list pq @ [v]"
    using ring.put_room [OF pq(2), of v e] 3(2) by auto
  then show ?case
    using pq by (simp add: put_at_def hput_def)
next
  case (4 m e)
  from 4(1) obtain pq where pq: "m q = Some pq" "pq_inv pq" "handle_list q m = pq_list pq" "handle_cap q m = pq_max_count pq"
    by (rule handle_invE)
  have "pqueue_get e pq = Inr (-1, ENOENT, pq)"
    using ring.get_empty [OF pq(2)] 4(2) pq(3) by simp
  then show ?case
    using pq(1) by (simp add: get_at_def hget_def fun_upd_idem)
next
  case (5 m x xs e)
  from 5(1) obtain pq where pq: "m q = Some pq" "pq_inv pq" "handle_list q m = pq_list pq" "handle_cap q m = pq_max_count pq"
    by (rule handle_invE)
  then obtain pq' where "pqueue_get e pq = Inr (x, e, pq')" "pq_inv pq'" "pq_max_count pq' = pq_max_count pq" "pq_list pq' = xs"
    using ring.get_front [OF pq(2), of x xs e] 5(2) by auto
  then show ?case
    using pq by (simp add: get_at_def hget_def)
next
  case (6 m)
  then show ?case
    by (auto elim!: handle_invE simp: dump_at_def ring.dump_all)
qed

text \<open>
  C21: with a capacity in the range the program accepts and memory for the queue, the program answers
  every line of its input as the list of at most that many values does, releases the queue, and
  ends with the result of the last put, -1 if it found the queue full and 0 otherwise.
\<close>

theorem testq_main_answers:
  assumes "2 \<le> argc" and "2 \<le> cap" and "cap \<le> 128" and "q \<noteq> -1" and "q \<noteq> 0"
  shows "\<exists>h'. testq_main argc cap (Some q) True inp h =
      Inr (fst (fifo_spec (nat cap) (commands inp) []), fold put_rc (fst (fifo_spec (nat cap) (commands inp) [])) 0, h') \<and>
    pq_at h' q = None"
proof -
  define m where "m = (pq_at h)(q := Some (pqueue_new (nat cap)))"
  have cap: "nat cap < 2 ^ 63" "nat cap * 8 < 2 ^ 63"
    using assms(3) by simp_all
  have create: "pqueue_create (Some q) True (nat cap) h = (q, h\<lparr>pq_at := m\<rparr>)"
    using cap(2) by (simp add: pqueue_create_def calloc_ok_def m_def)
  have m: "handle_inv q m" "handle_list q m = []" "handle_cap q m = nat cap"
    using cap(1) by (simp_all add: m_def pq_inv_new)
  obtain e m' where run: "testq_loop (put_at q) (get_at q) (dump_at q) (commands inp) (0, q_errno h, m) =
      Inr (fst (fifo_spec (nat cap) (commands inp) []), fold put_rc (fst (fifo_spec (nat cap) (commands inp) [])) 0, e, m')" "handle_inv q m'"
    using handle.run_refines [OF m(1), of "commands inp" 0 "q_errno h"] unfolding m(2, 3) by blast
  from run(2) obtain pq where "m' q = Some pq"
    by (rule handle_invE)
  then have "pqueue_free q \<lparr>pq_at = m', q_errno = e\<rparr> = Inr \<lparr>pq_at = m'(q := None), q_errno = e\<rparr>"
    using assms(5) by (simp add: pqueue_free_def)
  then show ?thesis
    using assms create run(1) by (simp add: testq_main_def MIN_CAP_def MAX_CAP_def hcount_def m_def)
qed

definition queue_input :: string where
  "queue_input = ''7'' @ [newline] @ ''-1'' @ [newline] @ ''9'' @ [newline] @ ''GET'' @ [newline] @ ''list'' @ [newline] @ ''x''"

theorem testq_main_answers_witness:
  "\<exists>h'. testq_main 2 2 (Some 4096) True queue_input \<lparr>pq_at = (\<lambda>_. None), q_errno = 0\<rparr> =
      Inr ([Stored 7, Stored (-1), PutError ENOMEM, Got 7, Dumped [-1], Rejected], -1, h') \<and> pq_at h' 4096 = None"
proof -
  have "commands queue_input = [CmdPut 7, CmdPut (-1), CmdPut 9, CmdGet, CmdDump, CmdInvalid]"
    by code_simp
  then show ?thesis
    using testq_main_answers [of 2 2 4096 queue_input "\<lparr>pq_at = (\<lambda>_. None), q_errno = 0\<rparr>"] by simp
qed

text \<open>
  Numbers that are zero but not written as a single digit are rejected; what follows a carriage
  return is ignored; the 79th character of a line starts another command.
\<close>

lemma testq_lines:
  "command_of ''00'' = CmdInvalid" "command_of ''0'' = CmdPut 0"
  "command_of (input_line (''get'' @ [carriage] @ ''x'')) = CmdGet"
  "commands (replicate 77 (CHR '' '') @ ''12'' @ [newline]) = [CmdPut 1, CmdPut 2]"
  by code_simp+

end
