(* ===== verification/Rsymb.thy ===== *)
theory Rsymb
  imports Prelude
begin

unbundle bit_operations_syntax

text \<open>
  \<open>bfd/rsymb.c\<close>: the program that lists the symbols of an object file.  What the \<open>bfd\<close> library
  answers is a parameter; the text of the messages is left out.
\<close>

section \<open>What the library answers\<close>

record bfd_section =
  vma :: u64
  sect_size :: u64

text \<open>A symbol: its section (\<open>None\<close> is the null pointer), its value and its flags.\<close>

record asymbol =
  sect :: "bfd_section option"
  sym_value :: u64
  sym_flags :: u64

text \<open>
  \<open>matches\<close>: the names of the matching formats, a null pointer or a block of strings that ends with a
  null pointer.  \<open>bsf_function\<close> is the flag of the library that marks functions.
\<close>

record bfd_env =
  opens :: bool
  is_archive :: bool
  is_object :: bool
  matches :: "string list option"
  is_elf :: bool
  upper_bound :: int
  mem_ok :: bool
  symtab :: "asymbol list option"
  bsf_function :: u64

section \<open>Reading the symbols\<close>

text \<open>
  The loop over the matching formats moves a pointer along the characters of the first name, and
  tests the pointer: after the terminating NUL it leaves the string.
\<close>

fun print_names :: "string \<Rightarrow> unit cresult" where
  "print_names [] = Inl OutOfBounds"
| "print_names (c # s) = print_names s"

definition show_matches :: "string list \<Rightarrow> unit cresult" where
  "show_matches ms = (case ms of [] \<Rightarrow> Inr () | s # _ \<Rightarrow> print_names s)"

definition good_symbol :: "bfd_env \<Rightarrow> bfd_section \<Rightarrow> asymbol \<Rightarrow> bool" where
  "good_symbol e s y \<longleftrightarrow>
     (let isfunc = (if is_elf e then sym_flags y AND bsf_function e else 1) in
      isfunc \<noteq> 0 \<and> 0 < vma s + sym_value y \<and> sym_value y < sect_size s)"

text \<open>The loop over the symbols: what it prints of each (its number and whether it is good), the count.\<close>

fun symbol_loop :: "bfd_env \<Rightarrow> nat \<Rightarrow> asymbol list \<Rightarrow> (nat \<times> bool) list \<times> nat" where
  "symbol_loop e i [] = ([], 0)"
| "symbol_loop e i (y # ys) =
     (case sect y of
        None \<Rightarrow> ([], 0)
      | Some s \<Rightarrow>
          (case symbol_loop e (i + 1) ys of (out, n) \<Rightarrow>
           ((i + 1, good_symbol e s y) # out, if good_symbol e s y then n + 1 else n)))"

text \<open>The body of the outer \<open>do\<close>: the return code, the listing, and the two numbers of the summary.\<close>

type_synonym listing = "int \<times> (nat \<times> bool) list \<times> (nat \<times> nat) option"

definition read_body :: "bfd_env \<Rightarrow> listing cresult" where
  "read_body e =
     (if is_archive e then Inr (-1, [], None)
      else
        cbind (if is_object e then Inr True
               else (case matches e of None \<Rightarrow> Inr False
                     | Some ms \<Rightarrow> cbind (show_matches ms) (\<lambda>_. Inr True))) (\<lambda>go.
        if \<not> go then Inr (-1, [], None)
        else if upper_bound e \<le> 0 then Inr (-1, [], None)
        else if \<not> mem_ok e then Inr (-1, [], None)
        else
          (case symtab e of None \<Rightarrow> Inr (-1, [], None)
           | Some ys \<Rightarrow>
               (case symbol_loop e 0 ys of (out, n) \<Rightarrow> Inr (0, out, Some (length ys, n))))))"

text \<open>\<open>bfd_close\<close> is called in any case, also with the null pointer of a file that did not open.\<close>

definition read_symbols :: "bfd_env \<Rightarrow> listing cresult" where
  "read_symbols e = (if \<not> opens e then Inl BadPointer else read_body e)"

definition rsymb_main :: "nat \<Rightarrow> bfd_env \<Rightarrow> listing cresult" where
  "rsymb_main argc e = (if argc < 2 then Inr (1, [], None) else read_symbols e)"

section \<open>Properties\<close>

lemma print_names_leaves: "print_names s = Inl OutOfBounds"
  by (induction s) simp_all

text \<open>The listing ends at the first symbol without a section; the count is that of the good ones listed.\<close>

definition listed :: "asymbol list \<Rightarrow> asymbol list" where
  "listed ys = takeWhile (\<lambda>y. sect y \<noteq> None) ys"

lemma symbol_loop_eq:
  "symbol_loop e i ys =
     (map (\<lambda>(k, y). (i + k + 1, good_symbol e (the (sect y)) y)) (enumerate 0 (listed ys)),
      length (filter (\<lambda>y. good_symbol e (the (sect y)) y) (listed ys)))"
proof (induction ys arbitrary: i)
  case (Cons y ys)
  have "map (\<lambda>(k, y). (Suc i + k + 1, good_symbol e (the (sect y)) y)) (enumerate 0 xs) =
      map (\<lambda>(k, y). (i + k + 1, good_symbol e (the (sect y)) y)) (enumerate (Suc 0) xs)" for xs
    by (rule nth_equalityI) (simp_all add: nth_enumerate_eq)
  with Cons show ?case
    by (auto simp: listed_def split: option.split)
qed (simp add: listed_def)

text \<open>
  The program lists a file that opens as an object and has a symbol table; it reports success also
  when it stopped at a symbol without a section, and the total it prints then counts the symbols it
  did not look at.
\<close>

theorem read_symbols_lists:
  assumes "opens e" and "\<not> is_archive e" and "is_object e" and "0 < upper_bound e" and "mem_ok e" and "symtab e = Some ys"
  shows "\<exists>out. read_symbols e = Inr (0, out, Some (length ys, length (filter (\<lambda>y. good_symbol e (the (sect y)) y) (listed ys)))) \<and>
    length out = length (listed ys)"
  using assms by (simp add: read_symbols_def read_body_def symbol_loop_eq)

text \<open>A file of an ambiguous format takes the loop over the names out of the first name.\<close>

theorem ambiguous_format_traps:
  assumes "opens e" and "\<not> is_archive e" and "\<not> is_object e" and "matches e = Some (s # ms)"
  shows "read_symbols e = Inl OutOfBounds"
  using assms by (simp add: read_symbols_def read_body_def show_matches_def print_names_leaves)

lemma unopened_file_traps: "\<not> opens e \<Longrightarrow> 2 \<le> argc \<Longrightarrow> rsymb_main argc e = Inl BadPointer"
  by (simp add: rsymb_main_def read_symbols_def)

end
