(* ===== verification/PrfmTest.thy ===== *)
theory PrfmTest
  imports Prof
begin

text \<open>
  \<open>prof/prfm_test.c\<close>: the test program of the performance probe.  The readings of the clock and of
  the resource usage, the results of the writes and of the other calls are parameters; the text of
  the messages is left out, what a dump shows is the accumulated value of the probe.
\<close>

section \<open>The write test\<close>

text \<open>
  One turn of the loop: the readings of the start and the stop around the write and around the
  empty loop, what \<open>write\<close> returns, and the junk in the local variables of the two stops.
\<close>

record turn =
  write_start :: readings
  write_result :: int
  write_stop :: readings
  write_junk :: prfm_metrics
  loop_start :: readings
  loop_stop :: readings
  loop_junk :: prfm_metrics

text \<open>The loop with the counter \<open>n\<close>; \<open>env i\<close> answers its turn number \<open>i\<close>.\<close>

fun write_loop :: "(nat \<Rightarrow> turn) \<Rightarrow> nat \<Rightarrow> nat \<Rightarrow> prfm \<times> prfm \<Rightarrow> (nat \<times> prfm \<times> prfm) cresult" where
  "write_loop env i 0 (p1, p2) = Inr (0, p1, p2)"
| "write_loop env i (Suc n) (p1, p2) =
     cbind (prfm_start (write_start (env i)) p1) (\<lambda>p1.
     if write_result (env i) \<le> 0 then Inr (Suc n, p1, p2)
     else
       cbind (prfm_stop (write_junk (env i)) (write_stop (env i)) p1) (\<lambda>p1.
       cbind (prfm_start (loop_start (env i)) p2) (\<lambda>p2.
       cbind (prfm_stop (loop_junk (env i)) (loop_stop (env i)) p2) (\<lambda>p2.
       write_loop env (i + 1) n (p1, p2)))))"

record test_env =
  mem_ok :: bool
  temp_ok :: bool
  perf_junk :: "nat \<Rightarrow> prfm"
  whole_start :: readings
  whole_stop :: readings
  whole_junk :: prfm_metrics
  turns :: "nat \<Rightarrow> turn"

text \<open>
  \<open>test_write\<close>: the number shown as \<open>niter\<close> and the three accumulated values it dumps.  The test of
  the loop decrements first.
\<close>

definition test_write :: "test_env \<Rightarrow> nat \<Rightarrow> (nat \<times> prfm_metrics \<times> prfm_metrics \<times> prfm_metrics) cresult" where
  "test_write e n =
     (let p0 = prfm_init (perf_junk e 0); p1 = prfm_init (perf_junk e 1); p2 = prfm_init (perf_junk e 2) in
      cbind (prfm_start (whole_start e) p0) (\<lambda>p0.
      if \<not> mem_ok e then Inl Aborted
      else if \<not> temp_ok e then Inl Aborted
      else
        cbind (write_loop (turns e) 0 (size_sub n 1) (p1, p2)) (\<lambda>(n, p1, p2).
        cbind (prfm_stop (whole_junk e) (whole_stop e) p0) (\<lambda>p0.
        Inr (n, accum p0, accum p1, accum p2)))))"

text \<open>
  \<open>main\<close>: \<open>argc\<close>, the name of the test, the numbers (after \<open>atol\<close>), the probe of the last dump; the
  exit code, and what the write test dumped.
\<close>

definition prfm_test_main ::
  "test_env \<Rightarrow> readings \<Rightarrow> prfm \<Rightarrow> nat \<Rightarrow> string \<Rightarrow> int \<Rightarrow> int \<Rightarrow>
    (int \<times> (nat \<times> prfm_metrics \<times> prfm_metrics \<times> prfm_metrics) option) cresult" where
  "prfm_test_main e probe junk argc test_name niter bufsz =
     (if argc = 1 then Inr (0, None)
      else if argc < 3 then Inr (EINVAL, None)
      else if niter \<le> 0 then Inr (EINVAL, None)
      else if test_name \<noteq> ''write'' then Inr (EINVAL, None)
      else if argc < 4 then Inr (EINVAL, None)
      else if bufsz \<le> 0 then Inr (EINVAL, None)
      else
        cbind (test_write e (nat niter)) (\<lambda>r.
        cbind (prfm_probe probe (prfm_init junk)) (\<lambda>_. Inr (0, Some r))))"

section \<open>What the loop measures\<close>

definition write_turn :: "turn \<Rightarrow> readings \<times> readings \<times> prfm_metrics" where
  "write_turn t = (write_start t, write_stop t, write_junk t)"

definition loop_turn :: "turn \<Rightarrow> readings \<times> readings \<times> prfm_metrics" where
  "loop_turn t = (loop_start t, loop_stop t, loop_junk t)"

text \<open>When every write succeeds, each probe runs its iterations as if it were alone.\<close>

lemma write_loop_runs:
  assumes "\<forall>k. 0 < write_result (env k)"
    and "prfm_runs (map (\<lambda>k. write_turn (env k)) [i..<i + n]) p1 = Inr q1"
    and "prfm_runs (map (\<lambda>k. loop_turn (env k)) [i..<i + n]) p2 = Inr q2"
  shows "write_loop env i n (p1, p2) = Inr (0, q1, q2)"
  using assms(2, 3)
proof (induction n arbitrary: i p1 p2)
  case (Suc n)
  have upt: "[i..<i + Suc n] = i # [Suc i..<Suc i + n]"
    by (simp add: upt_conv_Cons)
  have "\<not> write_result (env i) \<le> 0"
    using assms(1) by (simp add: not_le)
  with Suc show ?case
    unfolding upt by (auto simp: write_turn_def loop_turn_def cres)
qed simp

text \<open>A failing write leaves the loop with the write probe started and not stopped.\<close>

lemma write_loop_fails:
  assumes "write_result (env i) \<le> 0" and "prfm_start (write_start (env i)) p1 = Inr q1"
  shows "write_loop env i (Suc n) (p1, p2) = Inr (Suc n, q1, p2)"
  using assms by simp

text \<open>
  A run of the write test makes one turn less than asked for, shows 0 as the number of iterations,
  and dumps what the two probes accumulate over those turns.
\<close>

theorem test_write_measures:
  assumes "mem_ok e" and "temp_ok e" and "0 < n" and "n < 2 ^ 64" and "\<forall>k. 0 < write_result (turns e k)"
    and "prfm_runs [(whole_start e, whole_stop e, whole_junk e)] (prfm_init (perf_junk e 0)) = Inr q0"
    and "prfm_runs (map (\<lambda>k. write_turn (turns e k)) [0..<n - 1]) (prfm_init (perf_junk e 1)) = Inr q1"
    and "prfm_runs (map (\<lambda>k. loop_turn (turns e k)) [0..<n - 1]) (prfm_init (perf_junk e 2)) = Inr q2"
  shows "test_write e n = Inr (0, accum q0, accum q1, accum q2)"
proof -
  have "write_loop (turns e) 0 (size_sub n 1) (prfm_init (perf_junk e 1), prfm_init (perf_junk e 2)) = Inr (0, q1, q2)"
    using write_loop_runs [OF assms(5), of 0 "n - 1"] assms(3, 4, 7, 8) by (simp add: size_sub_small)
  then show ?thesis
    using assms(1, 2, 6) by (auto simp: test_write_def Let_def cres)
qed

end
