(* ===== verification/LibTests.thy ===== *)
theory LibTests
  imports Base64_Correct CpuFeature
begin

text \<open>
  The test programs of two libraries: \<open>base64/test_b64.c\<close>, and \<open>crc32.intel/test_cpuf.c\<close> with its
  variant \<open>test_cpuf_i.c\<close> and the older \<open>ucrc32hw.c\<close>, which compare the checksum of the processor with that of the tables.
  Numbers on the command line come converted; the random bytes and the allocator are parameters;
  timing and messages are left out.
\<close>

section \<open>The base64 test\<close>

datatype b64_mode = ModeEncode | ModeDecode | ModeUnknown

text \<open>What \<open>printf\<close> prints of a buffer as a string.\<close>

definition show_string :: "u8 list \<Rightarrow> u8 list cresult" where
  "show_string buf = cbind (cstrlen buf) (\<lambda>n. Inr (take n buf))"

text \<open>\<open>main\<close>: the exit code and the string printed; \<open>None\<close> is the error message.\<close>

definition b64_test_main :: "bool \<Rightarrow> nat \<Rightarrow> b64_mode \<Rightarrow> u8 list \<Rightarrow> b64_state \<Rightarrow> (int \<times> u8 list option) cresult" where
  "b64_test_main ok argc md str st =
     (if argc < 3 then Inr (1, None)
      else
        cbind (cstrlen str) (\<lambda>n.
        let buflen = size_add (size_mul (size_add (n div 3) 1) 4) 1 in
        if \<not> ok then Inr (1, None)
        else
          (let buf = replicate buflen 0 in
           case md of
             ModeEncode \<Rightarrow>
               cbind (b64_encode str buf buflen st) (\<lambda>(buf, st). cbind (show_string buf) (\<lambda>s. Inr (0, Some s)))
           | ModeDecode \<Rightarrow>
               cbind (b64_decode str buf buflen 0 st) (\<lambda>(good, e, buf, st).
               if good then cbind (show_string buf) (\<lambda>s. Inr (0, Some s)) else Inr (0, None))
           | ModeUnknown \<Rightarrow> Inr (0, None))))"

section \<open>The checksum tests\<close>

definition MAX_LEN :: int where "MAX_LEN = 1024 * 1024 * 1000 * 2"
definition NROUNDS :: nat where "NROUNDS = 1000"
definition cpuf_sse4_2 :: nat where "cpuf_sse4_2 = 2"

text \<open>A loop that computes the same value \<open>n\<close> times; \<open>v\<close> is the value of the variable before.\<close>

fun rounds :: "nat \<Rightarrow> u32 cresult \<Rightarrow> u32 \<Rightarrow> u32 cresult" where
  "rounds 0 f v = Inr v"
| "rounds (Suc n) f v = cbind f (\<lambda>v. rounds n f v)"

definition random_buffer :: "(nat \<Rightarrow> int) \<Rightarrow> nat \<Rightarrow> u8 list" where
  "random_buffer rnd len = map (\<lambda>i. word_of_int (rnd i)) [0..<len]"

text \<open>The part the programs share, over the routine of the processor: the exit code and the two sums.\<close>

definition compare_sums ::
  "(u32 \<Rightarrow> u8 list \<Rightarrow> nat \<Rightarrow> u32 cresult) \<Rightarrow> bool \<Rightarrow> (nat \<Rightarrow> int) \<Rightarrow> u64 \<Rightarrow> nat \<Rightarrow> (int \<times> (u32 \<times> u32) option) cresult" where
  "compare_sums hw ok rnd addr len =
     (if \<not> ok then Inr (ENOMEM, None)
      else
        (let buf = random_buffer rnd len in
         cbind (rounds NROUNDS (hw 0 buf len) 0) (\<lambda>h.
         cbind (rounds NROUNDS (crc32c 0 addr buf (of_nat len)) h) (\<lambda>s. Inr (0, Some (h, s))))))"

definition test_cpuf_main ::
  "x86 \<Rightarrow> crc_insn \<Rightarrow> bool \<Rightarrow> (nat \<Rightarrow> int) \<Rightarrow> u64 \<Rightarrow> nat \<Rightarrow> int \<Rightarrow> int \<Rightarrow> (int \<times> (u32 \<times> u32) option) cresult" where
  "test_cpuf_main cpu insn ok rnd addr argc seed len =
     (if argc < 3 then Inr (1, None)
      else if seed \<le> 0 then Inr (EINVAL, None)
      else if len \<le> 0 \<or> MAX_LEN < len then Inr (EINVAL, None)
      else
        cbind (cpu_has cpu cpuf_sse4_2) (\<lambda>(cpu, sse42).
        if sse42 = - ERANGE then Inr (ERANGE, None)
        else if sse42 = 0 then Inr (EINVAL, None)
        else if sse42 \<noteq> 1 then Inr (EINVAL, None)
        else compare_sums (crc32c_hw insn) ok rnd addr (nat len)))"

definition test_cpuf_i_main ::
  "x86 \<Rightarrow> crc_insn \<Rightarrow> bool \<Rightarrow> (nat \<Rightarrow> int) \<Rightarrow> u64 \<Rightarrow> nat \<Rightarrow> int \<Rightarrow> int \<Rightarrow> (int \<times> (u32 \<times> u32) option) cresult" where
  "test_cpuf_i_main cpu insn ok rnd addr argc seed len =
     (if argc < 3 then Inr (1, None)
      else if seed \<le> 0 then Inr (EINVAL, None)
      else if len \<le> 0 \<or> MAX_LEN < len then Inr (EINVAL, None)
      else
        cbind (sse42_enabled_cpu cpu) (\<lambda>sse42.
        if sse42 = 0 then Inr (EINVAL, None)
        else compare_sums (crc32c_hw_fi insn) ok rnd addr (nat len)))"

text \<open>\<open>ucrc32hw.c\<close> uses the instruction without looking for it.\<close>

definition ucrc32hw_main ::
  "crc_insn \<Rightarrow> bool \<Rightarrow> (nat \<Rightarrow> int) \<Rightarrow> u64 \<Rightarrow> nat \<Rightarrow> int \<Rightarrow> int \<Rightarrow> (int \<times> (u32 \<times> u32) option) cresult" where
  "ucrc32hw_main insn ok rnd addr argc seed len =
     (if argc < 3 then Inr (1, None)
      else if seed \<le> 0 then Inr (EINVAL, None)
      else if len \<le> 0 \<or> MAX_LEN < len then Inr (EINVAL, None)
      else compare_sums (crc32c_intel_le_hw insn) ok rnd addr (nat len))"

section \<open>What they show\<close>

lemma buffer_room: "(length s + 2) div 3 * 4 + 1 \<le> (length s div 3 + 1) * 4 + 1"
proof -
  have "(length s + 2) div 3 \<le> length s div 3 + 1"
    by presburger
  then show ?thesis
    by simp
qed

lemma test_buflen:
  "n < 2 ^ 60 \<Longrightarrow> size_add (size_mul (size_add (n div 3) 1) 4) 1 = (n div 3 + 1) * 4 + 1"
  by simp

lemma show_string_append: "0 \<notin> set s \<Longrightarrow> show_string (s @ 0 # r) = Inr s"
  by (simp add: show_string_def)

text \<open>The program encodes every string, and decodes what it encoded.\<close>

theorem b64_test_inverse:
  assumes "b64_inv st" and "0 \<notin> set s" and "length s < 2 ^ 60" and "3 \<le> argc"
  shows "b64_test_main True argc ModeEncode (s @ [0]) st = Inr (0, Some (b64_text s)) \<and>
    b64_test_main True argc ModeDecode (b64_text s @ [0]) st = Inr (0, Some s)"
proof
  define n where "n = (length s div 3 + 1) * 4 + 1"
  have len: "length (b64_text s) = (length s + 2) div 3 * 4"
    by (rule length_b64_text)
  have n: "length (b64_text s) \<le> n - 1" "1 \<le> n" "n < 2 ^ 64"
    using buffer_room [of s] assms(3) by (simp_all add: n_def len)
  have nlen: "size_add (size_mul (size_add (length s div 3) 1) 4) 1 = n"
    using test_buflen [OF assms(3)] by (simp add: n_def)
  have chars: "0 \<notin> set (b64_text s)" "\<forall>c\<in>set (b64_text s). b64_valid c"
    using b64_text_chars by blast+
  have "b64_encode (s @ 0 # []) (replicate n 0) n st =
      Inr (b64_text s @ 0 # drop (length (b64_text s) + 1) (replicate n 0), b64_ready st)"
    using b64_encode_text [OF assms(1, 2) n(2) _ n(3), of "replicate n 0" "[]"] n(1) by (simp add: min_absorb1)
  then show "b64_test_main True argc ModeEncode (s @ [0]) st = Inr (0, Some (b64_text s))"
    using assms(2, 4) nlen chars(1)
    by (simp add: b64_test_main_def Let_def show_string_append)
  define m where "m = length (b64_text s)"
  define k where "k = (m div 3 + 1) * 4 + 1"
  have m: "m < 2 ^ 61" "4 dvd m"
    using assms(3) by (simp_all add: m_def len)
  have k: "size_add (size_mul (size_add (m div 3) 1) 4) 1 = k" "(m div 4 + 1) * 3 + 1 \<le> k" "k < 2 ^ 64"
    using m(1) by (simp_all add: k_def)
  have "b64_decode (b64_text s @ 0 # []) (replicate k 0) k 0 st =
      Inr (True, 0, s @ 0 # drop (length s + 1) (replicate k 0), b64_ready st)"
    using b64_decode_text(1) [OF assms(1) chars(1), of k "replicate k 0" "[]" 0] m k(2, 3) chars(2)
    by (simp add: m_def dec_text_text)
  then show "b64_test_main True argc ModeDecode (b64_text s @ [0]) st = Inr (0, Some s)"
    using assms(2, 4) chars(1) k(1)
    by (simp add: b64_test_main_def Let_def show_string_append flip: m_def)
qed

lemma rounds_same: "0 < n \<Longrightarrow> f = Inr v \<Longrightarrow> rounds n f w = Inr v"
proof -
  have "rounds k (Inr v) v = Inr v" for k
    by (induction k) simp_all
  then show "0 < n \<Longrightarrow> f = Inr v \<Longrightarrow> rounds n f w = Inr v"
    by (cases n) simp_all
qed

lemma compare_sums_agree:
  assumes "\<And>buf. length buf = len \<Longrightarrow> hw 0 buf len = crc32c 0 addr buf (of_nat len)" and "len < 2 ^ 32"
  shows "\<exists>v. compare_sums hw True rnd addr len = Inr (0, Some (v, v)) \<and>
    crc32c 0 addr (random_buffer rnd len) (of_nat len) = Inr v"
proof -
  define buf where "buf = random_buffer rnd len"
  have "length buf = len" "unat (of_nat len :: u32) = len"
    using assms(2) by (simp_all add: buf_def random_buffer_def unat_of_nat take_bit_nat_eq_self)
  moreover from this obtain v where "crc32c 0 addr buf (of_nat len) = Inr v"
    using crc32c_eq [of "of_nat len" buf] by simp
  ultimately show ?thesis
    using assms(1) [of buf] by (simp add: compare_sums_def Let_def rounds_same NROUNDS_def flip: buf_def)
qed

text \<open>
  C36: on a processor that lets a program switch the flags AC and ID (whatever other flags it
  lets it write), whose \<open>cpuid\<close> reports SSE 4.2 and whose crc32 instruction does what its manual
  says, \<open>test_cpuf\<close>, \<open>test_cpuf_i\<close> and \<open>ucrc32hw\<close> finish with exit code 0 and print the same sum
  twice, each over its own routine for the processor.
\<close>

theorem sums_agree:
  assumes "modern_cpu cpu" and "sse42_enabled_cpu cpu = Inr 1" and "sse42_crc insn"
    and "3 \<le> argc" and "0 < seed" and "0 < len" and "len \<le> MAX_LEN"
  shows "\<exists>v. test_cpuf_main cpu insn True rnd addr argc seed len = Inr (0, Some (v, v)) \<and>
    test_cpuf_i_main cpu insn True rnd addr argc seed len = Inr (0, Some (v, v)) \<and>
    ucrc32hw_main insn True rnd addr argc seed len = Inr (0, Some (v, v))"
proof -
  have len: "nat len < 2 ^ 32" "unat (of_nat (nat len) :: u32) = nat len"
    using assms(7) by (simp_all add: MAX_LEN_def unat_of_nat take_bit_nat_eq_self)
  have hw: "crc32c_hw insn 0 buf (nat len) = crc32c 0 addr buf (of_nat (nat len))"
    "crc32c_hw_fi insn 0 buf (nat len) = crc32c 0 addr buf (of_nat (nat len))" if "length buf = nat len" for buf
    using hw_is_sw [OF assms(3), of "of_nat (nat len)" buf 0 addr] len(2) that by simp_all
  obtain v where v: "compare_sums (crc32c_hw insn) True rnd addr (nat len) = Inr (0, Some (v, v))"
    "crc32c 0 addr (random_buffer rnd (nat len)) (of_nat (nat len)) = Inr v"
    using compare_sums_agree [of "nat len" "crc32c_hw insn" addr, OF hw(1) len(1)] by blast
  obtain w where w: "compare_sums (crc32c_hw_fi insn) True rnd addr (nat len) = Inr (0, Some (w, w))"
    "crc32c 0 addr (random_buffer rnd (nat len)) (of_nat (nat len)) = Inr w"
    using compare_sums_agree [of "nat len" "crc32c_hw_fi insn" addr, OF hw(2) len(1)] by blast
  have ucrc_routine: "crc32c_intel_le_hw insn = crc32c_hw insn"
    by (intro ext) (rule crc32c_intel_eq)
  have "w = v"
    using v(2) w(2) by simp
  moreover have "cpu_has cpu cpuf_sse4_2 = Inr (cpu, 1)"
    using cpu_has_sse42_eq [OF assms(1)] assms(2) by (simp add: cpuf_sse4_2_def)
  ultimately show ?thesis
    using v(1) w(1) assms
    by (simp add: test_cpuf_main_def test_cpuf_i_main_def ucrc32hw_main_def not_le ucrc_routine)
qed

theorem sums_agree_witness:
  "\<exists>v. test_cpuf_main nehalem sse42_model True (\<lambda>i. 7 * int i) 5 3 1 100 = Inr (0, Some (v, v)) \<and>
    test_cpuf_i_main nehalem sse42_model True (\<lambda>i. 7 * int i) 5 3 1 100 = Inr (0, Some (v, v)) \<and>
    ucrc32hw_main sse42_model True (\<lambda>i. 7 * int i) 5 3 1 100 = Inr (0, Some (v, v))"
  by (rule sums_agree [OF nehalem_modern _ sse42_model])
     (simp_all add: MAX_LEN_def sse42_enabled_cpu_def nehalem_def)

end
