(* ===== verification/Utest2.thy ===== *)
theory Utest2
  imports DebugSync
begin

text \<open>
  \<open>debugsync/utest2.c\<close>: the unit test of the facility, six threads and \<open>main\<close>.  A thread is the
  list of the statements it still has to execute; the calls of the facility go through the
  thread steps of \<open>DebugSync\<close>, so a thread inside a call may block there.  \<open>sleep\<close> only delays: a
  thread may take any time for it, so every interleaving is a run.  The result of
  \<open>pthread_create\<close> is an answer of the environment; \<open>pthread_join\<close> waits for the thread and
  returns 0, and joining a thread that was never created (\<open>tid\<close> is still 0) is a bad pointer.
  The messages are left out.
\<close>

section \<open>Runs of a labelled step function\<close>

fun steps :: "('s \<Rightarrow> 'l \<Rightarrow> ('e + 's) option) \<Rightarrow> 's \<Rightarrow> 'l list \<Rightarrow> ('e + 's) option" where
  "steps step s [] = Some (Inr s)"
| "steps step s (l # ls) =
     (case step s l of
        None \<Rightarrow> None
      | Some (Inl e) \<Rightarrow> if ls = [] then Some (Inl e) else None
      | Some (Inr s') \<Rightarrow> steps step s' ls)"

text \<open>
  Steps that keep an invariant, never fault, count a number down by one and can go on as long
  as it is positive: all their runs can be completed, and all complete runs are equally long.
\<close>

locale countdown =
  fixes step :: "'s \<Rightarrow> 'l \<Rightarrow> ('e + 's) option"
    and good :: "'s \<Rightarrow> bool"
    and fair :: "'l \<Rightarrow> bool"
    and left :: "'s \<Rightarrow> nat"
  assumes step_down: "good s \<Longrightarrow> fair l \<Longrightarrow> step s l = Some (Inr s') \<Longrightarrow> good s' \<and> left s = Suc (left s')"
    and no_fault: "good s \<Longrightarrow> fair l \<Longrightarrow> step s l \<noteq> Some (Inl e)"
    and progress: "good s \<Longrightarrow> 0 < left s \<Longrightarrow> \<exists>l s'. fair l \<and> step s l = Some (Inr s')"
begin

lemma run_down:
  assumes "good s" "list_all fair ls" "steps step s ls = Some r"
  shows "\<exists>s'. r = Inr s' \<and> good s' \<and> left s = length ls + left s'"
  using assms
proof (induction ls arbitrary: s)
  case (Cons l ls)
  obtain s1 where s1: "step s l = Some (Inr s1)" "steps step s1 ls = Some r"
    using Cons.prems no_fault[of s l] by (auto split: option.splits sum.splits)
  have "good s1" "left s = Suc (left s1)"
    using step_down[of s l s1] Cons.prems s1(1) by auto
  then show ?case
    using Cons.IH[of s1] Cons.prems s1(2) by auto
qed auto

lemma stuck_iff:
  assumes "good s"
  shows "left s = 0 \<longleftrightarrow> (\<forall>l s'. fair l \<longrightarrow> step s l \<noteq> Some (Inr s'))"
  using progress[OF assms] step_down[OF assms] by fastforce

lemma can_complete:
  assumes "good s"
  shows "\<exists>ls s'. list_all fair ls \<and> steps step s ls = Some (Inr s') \<and> left s' = 0"
  using assms
proof (induction "left s" arbitrary: s)
  case 0
  then show ?case
    by (intro exI[of _ "[]"]) simp
next
  case (Suc n)
  then obtain l s1 where l: "fair l" "step s l = Some (Inr s1)"
    using progress[of s] by auto
  then have "good s1" "n = left s1"
    using step_down[of s l s1] Suc by auto
  then obtain ls s' where "list_all fair ls" "steps step s1 ls = Some (Inr s')" "left s' = 0"
    using Suc.hyps(1) by blast
  then show ?case
    using l by (intro exI[of _ "l # ls"]) simp
qed

end

section \<open>The scripts of the threads\<close>

datatype stm = Sleep nat | Call call

definition run :: "string \<Rightarrow> nat \<Rightarrow> nat \<Rightarrow> stm list" where
  "run name pnap anap =
     (if pnap \<noteq> 0 then [Sleep pnap] else []) @ Call (CWait name) #
     (if anap \<noteq> 0 then [Sleep anap] else []) @ [Call (CUnblock name)]"

definition syncpt :: "string \<Rightarrow> nat \<Rightarrow> nat \<Rightarrow> stm list" where
  "syncpt name pnap anap =
     (if pnap \<noteq> 0 then [Sleep pnap] else []) @ Call (CExec name) #
     (if anap \<noteq> 0 then [Sleep anap] else [])"

text \<open>The static table \<open>t\<close> of the start routines.\<close>

definition t_tab :: "stm list list" where
  "t_tab = [run ''hollywood'' 1 2, run ''hollywood'' 2 3, run ''hollywood'' 8 1,
        syncpt ''dania'' 3 2, run ''dania'' 0 2, run ''dania'' 1 1]"

definition THR_COUNT :: nat where
  "THR_COUNT = length t_tab"

section \<open>The program\<close>

text \<open>
  A thread is not created, about to execute the rest of its script with the current \<open>rc\<close> (ended
  when the rest is empty), or inside a call with the rest after it.
\<close>

datatype pc = NotCreated | At "stm list" int | InCall "stm list"

datatype main_pc =
    MInit | MCreate nat | MPause | MSet | MInSet | MNap int | MDisable int | MInDisable int
  | MJoin nat int | MDestroy int | MExit int

record world =
  usys :: sys
  pcs :: "nat \<Rightarrow> pc"
  umain :: main_pc

text \<open>The identity of the main thread among the callers of the facility.\<close>

definition main_id :: nat where "main_id = THR_COUNT"

definition utest2_start :: world where
  "utest2_start = \<lparr>usys = sys_init 0, pcs = (\<lambda>_. NotCreated), umain = MInit\<rparr>"

text \<open>
  What the next step does: \<open>Proceed rc\<close> executes the next statement (\<open>rc\<close> is the result of
  \<open>pthread_create\<close>), \<open>Inside l\<close> is a step inside a call.
\<close>

datatype move = Proceed int | Inside label

text \<open>After a call: \<open>break\<close> when it returned nonzero.\<close>

definition landed :: "thread \<Rightarrow> stm list \<Rightarrow> pc" where
  "landed th ss = (case th of Outside rc \<Rightarrow> (if rc \<noteq> 0 then At [] rc else At ss rc) | _ \<Rightarrow> InCall ss)"

definition call_step :: "world \<Rightarrow> nat \<Rightarrow> label \<Rightarrow> stm list \<Rightarrow> world cresult option" where
  "call_step w i l ss =
     map_option (\<lambda>r. cbind r (\<lambda>s'.
       Inr (w\<lparr>usys := s', pcs := (pcs w)(i := landed (thr s' i) ss)\<rparr>))) (ds_step (usys w) i l)"

fun thread_step :: "world \<Rightarrow> nat \<Rightarrow> move \<Rightarrow> world cresult option" where
  "thread_step w i (Proceed r) =
     (case pcs w i of
        At (Sleep n # ss) rc \<Rightarrow> Some (Inr (w\<lparr>pcs := (pcs w)(i := At ss rc)\<rparr>))
      | At (Call c # ss) rc \<Rightarrow> call_step w i (Invoke c) ss
      | _ \<Rightarrow> None)"
| "thread_step w i (Inside l) =
     (case pcs w i of InCall ss \<Rightarrow> call_step w i l ss | _ \<Rightarrow> None)"

text \<open>A step of \<open>main\<close> inside the facility, with where it is after a return and where otherwise.\<close>

definition main_call :: "world \<Rightarrow> label \<Rightarrow> (int \<Rightarrow> main_pc) \<Rightarrow> main_pc \<Rightarrow> world cresult option" where
  "main_call w l ret inside =
     map_option (\<lambda>r. cbind r (\<lambda>s'. Inr (w\<lparr>usys := s',
       umain := (case thr s' main_id of Outside rc \<Rightarrow> ret rc | _ \<Rightarrow> inside)\<rparr>))) (ds_step (usys w) main_id l)"

definition join_step :: "world \<Rightarrow> nat \<Rightarrow> int \<Rightarrow> world cresult option" where
  "join_step w i rc =
     (case pcs w i of
        NotCreated \<Rightarrow> Some (Inl BadPointer)
      | At [] _ \<Rightarrow> Some (Inr (w\<lparr>umain := (if i + 1 < THR_COUNT then MJoin (i + 1) rc else MDestroy rc)\<rparr>))
      | _ \<Rightarrow> None)"

fun main_step :: "world \<Rightarrow> move \<Rightarrow> world cresult option" where
  "main_step w (Proceed r) =
     (case umain w of
        MInit \<Rightarrow> Some (Inr (w\<lparr>usys := (usys w)\<lparr>glob := ds_init 0\<rparr>, umain := MCreate 0\<rparr>))
      | MCreate i \<Rightarrow>
          Some (Inr (if r \<noteq> 0 then w\<lparr>umain := MNap r\<rparr>
            else w\<lparr>pcs := (pcs w)(i := At (t_tab ! i) 0),
                   umain := (if i + 1 < THR_COUNT then MCreate (i + 1) else MPause)\<rparr>))
      | MPause \<Rightarrow> Some (Inr (w\<lparr>umain := MSet\<rparr>))
      | MSet \<Rightarrow> main_call w (Invoke (CExec ''hollywood'')) MNap MInSet
      | MNap rc \<Rightarrow> Some (Inr (w\<lparr>umain := MDisable rc\<rparr>))
      | MDisable rc \<Rightarrow> main_call w (Invoke CDisableAll) (\<lambda>_. MJoin 0 rc) (MInDisable rc)
      | MJoin i rc \<Rightarrow> join_step w i rc
      | MDestroy rc \<Rightarrow>
          Some (cbind (ds_destroy (replicate (length (point (glob (usys w)))) True) (glob (usys w)))
            (\<lambda>_. Inr (w\<lparr>umain := MExit rc\<rparr>)))
      | _ \<Rightarrow> None)"
| "main_step w (Inside l) =
     (case umain w of
        MInSet \<Rightarrow> main_call w l MNap MInSet
      | MInDisable rc \<Rightarrow> main_call w l (\<lambda>_. MJoin 0 rc) (MInDisable rc)
      | _ \<Rightarrow> None)"

text \<open>A label names who moves, \<open>main\<close> or thread \<open>i\<close>, and how.\<close>

fun ustep :: "world \<Rightarrow> nat option \<times> move \<Rightarrow> world cresult option" where
  "ustep w (None, mv) = main_step w mv"
| "ustep w (Some i, mv) = (if i < THR_COUNT then thread_step w i mv else None)"


section \<open>With activation 0 the facility is passed through\<close>

lemma local_inactive_init [simp]: "local_inactive (ds_init 0)"
  by (simp add: local_inactive_def ds_init_def)

lemma invoke_inactive:
  assumes "\<forall>b. c \<noteq> CActivate b"
  shows "invoke (sys_init 0) i c = sys_init 0"
  using assms by (cases c) (auto simp: invoke_def sys_init_def fun_upd_idem)

lemma invoke_init:
  "\<forall>b. c \<noteq> CActivate b \<Longrightarrow> ds_step (sys_init 0) i (Invoke c) = Some (Inr (sys_init 0))"
  using invoke_inactive[of c i] by (simp add: sys_init_def)

lemma thr_sys_init [simp]: "thr (sys_init fl) i = Outside 0"
  by (simp add: sys_init_def)

lemma glob_sys_init [simp]: "glob (sys_init fl) = ds_init fl"
  by (simp add: sys_init_def)

text \<open>The statements of the scripts never activate the facility.\<close>

fun quiet :: "stm \<Rightarrow> bool" where
  "quiet (Call (CActivate b)) \<longleftrightarrow> False"
| "quiet _ \<longleftrightarrow> True"

lemma scripts_quiet: "i < THR_COUNT \<Longrightarrow> list_all quiet (t_tab ! i)"
  by (auto simp: THR_COUNT_def t_tab_def run_def syncpt_def nth_Cons' less_Suc_eq)

lemma THR_COUNT_eq: "THR_COUNT = 6"
  by (simp add: THR_COUNT_def t_tab_def)

lemma call_step_init:
  assumes "usys w = sys_init 0" "\<forall>b. c \<noteq> CActivate b"
  shows "call_step w i (Invoke c) ss = Some (Inr (w\<lparr>pcs := (pcs w)(i := At ss 0)\<rparr>))"
  using assms invoke_init[of c i] by (cases w) (simp add: call_step_def landed_def del: ds_step.simps)

lemma main_call_init:
  assumes "usys w = sys_init 0" "\<forall>b. c \<noteq> CActivate b"
  shows "main_call w (Invoke c) ret ins = Some (Inr (w\<lparr>umain := ret 0\<rparr>))"
  using assms invoke_init[of c main_id] by (cases w) (simp add: main_call_def del: ds_step.simps)

section \<open>The invariant and the count of the steps left\<close>

definition created_upto :: "main_pc \<Rightarrow> nat" where
  "created_upto m = (case m of MInit \<Rightarrow> 0 | MCreate i \<Rightarrow> i | _ \<Rightarrow> THR_COUNT)"

definition joined_upto :: "main_pc \<Rightarrow> nat" where
  "joined_upto m =
     (case m of MJoin i _ \<Rightarrow> i | MDestroy _ \<Rightarrow> THR_COUNT | MExit _ \<Rightarrow> THR_COUNT | _ \<Rightarrow> 0)"

fun main_ok :: "main_pc \<Rightarrow> bool" where
  "main_ok (MCreate i) \<longleftrightarrow> i < THR_COUNT"
| "main_ok (MJoin i rc) \<longleftrightarrow> i < THR_COUNT \<and> rc = 0"
| "main_ok (MNap rc) \<longleftrightarrow> rc = 0"
| "main_ok (MDisable rc) \<longleftrightarrow> rc = 0"
| "main_ok (MDestroy rc) \<longleftrightarrow> rc = 0"
| "main_ok (MExit rc) \<longleftrightarrow> rc = 0"
| "main_ok MInSet \<longleftrightarrow> False"
| "main_ok (MInDisable rc) \<longleftrightarrow> False"
| "main_ok _ \<longleftrightarrow> True"

fun pc_ok :: "bool \<Rightarrow> bool \<Rightarrow> pc \<Rightarrow> bool" where
  "pc_ok created joined NotCreated \<longleftrightarrow> \<not> created"
| "pc_ok created joined (At ss rc) \<longleftrightarrow> created \<and> rc = 0 \<and> list_all quiet ss \<and> (joined \<longrightarrow> ss = [])"
| "pc_ok created joined (InCall ss) \<longleftrightarrow> False"

definition uinv :: "world \<Rightarrow> bool" where
  "uinv w \<longleftrightarrow> usys w = sys_init 0 \<and> main_ok (umain w) \<and>
     (\<forall>i<THR_COUNT. pc_ok (i < created_upto (umain w)) (i < joined_upto (umain w)) (pcs w i))"

text \<open>The steps a thread and \<open>main\<close> have left.\<close>

fun pc_left :: "nat \<Rightarrow> pc \<Rightarrow> nat" where
  "pc_left i NotCreated = length (t_tab ! i)"
| "pc_left i (At ss rc) = length ss"
| "pc_left i (InCall ss) = Suc (length ss)"

fun main_left :: "main_pc \<Rightarrow> nat" where
  "main_left MInit = 18"
| "main_left (MCreate i) = 17 - i"
| "main_left MPause = 11"
| "main_left MSet = 10"
| "main_left MInSet = 10"
| "main_left (MNap rc) = 9"
| "main_left (MDisable rc) = 8"
| "main_left (MInDisable rc) = 8"
| "main_left (MJoin i rc) = 7 - i"
| "main_left (MDestroy rc) = 1"
| "main_left (MExit rc) = 0"

definition uleft :: "world \<Rightarrow> nat" where
  "uleft w = main_left (umain w) + (\<Sum>i<THR_COUNT. pc_left i (pcs w i))"

text \<open>The labels under which \<open>pthread_create\<close> succeeds.\<close>

definition creates :: "nat option \<times> move \<Rightarrow> bool" where
  "creates l \<longleftrightarrow> (case l of (None, Proceed r) \<Rightarrow> r = 0 | _ \<Rightarrow> True)"

lemma uinv_start: "uinv utest2_start"
  by (simp add: uinv_def utest2_start_def created_upto_def joined_upto_def)

lemma sum_pc_upd:
  assumes "i < THR_COUNT" "pc_left i (pcs w i) = d + pc_left i p"
  shows "(\<Sum>j<THR_COUNT. pc_left j (pcs w j)) = d + (\<Sum>j<THR_COUNT. pc_left j (((pcs w)(i := p)) j))"
proof -
  have "(\<Sum>j<THR_COUNT. pc_left j (((pcs w)(i := p)) j)) =
      pc_left i p + (\<Sum>j\<in>{..<THR_COUNT} - {i}. pc_left j (pcs w j))"
    using assms(1) by (simp add: sum.remove[of _ i])
  then show ?thesis
    using assms by (simp add: sum.remove[of "{..<THR_COUNT}" i])
qed

lemma uinvD:
  assumes "uinv w"
  shows "usys w = sys_init 0" "main_ok (umain w)"
    and "i < THR_COUNT \<Longrightarrow> pc_ok (i < created_upto (umain w)) (i < joined_upto (umain w)) (pcs w i)"
  using assms unfolding uinv_def by blast+

text \<open>A thread that moves on within its script.\<close>

lemma thread_moves:
  assumes "uinv w" "i < THR_COUNT" "pcs w i = At (s # ss) rc"
  shows "uinv (w\<lparr>pcs := (pcs w)(i := At ss 0)\<rparr>)"
    and "uleft w = Suc (uleft (w\<lparr>pcs := (pcs w)(i := At ss 0)\<rparr>))"
proof -
  have ok: "pc_ok (i < created_upto (umain w)) (i < joined_upto (umain w)) (pcs w i)"
    using uinvD(3)[OF assms(1,2)] .
  then show "uinv (w\<lparr>pcs := (pcs w)(i := At ss 0)\<rparr>)"
    using assms by (auto simp: uinv_def)
  show "uleft w = Suc (uleft (w\<lparr>pcs := (pcs w)(i := At ss 0)\<rparr>))"
    using sum_pc_upd[of i w 1 "At ss 0"] assms by (simp add: uleft_def)
qed

lemma thread_step_at:
  assumes "uinv w" "i < THR_COUNT" "pcs w i = At (s # ss) rc"
  shows "thread_step w i (Proceed r) = Some (Inr (w\<lparr>pcs := (pcs w)(i := At ss 0)\<rparr>))"
proof -
  have ok: "pc_ok (i < created_upto (umain w)) (i < joined_upto (umain w)) (pcs w i)"
    and u: "usys w = sys_init 0"
    using uinvD(3)[OF assms(1,2)] uinvD(1)[OF assms(1)] by blast+
  show ?thesis
  proof (cases s)
    case (Call c)
    then have "\<forall>b. c \<noteq> CActivate b"
      using ok assms(3) by auto
    then show ?thesis
      using call_step_init[OF u, of c i ss] assms(3) Call by simp
  qed (use ok assms(3) in simp)
qed

lemma thread_step_cases:
  assumes "uinv w" "i < THR_COUNT" "thread_step w i mv = Some r"
  obtains s ss rc where "pcs w i = At (s # ss) rc" "r = Inr (w\<lparr>pcs := (pcs w)(i := At ss 0)\<rparr>)"
proof -
  have ok: "pc_ok (i < created_upto (umain w)) (i < joined_upto (umain w)) (pcs w i)"
    using uinvD(3)[OF assms(1,2)] .
  obtain x s ss rc where "mv = Proceed x" "pcs w i = At (s # ss) rc"
    using assms(3) ok
    by (cases mv; cases "pcs w i") (auto simp: neq_Nil_conv split: list.splits)
  then show ?thesis
    using thread_step_at[OF assms(1,2)] assms(3) that by fastforce
qed


lemma ds_destroy_init: "ds_destroy alive (ds_init 0) = Inr []"
  by (simp add: ds_destroy_def ds_init_def)

text \<open>
  The three ways \<open>main\<close> moves on: by itself, creating a thread, joining one that has ended.
\<close>

lemma main_moves:
  assumes "uinv w" "created_upto m = created_upto (umain w)" "joined_upto m = joined_upto (umain w)"
    and "main_ok m" "main_left (umain w) = Suc (main_left m)"
  shows "uinv (w\<lparr>umain := m\<rparr>) \<and> uleft w = Suc (uleft (w\<lparr>umain := m\<rparr>))"
  using assms by (simp add: uinv_def uleft_def)

lemma create_moves:
  assumes inv: "uinv w" and m: "umain w = MCreate i" "created_upto m = Suc i" "joined_upto m = 0" "main_ok m"
      "main_left (umain w) = Suc (main_left m)"
  shows "uinv (w\<lparr>pcs := (pcs w)(i := At (t_tab ! i) 0), umain := m\<rparr>) \<and>
    uleft w = Suc (uleft (w\<lparr>pcs := (pcs w)(i := At (t_tab ! i) 0), umain := m\<rparr>))"
proof
  note D = uinvD[OF inv]
  have i: "i < THR_COUNT" "pcs w i = NotCreated"
    using D(2) D(3)[of i] m(1) by (cases "pcs w i"; simp add: created_upto_def)+
  have "pc_ok (j < Suc i) False (((pcs w)(i := At (t_tab ! i) 0)) j)" if "j < THR_COUNT" for j
    using D(3)[OF that] scripts_quiet[OF i(1)] m(1)
    by (cases "pcs w j") (auto simp: created_upto_def joined_upto_def)
  then show "uinv (w\<lparr>pcs := (pcs w)(i := At (t_tab ! i) 0), umain := m\<rparr>)"
    using D(1) m by (simp add: uinv_def)
  show "uleft w = Suc (uleft (w\<lparr>pcs := (pcs w)(i := At (t_tab ! i) 0), umain := m\<rparr>))"
    using sum_pc_upd[of i w 0 "At (t_tab ! i) 0"] i m(5) by (simp add: uleft_def)
qed

lemma join_moves:
  assumes inv: "uinv w" and m: "umain w = MJoin i rc" "pcs w i = At [] c" "created_upto m = THR_COUNT"
      "joined_upto m = Suc i" "main_ok m" "main_left (umain w) = Suc (main_left m)"
  shows "uinv (w\<lparr>umain := m\<rparr>) \<and> uleft w = Suc (uleft (w\<lparr>umain := m\<rparr>))"
proof -
  note D = uinvD[OF inv]
  have "pc_ok True (j < Suc i) (pcs w j)" if "j < THR_COUNT" for j
    using D(3)[OF that] m(1,2) that
    by (cases "pcs w j") (auto simp: created_upto_def joined_upto_def less_Suc_eq)
  then have "uinv (w\<lparr>umain := m\<rparr>)"
    using D(1) m by (simp add: uinv_def)
  then show ?thesis
    using m(6) by (simp add: uleft_def)
qed

lemmas upto_defs = created_upto_def joined_upto_def THR_COUNT_eq

lemma main_step_keeps:
  assumes inv: "uinv w" and l: "creates (None, mv)" and st: "main_step w mv = Some r"
  shows "\<exists>w'. r = Inr w' \<and> uinv w' \<and> uleft w = Suc (uleft w')"
proof -
  note D = uinvD[OF inv]
  have u: "(usys w)\<lparr>glob := ds_init 0\<rparr> = usys w" "glob (usys w) = ds_init 0"
    using D(1) by (simp_all add: sys_init_def)
  obtain x where mv: "mv = Proceed x" "x = 0"
    using st D(2) l by (cases mv; cases "umain w") (auto simp: creates_def)
  show ?thesis
  proof (cases "umain w")
    case (MCreate i)
    then show ?thesis
      using st mv D(2) create_moves[OF inv MCreate, of "if i + 1 < THR_COUNT then MCreate (i + 1) else MPause"]
      by (auto simp: upto_defs)
  next
    case (MJoin i rc)
    define m where "m = (if i + 1 < THR_COUNT then MJoin (i + 1) rc else MDestroy rc)"
    have i: "i < THR_COUNT" "rc = 0" "pcs w i \<noteq> NotCreated"
      using D(2) D(3)[of i] MJoin by (auto simp: created_upto_def)
    then obtain c where p: "pcs w i = At [] c" "r = Inr (w\<lparr>umain := m\<rparr>)"
      using st mv MJoin by (auto simp: join_step_def m_def split: pc.splits list.splits)
    then show ?thesis
      using join_moves[OF inv MJoin p(1), of m] i MJoin
      by (cases "i < 5") (auto simp: m_def upto_defs)
  next
    case MSet
    then show ?thesis
      using st mv main_call_init[OF D(1), of "CExec ''hollywood''" MNap MInSet] main_moves[OF inv, of "MNap 0"]
      by (auto simp: upto_defs)
  next
    case (MDisable rc)
    then show ?thesis
      using st mv D(2) main_call_init[OF D(1), of CDisableAll "\<lambda>_. MJoin 0 rc" "MInDisable rc"]
        main_moves[OF inv, of "MJoin 0 rc"] by (auto simp: upto_defs)
  qed (use st mv D(2) u main_moves[OF inv] in \<open>auto simp: upto_defs ds_destroy_init\<close>)
qed

lemma ustep_keeps:
  assumes "uinv w" "creates l" "ustep w l = Some r"
  shows "\<exists>w'. r = Inr w' \<and> uinv w' \<and> uleft w = Suc (uleft w')"
proof (cases "fst l")
  case None
  then show ?thesis
    using main_step_keeps[OF assms(1), of "snd l" r] assms by (cases l) auto
next
  case (Some i)
  then have i: "i < THR_COUNT" "thread_step w i (snd l) = Some r"
    using assms(3) by (cases l; auto split: if_splits)+
  from thread_step_cases[OF assms(1) i] thread_moves[OF assms(1) i(1)] show ?thesis
    by metis
qed

text \<open>While steps are left, \<open>main\<close> moves on or the thread it joins does.\<close>

lemma ustep_progress:
  assumes inv: "uinv w" and "0 < uleft w"
  shows "\<exists>l w'. creates l \<and> ustep w l = Some (Inr w')"
proof (cases "\<exists>i<THR_COUNT. \<exists>s ss rc. pcs w i = At (s # ss) rc")
  case True
  then obtain i s ss rc where "i < THR_COUNT" "pcs w i = At (s # ss) rc"
    by blast
  then have "ustep w (Some i, Proceed 0) = Some (Inr (w\<lparr>pcs := (pcs w)(i := At ss 0)\<rparr>))"
    using thread_step_at[OF inv] by simp
  then show ?thesis
    by (intro exI[of _ "(Some i, Proceed 0)"]) (auto simp: creates_def)
next
  case False
  have ended: "\<exists>c. pcs w i = At [] c" if "i < THR_COUNT" "i < created_upto (umain w)" for i
    using False uinvD(3)[OF inv, of i] that by (cases "pcs w i") (auto, metis list.exhaust)
  have "umain w \<noteq> MExit rc" for rc
  proof
    assume e: "umain w = MExit rc"
    have "pc_left i (pcs w i) = 0" if "i < THR_COUNT" for i
      using ended[of i] that e by (auto simp: created_upto_def)
    then show False
      using assms(2) e by (simp add: uleft_def)
  qed
  moreover have "\<exists>r. join_step w i rc = Some r" if "umain w = MJoin i rc" for i rc
    using uinvD(2)[OF inv] ended[of i] that by (auto simp: join_step_def created_upto_def)
  ultimately have "\<exists>r. main_step w (Proceed 0) = Some r"
    using uinvD(1,2)[OF inv] main_call_init[of w] by (cases "umain w") auto
  then show ?thesis
    using main_step_keeps[OF inv, of "Proceed 0"]
    by (intro exI[of _ "(None, Proceed 0)"]) (auto simp: creates_def)
qed

interpretation ut: countdown ustep uinv creates uleft
proof
  show "uinv w' \<and> uleft w = Suc (uleft w')" if "uinv w" "creates l" "ustep w l = Some (Inr w')" for w l w'
    using ustep_keeps[OF that] by auto
  show "ustep w l \<noteq> Some (Inl e)" if "uinv w" "creates l" for w l and e :: fault
    using ustep_keeps[OF that, of "Inl e"] by auto
  show "\<exists>l w'. creates l \<and> ustep w l = Some (Inr w')" if "uinv w" "0 < uleft w" for w
    using ustep_progress[OF that] .
qed

lemma uleft_start: "uleft utest2_start = 40"
  by (simp add: uleft_def utest2_start_def THR_COUNT_eq lessThan_nat_numeral lessThan_Suc
      t_tab_def run_def syncpt_def)

lemma exit_iff: "uinv w \<Longrightarrow> uleft w = 0 \<longleftrightarrow> umain w = MExit 0"
proof
  assume inv: "uinv w" and z: "uleft w = 0"
  have "main_left (umain w) = 0"
    using z by (simp add: uleft_def)
  then show "umain w = MExit 0"
    using uinvD(2)[OF inv] by (cases "umain w") (auto simp: THR_COUNT_eq)
next
  assume inv: "uinv w" and e: "umain w = MExit 0"
  have "pc_left i (pcs w i) = 0" if "i < THR_COUNT" for i
    using uinvD(3)[OF inv that] e that
    by (cases "pcs w i") (auto simp: created_upto_def joined_upto_def)
  then show "uleft w = 0"
    using e by (simp add: uleft_def)
qed

text \<open>
  C17: when the threads can be created, the unit test ends whatever the interleaving: no
  assertion fails and no call blocks, at most 40 steps are made, the run can always go on until
  \<open>main\<close> returns, which it does with 0 after exactly 40 steps; the facility is left as
  \<open>ds_init(0)\<close> made it all along, so no point is ever created: the test passes through the
  unlocked tests only.
\<close>

theorem utest2_ends:
  assumes "list_all creates ls" and "steps ustep utest2_start ls = Some r"
  shows "\<exists>w. r = Inr w \<and> length ls \<le> 40 \<and> glob (usys w) = ds_init 0 \<and>
    (umain w = MExit 0 \<longleftrightarrow> length ls = 40) \<and>
    (\<exists>more w'. list_all creates more \<and> steps ustep w more = Some (Inr w') \<and> umain w' = MExit 0)"
proof -
  obtain w where w: "r = Inr w" "uinv w" "uleft utest2_start = length ls + uleft w"
    using ut.run_down[OF uinv_start assms] by blast
  obtain more w' where more: "list_all creates more" "steps ustep w more = Some (Inr w')" "uleft w' = 0"
    using ut.can_complete[OF w(2)] by blast
  then have "uinv w'"
    using ut.run_down[OF w(2)] by blast
  then have "umain w' = MExit 0"
    using exit_iff more(3) by blast
  moreover have "umain w = MExit 0 \<longleftrightarrow> length ls = 40"
    using exit_iff[OF w(2)] w(3) by (auto simp: uleft_start)
  ultimately show ?thesis
    using w more uinvD(1)[OF w(2)] by (auto simp: uleft_start)
qed


text \<open>A complete run: \<open>main\<close> up to the joins, the threads one after the other, the joins.\<close>

theorem utest2_ends_witness:
  "\<exists>w. steps ustep utest2_start (replicate 11 (None, Proceed 0) @
       concat (map (\<lambda>i. replicate 4 (Some i, Proceed 0)) [0, 1, 2, 5]) @
       concat (map (\<lambda>i. replicate 3 (Some i, Proceed 0)) [3, 4]) @ replicate 7 (None, Proceed 0)) =
     Some (Inr w) \<and> umain w = MExit 0 \<and> glob (usys w) = ds_init 0"
proof -
  let ?ls = "replicate 11 (None, Proceed 0) @
       concat (map (\<lambda>i. replicate 4 (Some i, Proceed 0)) [0, 1, 2, 5]) @
       concat (map (\<lambda>i. replicate 3 (Some i, Proceed 0)) [3, 4]) @ replicate 7 (None, Proceed 0)"
  have "(case steps ustep utest2_start ?ls of None \<Rightarrow> False | Some r \<Rightarrow> True)"
    by code_simp
  then obtain r where r: "steps ustep utest2_start ?ls = Some r"
    by (auto split: option.splits)
  have "list_all creates ?ls" "length ?ls = 40"
    by (simp_all add: creates_def eval_nat_numeral)
  then show ?thesis
    using utest2_ends[OF _ r] r by auto
qed

text \<open>A failing \<open>pthread_create\<close>: the first join is of a thread that does not exist.\<close>

lemma utest2_create_fails:
  "steps ustep utest2_start [(None, Proceed 0), (None, Proceed EAGAIN), (None, Proceed 0),
     (None, Proceed 0), (None, Proceed 0)] = Some (Inl BadPointer)"
  by (simp add: utest2_start_def main_call_def invoke_def sys_init_def join_step_def ds_init_def
      local_inactive_def)

end
