(* ===== verification/Printf.thy ===== *)
theory Printf
  imports Prelude
begin

text \<open>
  The conversions of \<open>printf\<close> the programs print their numbers with: \<open>%ld\<close>, and \<open>%06ld\<close> and
  \<open>%09ld\<close>, which fill with zeros after the sign.  A \<open>long\<close> is an \<open>int\<close>, a text a list of characters.
\<close>

section \<open>Printing\<close>

definition digit :: "nat \<Rightarrow> char" where
  "digit d = ''0123456789'' ! d"

fun digits :: "nat \<Rightarrow> string" where
  "digits n = (if n < 10 then [digit n] else digits (n div 10) @ [digit (n mod 10)])"

declare digits.simps [simp del]

definition fmt_0ld :: "nat \<Rightarrow> int \<Rightarrow> string" where
  "fmt_0ld w i =
     (let sign = (if i < 0 then ''-'' else []); ds = digits (nat \<bar>i\<bar>) in
      sign @ replicate (w - (length sign + length ds)) CHR ''0'' @ ds)"

definition fmt_ld :: "int \<Rightarrow> string" where
  "fmt_ld i = fmt_0ld 0 i"

section \<open>Reading back\<close>

definition digit_val :: "char \<Rightarrow> nat" where
  "digit_val c = of_char c - 48"

definition digits_val :: "string \<Rightarrow> nat" where
  "digits_val = foldl (\<lambda>n c. 10 * n + digit_val c) 0"

definition read_ld :: "string \<Rightarrow> int" where
  "read_ld s = (case s of c # cs \<Rightarrow> if c = CHR ''-'' then - int (digits_val cs) else int (digits_val s) | [] \<Rightarrow> 0)"

definition num_char :: "char \<Rightarrow> bool" where
  "num_char c \<longleftrightarrow> c \<in> set ''-0123456789''"

lemma digit_cases:
  fixes d :: nat
  assumes "d < 10"
  obtains "d = 0" | "d = 1" | "d = 2" | "d = 3" | "d = 4" | "d = 5" | "d = 6" | "d = 7" | "d = 8" | "d = 9"
proof -
  have "d = 0 \<or> d = 1 \<or> d = 2 \<or> d = 3 \<or> d = 4 \<or> d = 5 \<or> d = 6 \<or> d = 7 \<or> d = 8 \<or> d = 9"
    using assms by presburger
  then show ?thesis
    using that by blast
qed

lemma digit_facts:
  assumes "d < 10"
  shows "digit_val (digit d) = d" and "digit d \<in> set ''0123456789''"
  using assms by (cases rule: digit_cases; simp add: digit_val_def digit_def)+

lemma digits_not_Nil [simp]: "digits n \<noteq> []"
  by (subst digits.simps) simp

lemma set_digits: "set (digits n) \<subseteq> set ''0123456789''"
proof (induction n rule: digits.induct)
  case (1 n)
  show ?case
  proof (cases "n < 10")
    case True
    then show ?thesis
      using digit_facts(2)[OF True] by (subst digits.simps) simp
  next
    case False
    then show ?thesis
      using 1 digit_facts(2)[of "n mod 10"] by (subst digits.simps) simp
  qed
qed

lemma digits_val_snoc: "digits_val (s @ [c]) = 10 * digits_val s + digit_val c"
  by (simp add: digits_val_def)

lemma digits_val_digits [simp]: "digits_val (digits n) = n"
proof (induction n rule: digits.induct)
  case (1 n)
  show ?case
  proof (cases "n < 10")
    case True
    then show ?thesis
      by (subst digits.simps) (simp add: digits_val_def digit_facts)
  next
    case False
    then show ?thesis
      using 1 by (subst digits.simps) (simp add: digits_val_snoc digit_facts)
  qed
qed

lemma digits_val_zeros [simp]: "digits_val (replicate k CHR ''0'' @ s) = digits_val s"
  by (induction k) (simp_all add: digits_val_def digit_val_def)

text \<open>The number of digits: a number below \<open>10 ^ w\<close> fits in the width.\<close>

lemma length_digits_le: "n < 10 ^ w \<Longrightarrow> 0 < w \<Longrightarrow> length (digits n) \<le> w"
proof (induction n arbitrary: w rule: digits.induct)
  case (1 n)
  show ?case
  proof (cases "n < 10")
    case True
    then show ?thesis
      using 1 by (subst digits.simps) simp
  next
    case False
    with 1 obtain v where v: "w = Suc v" "0 < v"
      by (cases w; cases "w - 1") auto
    then have "n div 10 < 10 ^ v"
      using 1 by (simp add: div_less_iff_less_mult)
    then show ?thesis
      using 1(1)[OF False, of v] v False by (subst digits.simps) simp
  qed
qed

lemma fmt_0ld_chars: "list_all num_char (fmt_0ld w i)"
  using set_digits[of "nat \<bar>i\<bar>"]
  by (auto simp: fmt_0ld_def num_char_def Let_def list_all_iff)

lemma hd_zeros_digits: "hd (replicate k CHR ''0'' @ digits n) \<noteq> CHR ''-''"
  using set_digits[of n] by (cases k; cases "digits n") auto

lemma read_fmt [simp]: "read_ld (fmt_0ld w i) = i"
proof (cases "i < 0")
  case True
  then show ?thesis
    by (simp add: fmt_0ld_def read_ld_def Let_def)
next
  case False
  define s where "s = replicate (w - length (digits (nat i))) CHR ''0'' @ digits (nat i)"
  have "s \<noteq> []" "hd s \<noteq> CHR ''-''" "digits_val s = nat i"
    using hd_zeros_digits by (simp_all add: s_def)
  then have "read_ld s = i"
    using False by (cases s) (auto simp: read_ld_def)
  then show ?thesis
    using False by (simp add: fmt_0ld_def s_def Let_def)
qed

lemma fmt_inject: "fmt_0ld w i = fmt_0ld w j \<longleftrightarrow> i = j"
  by (metis read_fmt)

text \<open>A nonnegative number below \<open>10 ^ w\<close> is printed with exactly \<open>w\<close> digits.\<close>

lemma length_fmt: "0 \<le> i \<Longrightarrow> i < 10 ^ w \<Longrightarrow> 0 < w \<Longrightarrow> length (fmt_0ld w i) = w"
  using length_digits_le[of "nat i" w] by (simp add: fmt_0ld_def Let_def nat_less_iff)

text \<open>A number is delimited by the first character that belongs to no number.\<close>

lemma num_prefix:
  assumes "list_all num_char s" "list_all num_char s'" "\<not> num_char c" "\<not> num_char c'"
  shows "s @ c # r = s' @ c' # r' \<longleftrightarrow> s = s' \<and> c = c' \<and> r = r'"
  using assms
proof (induction s arbitrary: s')
  case Nil
  then show ?case by (cases s') auto
next
  case (Cons a s)
  then show ?case by (cases s') auto
qed

lemma fmt_peel:
  "\<not> num_char c \<Longrightarrow> \<not> num_char c' \<Longrightarrow> fmt_0ld w i @ c # r = fmt_0ld w j @ c' # r' \<longleftrightarrow> i = j \<and> c = c' \<and> r = r'"
  by (simp add: num_prefix fmt_0ld_chars fmt_inject)

lemmas fmt_simps = fmt_ld_def fmt_peel num_char_def fmt_inject

end
