(* ===== verification/PrfmDump.thy ===== *)
theory PrfmDump
  imports Prof Printf
begin

text \<open>
  \<open>prof/prfm.c\<close>: the text \<open>prfm_dump\<close> writes.  The caller's format and its arguments are one text,
  already formatted; the stream takes what is written.
\<close>

section \<open>The text\<close>

definition nl :: char where "nl = CHR 0x0A"
definition tab :: char where "tab = CHR 0x09"

definition rusage_dump :: "rusage \<Rightarrow> string" where
  "rusage_dump u =
     ''== resource usage:'' @ [nl] @
     ''  user_time: '' @ fmt_ld (tv_sec (ru_utime u)) @ ''.'' @ fmt_0ld 6 (tv_usec (ru_utime u)) @
     '', sys_time: '' @ fmt_ld (tv_sec (ru_stime u)) @ ''.'' @ fmt_0ld 6 (tv_usec (ru_stime u)) @ [nl] @
     ''  maxrss: '' @ fmt_ld (ru_maxrss u) @ '', ixrss: '' @ fmt_ld (ru_ixrss u) @
     '', idrss: '' @ fmt_ld (ru_idrss u) @ '', isrss: '' @ fmt_ld (ru_isrss u) @ [nl] @
     ''  minflt: '' @ fmt_ld (ru_minflt u) @ '', majflt: '' @ fmt_ld (ru_majflt u) @
     '', nswap='' @ fmt_ld (ru_nswap u) @ [nl] @
     ''  inblock: '' @ fmt_ld (ru_inblock u) @ '', outblock: '' @ fmt_ld (ru_oublock u) @
     '', msgsnd: '' @ fmt_ld (ru_msgsnd u) @ '', msgrcv: '' @ fmt_ld (ru_msgrcv u) @ [nl] @
     ''  nsignals: '' @ fmt_ld (ru_nsignals u) @ '', nvcsw: '' @ fmt_ld (ru_nvcsw u) @
     '', nivcsw: '' @ fmt_ld (ru_nivcsw u) @ [nl] @ ''=='' @ [nl]"

definition tmspec_dump :: "timespec \<Rightarrow> string" where
  "tmspec_dump t =
     ''== time:'' @ [tab] @ fmt_ld (ts_sec t) @ ''.'' @ fmt_0ld 9 (ts_nsec t) @ [nl]"

definition prfm_dump :: "string option \<Rightarrow> prfm \<Rightarrow> string" where
  "prfm_dump msg r =
     (case msg of Some s \<Rightarrow> s | None \<Rightarrow> []) @
     (if flags r AND prfm_TIME \<noteq> 0 then tmspec_dump (tm (accum r)) else []) @
     (if flags r AND prfm_RUSAGE \<noteq> 0 then rusage_dump (ru (accum r)) else [])"

section \<open>The text determines the numbers\<close>

lemmas dump_chars = nl_def tab_def append_assoc append_Cons append_Nil list.inject fmt_simps

lemma tmspec_dump_peel:
  "tmspec_dump t @ r = tmspec_dump t' @ r' \<longleftrightarrow> t = t' \<and> r = r'"
  by (cases t; cases t') (simp add: tmspec_dump_def dump_chars)

lemma rusage_dump_inject: "rusage_dump u = rusage_dump u' \<longleftrightarrow> u = u'"
proof
  assume eq: "rusage_dump u = rusage_dump u'"
  obtain s us where u: "ru_utime u = Timeval s us" by (cases "ru_utime u")
  obtain s' us' where u': "ru_utime u' = Timeval s' us'" by (cases "ru_utime u'")
  obtain v vs where v: "ru_stime u = Timeval v vs" by (cases "ru_stime u")
  obtain v' vs' where v': "ru_stime u' = Timeval v' vs'" by (cases "ru_stime u'")
  show "u = u'"
    using eq u u' v v' by (auto simp: rusage_dump_def dump_chars intro!: rusage.equality)
qed simp


text \<open>What a dump is to show: the accumulated metrics the flags select.\<close>

definition dumped :: "prfm \<Rightarrow> timespec option \<times> rusage option" where
  "dumped r =
     (if flags r AND prfm_TIME \<noteq> 0 then Some (tm (accum r)) else None,
      if flags r AND prfm_RUSAGE \<noteq> 0 then Some (ru (accum r)) else None)"

definition dump_time :: "timespec option \<Rightarrow> string" where
  "dump_time t = (case t of None \<Rightarrow> [] | Some t \<Rightarrow> tmspec_dump t)"

definition dump_usage :: "rusage option \<Rightarrow> string" where
  "dump_usage u = (case u of None \<Rightarrow> [] | Some u \<Rightarrow> rusage_dump u)"

lemma prfm_dump_dumped:
  "prfm_dump msg r = (case msg of Some s \<Rightarrow> s | None \<Rightarrow> []) @
     dump_time (fst (dumped r)) @ dump_usage (snd (dumped r))"
  by (simp add: prfm_dump_def dumped_def dump_time_def dump_usage_def split: option.split)

lemma tmspec_dump_head: "\<exists>r. tmspec_dump t = ''== time'' @ r"
  by (simp add: tmspec_dump_def)

lemma rusage_dump_head: "\<exists>r. rusage_dump u = ''== resource'' @ r"
  by (simp add: rusage_dump_def)

lemma dump_usage_inject: "dump_usage u = dump_usage u' \<longleftrightarrow> u = u'"
  using rusage_dump_head rusage_dump_inject
  by (auto simp: dump_usage_def split: option.splits) (metis append_is_Nil_conv list.discI)+

lemma dump_inject:
  "dump_time t @ dump_usage u = dump_time t' @ dump_usage u' \<longleftrightarrow> t = t' \<and> u = u'"
proof (cases t; cases t')
  assume "t = None" "t' = None"
  then show ?thesis
    by (simp add: dump_time_def dump_usage_inject)
next
  fix a b assume "t = Some a" "t' = Some b"
  then show ?thesis
    by (simp add: dump_time_def tmspec_dump_peel dump_usage_inject)
next
  fix a assume t: "t = None" "t' = Some a"
  obtain r where "tmspec_dump a = ''== time'' @ r"
    using tmspec_dump_head by blast
  moreover have "dump_usage u = [] \<or> (\<exists>r. dump_usage u = ''== resource'' @ r)"
    using rusage_dump_head by (auto simp: dump_usage_def split: option.splits)
  ultimately show ?thesis
    using t by (auto simp: dump_time_def)
next
  fix a assume t: "t = Some a" "t' = None"
  obtain r where "tmspec_dump a = ''== time'' @ r"
    using tmspec_dump_head by blast
  moreover have "dump_usage u' = [] \<or> (\<exists>r. dump_usage u' = ''== resource'' @ r)"
    using rusage_dump_head by (auto simp: dump_usage_def split: option.splits)
  ultimately show ?thesis
    using t by (auto simp: dump_time_def)
qed

text \<open>
  C34: the text of a dump determines everything it is to show: two probes are dumped alike (under
  the same heading) exactly when their flags select the same metrics and these are equal, the
  time to the nanosecond and all sixteen counters.
\<close>

theorem prfm_dump_faithful:
  "prfm_dump msg r = prfm_dump msg r' \<longleftrightarrow> dumped r = dumped r'"
  by (simp add: prfm_dump_dumped dump_inject prod_eq_iff)

text \<open>
  A normal time is printed as its seconds and exactly nine digits of the nanoseconds, which are
  the decimal places.
\<close>

theorem tmspec_dump_decimal:
  assumes "ts_normal t"
  shows "\<exists>frac. tmspec_dump t = ''== time:'' @ [tab] @ fmt_ld (ts_sec t) @ ''.'' @ frac @ [nl] \<and>
    length frac = 9 \<and> read_ld frac = ts_nsec t"
  using assms length_fmt[of "ts_nsec t" 9]
  by (intro exI[of _ "fmt_0ld 9 (ts_nsec t)"]) (simp add: tmspec_dump_def ts_normal_def)

text \<open>
  A negative time is not read off its text: half a second before zero is normalized to
  \<open>-1\<close> second and \<open>500000000\<close> nanoseconds and printed as -1.5.
\<close>

lemma tmspec_dump_negative:
  "tmspec_dump (timespecsub (Timespec 0 0) (Timespec 0 500000000)) = ''== time:'' @ [tab] @ ''-1.500000000'' @ [nl]"
  by (simp add: tmspec_dump_def timespecsub_def Let_def fmt_ld_def fmt_0ld_def digits.simps digit_def)

end
