(* ===== verification/Iorly.thy ===== *)
theory Iorly
  imports Prelude
begin

unbundle bit_operations_syntax

text \<open>
  \<open>fdwatch/iorly.c\<close>: the beginnings of a relay over \<open>kqueue\<close>.  The file does not compile; it is
  read as follows.  In \<open>evl_ensure_avail\<close> the undeclared \<open>p\<close> is a local pointer and \<open>ev\<close> is \<open>evl\<close>;
  \<open>kq\<close> in an assertion is \<open>g_kq\<close>; \<open>struct fdr\<close> is \<open>struct fdrec\<close>; \<open>| =\<close> is \<open>|=\<close>, \<open>ctx.changes\<close> is
  \<open>ctx->changes\<close>; \<open>g_srv\<close> is a \<open>struct server_ctx\<close> and \<open>i\<close> an index.  \<open>fdrl_init\<close> and \<open>fdrl_expand\<close> are
  called but not written: they are parameters.  The answers of \<open>realloc\<close>, \<open>fstat\<close> and \<open>kqueue\<close> are
  parameters too.
\<close>

section \<open>The event list\<close>

datatype kfilt = EVFILT_VNODE | EVFILT_READ

text \<open>A change to register: the descriptor, the filter and the index of the record, if any.\<close>

record kchange =
  cident :: int
  cfilter :: kfilt
  cudata :: "nat option"

text \<open>The array: none, a block (with indeterminate entries) or a pointer to freed memory.\<close>

datatype kptr = NoBlock | Block "kchange option list" | Freed

record ev_list =
  ke :: kptr
  len :: int
  capacity :: nat

definition EVL_MIN_EXT :: nat where "EVL_MIN_EXT = 100"
definition EVL_MAX_LEN :: nat where "EVL_MAX_LEN = 10000"

definition krealloc :: "kptr \<Rightarrow> nat \<Rightarrow> kptr cresult" where
  "krealloc p n =
     (case p of
        NoBlock \<Rightarrow> Inr (Block (replicate n None))
      | Block ks \<Rightarrow> Inr (Block (take n ks @ replicate (n - length ks) None))
      | Freed \<Rightarrow> Inl BadPointer)"

text \<open>\<open>mem\<close> is the error of \<open>realloc\<close>, if it fails; then the block is released, not the pointer reset.\<close>

definition evl_ensure_avail :: "int option \<Rightarrow> ev_list \<Rightarrow> nat \<Rightarrow> (ev_list \<times> int) cresult" where
  "evl_ensure_avail mem evl n =
     cbind (cassert (0 < n)) (\<lambda>_.
     if size_add (to_size (len evl)) n < capacity evl then Inr (evl, 0)
     else
       (let nblocks = (if n div EVL_MIN_EXT \<noteq> 0 then n div EVL_MIN_EXT else 1);
            new_capacity = size_add (capacity evl) nblocks in
        if EVL_MAX_LEN < new_capacity then Inr (evl, EOVERFLOW)
        else
          cbind (krealloc (ke evl) new_capacity) (\<lambda>p.
          case mem of
            Some err \<Rightarrow> Inr (if ke evl \<noteq> NoBlock then evl\<lparr>ke := Freed\<rparr> else evl, err)
          | None \<Rightarrow> Inr (evl\<lparr>ke := p, capacity := new_capacity\<rparr>, 0))))"

definition get_stat_mode :: "u32 option \<Rightarrow> int \<Rightarrow> (int \<times> u32 option) cresult" where
  "get_stat_mode sb fd =
     cbind (cassert (0 \<le> fd)) (\<lambda>_.
     case sb of None \<Rightarrow> Inr (-1, None) | Some st_mode \<Rightarrow> Inr (0, Some st_mode))"

definition S_ISREG :: "u32 \<Rightarrow> bool" where
  "S_ISREG m \<longleftrightarrow> m AND 0xF000 = 0x8000"

text \<open>\<open>EV_SET\<close> of the entry \<open>i\<close>.\<close>

definition ev_set :: "ev_list \<Rightarrow> nat \<Rightarrow> kchange \<Rightarrow> ev_list cresult" where
  "ev_set evl i c =
     (case ke evl of
        Block ks \<Rightarrow> cbind (aset ks (int i) (Some c)) (\<lambda>ks. Inr (evl\<lparr>ke := Block ks\<rparr>))
      | _ \<Rightarrow> Inl BadPointer)"

definition kq_reader_add ::
  "int \<Rightarrow> u32 option \<Rightarrow> int option \<Rightarrow> ev_list \<Rightarrow> int \<Rightarrow> nat option \<Rightarrow> (ev_list \<times> int) cresult" where
  "kq_reader_add kq sb mem events fd udata =
     cbind (cassert (0 < kq \<and> 0 \<le> fd)) (\<lambda>_.
     cbind (get_stat_mode sb fd) (\<lambda>(rc, st_mode).
     if rc \<noteq> 0 then Inr (events, -1)
     else
       (let mode = (case st_mode of None \<Rightarrow> 0 | Some m \<Rightarrow> m) in
        cbind (evl_ensure_avail mem events (if S_ISREG mode then 2 else 1)) (\<lambda>(events, rc).
        if rc \<noteq> 0 then Inr (events, -1)
        else
          (let i = to_size (len events) in
           cbind
             (if S_ISREG mode then
                cbind (ev_set events i \<lparr>cident = fd, cfilter = EVFILT_VNODE, cudata = udata\<rparr>) (\<lambda>events.
                Inr (events\<lparr>len := len events + 1\<rparr>, size_add i 1))
              else Inr (events, i)) (\<lambda>(events, i).
           cbind (ev_set events i \<lparr>cident = fd, cfilter = EVFILT_READ, cudata = udata\<rparr>) (\<lambda>events.
           Inr (events\<lparr>len := len events + 1\<rparr>, 0))))))))"

section \<open>The records of the clients\<close>

definition INFO_EOF :: u32 where "INFO_EOF = 1"
definition INFO_DST :: u32 where "INFO_DST = 2"

record fdrec =
  rfd :: int
  fdio_flags :: u32
  src_offset :: int
  info :: u32

record fdr_list =
  first_empty :: int
  max_taken :: int
  recs :: "fdrec list option"
  fcount :: nat
  fcapacity :: nat

definition FDRL_INITIAL_LEN :: nat where "FDRL_INITIAL_LEN = 100"
definition FDRL_EXT :: nat where "FDRL_EXT = 50"

text \<open>The two functions that are not written: the new list, or nothing on an error.\<close>

record fdrl_funs =
  fdrl_init :: "fdr_list \<Rightarrow> nat \<Rightarrow> fdr_list option"
  fdrl_expand :: "fdr_list \<Rightarrow> nat \<Rightarrow> fdr_list option"

text \<open>The assertion made twice: signed indices, the capacity unsigned.\<close>

definition first_empty_ok :: "fdr_list \<Rightarrow> bool" where
  "first_empty_ok l \<longleftrightarrow> 0 \<le> first_empty l \<and> first_empty l \<le> max_taken l + 1 \<and>
     to_size (first_empty l) < fcapacity l"

text \<open>The loop for the next empty record, up to \<open>lim\<close> and below \<open>cap\<close>; -1 when there is none.\<close>

function next_empty :: "fdrec list \<Rightarrow> nat \<Rightarrow> nat \<Rightarrow> nat \<Rightarrow> int cresult" where
  "next_empty rs lim cap i =
     (if i \<le> lim \<and> i < cap then
        cbind (aget rs (int i)) (\<lambda>r. if rfd r = -1 then Inr (int i) else next_empty rs lim cap (i + 1))
      else Inr (-1))"
  by pat_completeness auto

termination
  by (relation "measure (\<lambda>(rs, lim, cap, i). cap - i)") auto

declare next_empty.simps [simp del]

definition fdrl_add :: "fdrl_funs \<Rightarrow> fdr_list \<Rightarrow> int \<Rightarrow> (fdr_list \<times> nat option) cresult" where
  "fdrl_add F fdrl fd =
     cbind (cassert (0 \<le> fd)) (\<lambda>_.
     case (if recs fdrl = None then fdrl_init F fdrl FDRL_INITIAL_LEN else Some fdrl) of
       None \<Rightarrow> Inr (fdrl, None)
     | Some fdrl \<Rightarrow>
         (case (if fcapacity fdrl \<le> to_size (max_taken fdrl) then
                  map_option (\<lambda>l. l\<lparr>first_empty := to_ssize (size_add (to_size (max_taken fdrl)) 1)\<rparr>)
                    (fdrl_expand F fdrl FDRL_EXT)
                else Some fdrl) of
            None \<Rightarrow> Inr (fdrl, None)
          | Some fdrl \<Rightarrow>
              cbind (cassert (first_empty_ok fdrl)) (\<lambda>_.
              let r = nat (first_empty fdrl) in
              cbind (case recs fdrl of None \<Rightarrow> Inl BadPointer | Some rs \<Rightarrow>
                  aset rs (int r) \<lparr>rfd = fd, fdio_flags = 0, src_offset = 0, info = 0\<rparr>) (\<lambda>rs.
              let fdrl = fdrl\<lparr>recs := Some rs\<rparr>;
                  fdrl = (if max_taken fdrl < first_empty fdrl then fdrl\<lparr>max_taken := first_empty fdrl\<rparr> else fdrl) in
              cbind (next_empty rs (to_size (max_taken fdrl + 1)) (fcapacity fdrl) (r + 1)) (\<lambda>e.
              let fdrl = fdrl\<lparr>first_empty := e\<rparr> in
              cbind (cassert (first_empty_ok fdrl)) (\<lambda>_.
              Inr (fdrl\<lparr>fcount := fcount fdrl + 1\<rparr>, Some r)))))))"

section \<open>The server\<close>

record server_ctx =
  src_fd :: int
  idle_tmout :: int
  events :: ev_list
  changes :: ev_list
  in_dst :: int
  in_sig :: int
  dst :: fdr_list

text \<open>The answers for one registration: \<open>fstat\<close> and \<open>realloc\<close>.\<close>

type_synonym reg_answer = "u32 option \<times> int option"

definition add_dst ::
  "fdrl_funs \<Rightarrow> int \<Rightarrow> reg_answer \<Rightarrow> server_ctx \<Rightarrow> int \<Rightarrow> (server_ctx \<times> int) cresult" where
  "add_dst F kq a ctx fd =
     cbind (cassert (0 \<le> fd)) (\<lambda>_.
     cbind (fdrl_add F (dst ctx) fd) (\<lambda>(l, r).
     case r of
       None \<Rightarrow> Inr (ctx\<lparr>dst := l\<rparr>, -1)
     | Some r \<Rightarrow>
         (let l = l\<lparr>recs := map_option (\<lambda>rs. rs[r := (rs ! r)\<lparr>info := info (rs ! r) OR INFO_DST\<rparr>]) (recs l)\<rparr> in
          cbind (kq_reader_add kq (fst a) (snd a) (changes ctx) fd (Some r)) (\<lambda>(evl, rc).
          Inr (ctx\<lparr>dst := l, changes := evl\<rparr>, rc)))))"

text \<open>How \<open>server_loop\<close> ends: it returns a code, or it is in its empty endless loop.\<close>

datatype server_end = Returned int | Spinning

fun add_all ::
  "fdrl_funs \<Rightarrow> int \<Rightarrow> (nat \<Rightarrow> reg_answer) \<Rightarrow> nat \<Rightarrow> int list \<Rightarrow> server_ctx \<Rightarrow> (server_ctx \<times> int) cresult" where
  "add_all F kq ans k [] srv = Inr (srv, 0)"
| "add_all F kq ans k (fd # fds) srv =
     cbind (add_dst F kq (ans k) srv fd) (\<lambda>(srv, rc).
     if rc \<noteq> 0 then Inr (srv, -1) else add_all F kq ans (k + 1) fds srv)"

definition reg_opt ::
  "int \<Rightarrow> reg_answer \<Rightarrow> bool \<Rightarrow> int \<Rightarrow> server_ctx \<Rightarrow> (server_ctx \<times> int) cresult" where
  "reg_opt kq a wanted fd srv =
     (if wanted then
        cbind (kq_reader_add kq (fst a) (snd a) (changes srv) fd None) (\<lambda>(evl, rc).
        Inr (srv\<lparr>changes := evl\<rparr>, rc))
      else Inr (srv, 0))"

text \<open>\<open>kq\<close> is the answer of \<open>kqueue\<close>, \<open>g_kq\<close> the variable before.\<close>

definition server_loop ::
  "fdrl_funs \<Rightarrow> int \<Rightarrow> int \<Rightarrow> (nat \<Rightarrow> reg_answer) \<Rightarrow> int list option \<Rightarrow> server_ctx \<Rightarrow>
   (server_ctx \<times> server_end) cresult" where
  "server_loop F g_kq kq ans fds srv =
     cbind (cassert (g_kq = 0)) (\<lambda>_.
     if kq = -1 then Inr (srv, Returned (-1))
     else
       cbind (reg_opt kq (ans 0) True (src_fd srv) srv) (\<lambda>(srv, rc).
       if rc \<noteq> 0 then Inr (srv, Returned (-1))
       else
         cbind (reg_opt kq (ans 1) (0 < in_dst srv) (in_dst srv) srv) (\<lambda>(srv, rc).
         if rc \<noteq> 0 then Inr (srv, Returned (-1))
         else
           cbind (reg_opt kq (ans 2) (in_sig srv \<noteq> 0) (in_sig srv) srv) (\<lambda>(srv, rc).
           if rc \<noteq> 0 then Inr (srv, Returned (-1))
           else
             cbind (add_all F kq ans 3 (case fds of None \<Rightarrow> [] | Some l \<Rightarrow> l) srv) (\<lambda>(srv, rc).
             if rc \<noteq> 0 then Inr (srv, Returned (-1)) else Inr (srv, Spinning))))))"


section \<open>Registrations\<close>

text \<open>A list whose block is as long as its entries: the state between any two registrations.\<close>

definition entries :: "ev_list \<Rightarrow> kchange option list" where
  "entries evl = (case ke evl of Block ks \<Rightarrow> ks | _ \<Rightarrow> [])"

definition evl_full :: "ev_list \<Rightarrow> bool" where
  "evl_full evl \<longleftrightarrow> len evl = int (capacity evl) \<and> length (entries evl) = capacity evl \<and>
     capacity evl \<le> EVL_MAX_LEN \<and> (ke evl = NoBlock \<or> (\<exists>ks. ke evl = Block ks))"

lemma krealloc_more:
  "evl_full evl \<Longrightarrow> krealloc (ke evl) (capacity evl + 1) = Inr (Block (entries evl @ [None]))"
  by (auto simp: evl_full_def krealloc_def entries_def)

lemma evl_room:
  assumes "evl_full evl" "0 < n" "n < EVL_MIN_EXT"
  shows "evl_ensure_avail None evl n =
    (if capacity evl < EVL_MAX_LEN
     then Inr (evl\<lparr>ke := Block (entries evl @ [None]), capacity := capacity evl + 1\<rparr>, 0)
     else Inr (evl, EOVERFLOW))"
proof -
  have "n div EVL_MIN_EXT = 0" "capacity evl \<le> 10000" "len evl = int (capacity evl)"
    using assms by (simp_all add: evl_full_def EVL_MAX_LEN_def)
  moreover from this have "size_add (capacity evl) 1 = capacity evl + 1" "to_size (len evl) = capacity evl"
      "size_add (to_size (len evl)) n = capacity evl + n"
    using assms(3) by (simp_all add: EVL_MIN_EXT_def)
  ultimately show ?thesis
    using assms(2) krealloc_more[OF assms(1)] by (simp add: evl_ensure_avail_def Let_def EVL_MAX_LEN_def)
qed

lemma get_stat_fine: "0 \<le> fd \<Longrightarrow> get_stat_mode (Some m) fd = Inr (0, Some m)"
  by (simp add: get_stat_mode_def)

text \<open>
  Anything but a regular file: the change is appended, and the list grows by the one entry it needs;
  at 10000 entries the registration fails.
\<close>

lemma add_pipe:
  assumes "evl_full evl" "0 < kq" "0 \<le> fd" "\<not> S_ISREG m"
  shows "kq_reader_add kq (Some m) None evl fd u =
    (if capacity evl < EVL_MAX_LEN
     then Inr (evl\<lparr>ke := Block (entries evl @ [Some \<lparr>cident = fd, cfilter = EVFILT_READ, cudata = u\<rparr>]),
       len := len evl + 1, capacity := capacity evl + 1\<rparr>, 0)
     else Inr (evl, -1))"
proof -
  have l: "len evl = int (capacity evl)" "length (entries evl) = capacity evl" "capacity evl < 2 ^ 64"
    using assms(1) by (simp_all add: evl_full_def EVL_MAX_LEN_def)
  have "(entries evl @ [None])[capacity evl := x] = entries evl @ [x]" for x
    using l(2) by (metis list_update_length)
  then show ?thesis
    using assms(2-4) l evl_room[OF assms(1), of 1]
    by (cases evl) (simp add: kq_reader_add_def get_stat_fine Let_def ev_set_def EVL_MIN_EXT_def)
qed

lemma evl_full_add:
  "evl_full evl \<Longrightarrow> capacity evl < EVL_MAX_LEN \<Longrightarrow>
   evl_full (evl\<lparr>ke := Block (entries evl @ [x]), len := len evl + 1, capacity := capacity evl + 1\<rparr>)"
  by (simp add: evl_full_def entries_def)

text \<open>A regular file: two entries are written into room for one.\<close>

lemma add_regular:
  assumes "evl_full evl" "capacity evl < EVL_MAX_LEN" "0 < kq" "0 \<le> fd" "S_ISREG m"
  shows "kq_reader_add kq (Some m) None evl fd u = Inl OutOfBounds"
proof -
  have l: "len evl = int (capacity evl)" "length (entries evl) = capacity evl" "capacity evl < 2 ^ 63"
    using assms(1) by (simp_all add: evl_full_def EVL_MAX_LEN_def)
  have "aset (entries evl @ [None]) (int (capacity evl)) (Some c) = Inr (entries evl @ [Some c])" for c
    using l(2) by (simp add: list_update_append)
  moreover have "aset (entries evl @ [x]) (int (capacity evl + 1)) y = Inl OutOfBounds" for x y
    using l(2) by (simp add: aset_def)
  ultimately show ?thesis
    using assms(2-5) l(1,3) evl_room[OF assms(1), of 2]
    by (cases evl) (simp add: kq_reader_add_def get_stat_fine Let_def ev_set_def EVL_MIN_EXT_def)
qed

text \<open>Registrations one after the other.\<close>

fun reader_adds :: "int \<Rightarrow> ev_list \<Rightarrow> (int \<times> u32) list \<Rightarrow> (ev_list \<times> int) cresult" where
  "reader_adds kq evl [] = Inr (evl, 0)"
| "reader_adds kq evl ((fd, m) # fs) =
     cbind (kq_reader_add kq (Some m) None evl fd None) (\<lambda>(evl, rc).
     if rc \<noteq> 0 then Inr (evl, rc) else reader_adds kq evl fs)"

definition read_change :: "int \<Rightarrow> kchange option" where
  "read_change fd = Some \<lparr>cident = fd, cfilter = EVFILT_READ, cudata = None\<rparr>"

definition pipes :: "(int \<times> u32) list \<Rightarrow> bool" where
  "pipes fs \<longleftrightarrow> list_all (\<lambda>(fd, m). 0 \<le> fd \<and> \<not> S_ISREG m) fs"

definition evl_empty :: ev_list where
  "evl_empty = \<lparr>ke = NoBlock, len = 0, capacity = 0\<rparr>"

lemma reader_adds_pipes:
  assumes "evl_full evl" "0 < kq" "pipes fs" "capacity evl + length fs \<le> EVL_MAX_LEN"
  shows "\<exists>evl'. reader_adds kq evl fs = Inr (evl', 0) \<and> evl_full evl' \<and>
    entries evl' = entries evl @ map (read_change \<circ> fst) fs"
  using assms
proof (induction fs arbitrary: evl)
  case (Cons f fs)
  obtain fd m where f: "f = (fd, m)" "0 \<le> fd" "\<not> S_ISREG m"
    using Cons.prems(3) by (cases f) (simp add: pipes_def)
  have cap: "capacity evl < EVL_MAX_LEN"
    using Cons.prems(4) by simp
  define evl1 where "evl1 = evl\<lparr>ke := Block (entries evl @ [read_change fd]), len := len evl + 1,
    capacity := capacity evl + 1\<rparr>"
  have "kq_reader_add kq (Some m) None evl fd None = Inr (evl1, 0)"
    using add_pipe[OF Cons.prems(1,2) f(2,3), of None] cap by (simp add: evl1_def read_change_def)
  moreover have "evl_full evl1" "capacity evl1 = capacity evl + 1" "entries evl1 = entries evl @ [read_change fd]"
    using evl_full_add[OF Cons.prems(1) cap] by (simp_all add: evl1_def entries_def)
  ultimately show ?case
    using Cons.IH[of evl1] Cons.prems f by (simp add: pipes_def)
qed (simp add: evl_full_def)

lemma reader_adds_append:
  "reader_adds kq evl fs = Inr (evl', 0) \<Longrightarrow> reader_adds kq evl (fs @ gs) = reader_adds kq evl' gs"
  by (induction fs arbitrary: evl) (auto simp: cbind_eq_Inr split: if_splits prod.splits)

text \<open>
  Descriptors that are not regular files are registered in order, up to 10000 of them, and
  the list is exactly filled; the first regular file among them is written behind its end, since
  the list grows by one entry whatever number is asked for.
\<close>

theorem iorly_registrations:
  assumes "0 < kq" and "pipes fs" and "length fs < EVL_MAX_LEN" and "0 \<le> fd" and "S_ISREG m"
  shows "(\<exists>evl. reader_adds kq evl_empty fs = Inr (evl, 0) \<and> capacity evl = length fs \<and>
      entries evl = map (read_change \<circ> fst) fs) \<and>
    reader_adds kq evl_empty (fs @ (fd, m) # gs) = Inl OutOfBounds"
proof -
  have "evl_full evl_empty"
    by (simp add: evl_full_def evl_empty_def entries_def)
  from reader_adds_pipes[OF this assms(1,2)] assms(3) obtain evl where
    evl: "reader_adds kq evl_empty fs = Inr (evl, 0)" "evl_full evl" "entries evl = map (read_change \<circ> fst) fs"
    by (auto simp: evl_empty_def entries_def)
  then have "capacity evl = length fs"
    by (simp add: evl_full_def)
  then show ?thesis
    using evl reader_adds_append[OF evl(1)] add_regular[OF evl(2) _ assms(1,4,5)] assms(3) by simp
qed

theorem iorly_registrations_witness:
  "reader_adds 5 evl_empty [(3, 0x1000), (4, 0xC000), (6, 0x81A4)] = Inl OutOfBounds"
  using iorly_registrations[of 5 "[(3, 0x1000), (4, 0xC000)]" 6 "0x81A4" "[]"]
  by (simp add: pipes_def S_ISREG_def EVL_MAX_LEN_def)


section \<open>The record of a new client\<close>

text \<open>
  A list in use: at least one record is taken, nothing is taken beyond \<open>max_taken\<close>, and
  \<open>first_empty\<close> is the first empty record.
\<close>

definition fdrl_ok :: "fdr_list \<Rightarrow> fdrec list \<Rightarrow> bool" where
  "fdrl_ok l rs \<longleftrightarrow> recs l = Some rs \<and> length rs = fcapacity l \<and> fcapacity l < 2 ^ 62 \<and>
     0 \<le> max_taken l \<and> max_taken l < int (fcapacity l) \<and>
     0 \<le> first_empty l \<and> first_empty l < int (fcapacity l) \<and>
     rfd (rs ! nat (first_empty l)) = -1 \<and>
     (\<forall>j<nat (first_empty l). rfd (rs ! j) \<noteq> -1) \<and>
     (\<forall>j<fcapacity l. max_taken l < int j \<longrightarrow> rfd (rs ! j) = -1)"

lemma next_empty_found:
  assumes "j < length rs" "i \<le> j" "j \<le> lim" "rfd (rs ! j) = -1" "\<And>k. i \<le> k \<Longrightarrow> k < j \<Longrightarrow> rfd (rs ! k) \<noteq> -1"
  shows "next_empty rs lim (length rs) i = Inr (int j)"
  using assms(2,5)
proof (induction "j - i" arbitrary: i)
  case 0
  then show ?case
    using assms(1,3,4) by (subst next_empty.simps) auto
next
  case (Suc n)
  then have "next_empty rs lim (length rs) (i + 1) = Inr (int j)" "rfd (rs ! i) \<noteq> -1" "i < j"
    by auto
  then show ?case
    using assms(1,3) by (subst next_empty.simps) simp
qed

lemma next_empty_none:
  assumes "\<And>k. i \<le> k \<Longrightarrow> k \<le> lim \<Longrightarrow> k < length rs \<Longrightarrow> rfd (rs ! k) \<noteq> -1"
  shows "next_empty rs lim (length rs) i = Inr (-1)"
  using assms
proof (induction "length rs - i" arbitrary: i)
  case 0
  then show ?case
    by (subst next_empty.simps) simp
next
  case (Suc n)
  have "next_empty rs lim (length rs) (i + 1) = Inr (-1)"
    using Suc by auto
  then show ?case
    using Suc.prems[of i] by (subst next_empty.simps) simp
qed

lemma least_empty:
  fixes rs :: "fdrec list"
  assumes "\<exists>j. r < j \<and> j < length rs \<and> rfd (rs ! j) = -1"
  obtains j where "r < j" "j < length rs" "rfd (rs ! j) = -1" "\<And>k. r < k \<Longrightarrow> k < j \<Longrightarrow> rfd (rs ! k) \<noteq> -1"
proof -
  define j where "j = (LEAST j. r < j \<and> j < length rs \<and> rfd (rs ! j) = -1)"
  have "r < j \<and> j < length rs \<and> rfd (rs ! j) = -1"
    unfolding j_def by (rule LeastI_ex[OF assms])
  moreover have "rfd (rs ! k) \<noteq> -1" if "r < k" "k < j" for k
    using not_less_Least[of k "\<lambda>j. r < j \<and> j < length rs \<and> rfd (rs ! j) = -1"] that calculation
    by (auto simp: j_def[symmetric])
  ultimately show ?thesis
    using that by blast
qed

definition new_rec :: "int \<Rightarrow> fdrec" where
  "new_rec fd = \<lparr>rfd = fd, fdio_flags = 0, src_offset = 0, info = 0\<rparr>"

text \<open>The list after the new record, up to the search for the next empty one.\<close>

definition fdrl_taken :: "fdr_list \<Rightarrow> fdrec list \<Rightarrow> int \<Rightarrow> fdr_list" where
  "fdrl_taken l rs e = l\<lparr>recs := Some rs, max_taken := max (max_taken l) (first_empty l), first_empty := e\<rparr>"

lemma fdrl_add_eq:
  assumes ok: "fdrl_ok l rs" and "0 \<le> fd"
  defines "rs' \<equiv> rs[nat (first_empty l) := new_rec fd]"
  shows "fdrl_add F l fd =
    cbind (next_empty rs' (nat (max (max_taken l) (first_empty l) + 1)) (length rs') (nat (first_empty l) + 1)) (\<lambda>e.
    cbind (cassert (first_empty_ok (fdrl_taken l rs' e))) (\<lambda>_.
    Inr ((fdrl_taken l rs' e)\<lparr>fcount := fcount l + 1\<rparr>, Some (nat (first_empty l)))))"
proof -
  have l: "recs l = Some rs" "length rs = fcapacity l" "fcapacity l < 2 ^ 62" "0 \<le> max_taken l"
      "max_taken l < int (fcapacity l)" "0 \<le> first_empty l" "first_empty l < int (fcapacity l)"
    using ok by (simp_all add: fdrl_ok_def)
  have le: "first_empty l \<le> max_taken l + 1"
  proof (rule ccontr)
    assume "\<not> first_empty l \<le> max_taken l + 1"
    then have "nat (max_taken l + 1) < nat (first_empty l)" "max_taken l + 1 < int (fcapacity l)"
      using l by auto
    moreover from this have "nat (max_taken l + 1) < fcapacity l" "max_taken l < int (nat (max_taken l + 1))"
      using l(4) by auto
    ultimately show False
      using ok unfolding fdrl_ok_def by blast
  qed
  have sz: "to_size (max_taken l) = nat (max_taken l)" "to_size (first_empty l) = nat (first_empty l)"
      "to_size (max_taken l + 1) = nat (max_taken l + 1)" "to_size (first_empty l + 1) = nat (first_empty l + 1)"
    using l by auto
  have "nat (max_taken l) < fcapacity l" "nat (first_empty l) < fcapacity l"
    using l by auto
  then have c: "first_empty_ok l" "\<not> fcapacity l \<le> to_size (max_taken l)"
      "aset rs (int (nat (first_empty l))) (new_rec fd) = Inr rs'"
    using l le sz by (simp_all add: first_empty_ok_def rs'_def)
  have m: "(if max_taken l < first_empty l then l\<lparr>recs := Some rs', max_taken := first_empty l\<rparr> else l\<lparr>recs := Some rs'\<rparr>) =
      l\<lparr>recs := Some rs', max_taken := max (max_taken l) (first_empty l)\<rparr>"
    by (cases l) auto
  show ?thesis
    using assms(2) l(1,2) c
    by (simp add: fdrl_add_def Let_def m sz new_rec_def[symmetric] fdrl_taken_def rs'_def)
qed

lemma fdrl_okD:
  assumes "fdrl_ok l rs"
  shows "length rs = fcapacity l" "fcapacity l < 2 ^ 62" "0 \<le> max_taken l" "max_taken l < int (fcapacity l)"
    "first_empty l = int (nat (first_empty l))" "nat (first_empty l) < fcapacity l"
    "j < nat (first_empty l) \<Longrightarrow> rfd (rs ! j) \<noteq> -1"
    "j < fcapacity l \<Longrightarrow> max_taken l < int j \<Longrightarrow> rfd (rs ! j) = -1"
  using assms by (auto simp: fdrl_ok_def)

text \<open>The next empty record is at most one behind the last one taken.\<close>

lemma next_within:
  assumes "fdrl_ok l rs" "nat (first_empty l) < j" "j < length rs"
    and "\<And>k. nat (first_empty l) < k \<Longrightarrow> k < j \<Longrightarrow> rfd (rs ! k) \<noteq> -1"
  shows "j \<le> nat (max (max_taken l) (first_empty l) + 1)"
proof (rule ccontr)
  define i where "i = nat (max (max_taken l) (first_empty l) + 1)"
  assume "\<not> j \<le> nat (max (max_taken l) (first_empty l) + 1)"
  then have "i < j" "nat (first_empty l) < i" "max_taken l < int i"
    using fdrl_okD(3)[OF assms(1)] assms(1) by (auto simp: i_def fdrl_ok_def)
  then show False
    using assms(3) assms(4)[of i] fdrl_okD(1)[OF assms(1)] fdrl_okD(8)[OF assms(1), of i] by auto
qed

lemma fdrl_ok_next:
  assumes ok: "fdrl_ok l rs" and "0 \<le> fd" and j: "nat (first_empty l) < j" "j < length rs" "rfd (rs ! j) = -1"
    "\<And>k. nat (first_empty l) < k \<Longrightarrow> k < j \<Longrightarrow> rfd (rs ! k) \<noteq> -1"
  defines "rs' \<equiv> rs[nat (first_empty l) := new_rec fd]"
  shows "fdrl_ok ((fdrl_taken l rs' (int j))\<lparr>fcount := fcount l + 1\<rparr>) rs'"
    and "first_empty_ok (fdrl_taken l rs' (int j))"
proof -
  note D = fdrl_okD[OF ok]
  have rs': "length rs' = fcapacity l" "rfd (rs' ! nat (first_empty l)) = fd"
      "\<And>k. k \<noteq> nat (first_empty l) \<Longrightarrow> rs' ! k = rs ! k"
    using D(1,6) by (simp_all add: rs'_def new_rec_def)
  have "rfd (rs' ! k) \<noteq> -1" if "k < j" for k
    using that j(4)[of k] D(7)[of k] rs'(2) rs'(3)[of k] assms(2)
    by (cases "k = nat (first_empty l)"; cases "k < nat (first_empty l)") auto
  moreover have "rfd (rs' ! k) = -1" if "k < fcapacity l" "max (max_taken l) (first_empty l) < int k" for k
  proof -
    have "0 \<le> first_empty l"
      using ok by (simp add: fdrl_ok_def)
    then have "k \<noteq> nat (first_empty l)"
      using that(2) by auto
    then show ?thesis
      using that D(8)[of k] rs'(3)[of k] by simp
  qed
  ultimately show "fdrl_ok ((fdrl_taken l rs' (int j))\<lparr>fcount := fcount l + 1\<rparr>) rs'"
    using D(1-6) j(1-3) rs'(1,3) by (auto simp: fdrl_ok_def fdrl_taken_def)
  show "first_empty_ok (fdrl_taken l rs' (int j))"
    using next_within[OF ok j(1,2,4)] D(1-3) j(2) by (auto simp: first_empty_ok_def fdrl_taken_def)
qed

lemma fdrl_add_room:
  assumes ok: "fdrl_ok l rs" and "0 \<le> fd" and other: "\<exists>j<length rs. j \<noteq> nat (first_empty l) \<and> rfd (rs ! j) = -1"
  shows "\<exists>l'. fdrl_add F l fd = Inr (l', Some (nat (first_empty l))) \<and>
      fdrl_ok l' (rs[nat (first_empty l) := new_rec fd]) \<and> fcount l' = fcount l + 1"
proof -
  define rs' where "rs' = rs[nat (first_empty l) := new_rec fd]"
  have "\<exists>j>nat (first_empty l). j < length rs \<and> rfd (rs ! j) = -1"
    using other fdrl_okD(7)[OF ok] by (metis linorder_neqE_nat)
  then obtain j where j: "nat (first_empty l) < j" "j < length rs" "rfd (rs ! j) = -1"
      "\<And>k. nat (first_empty l) < k \<Longrightarrow> k < j \<Longrightarrow> rfd (rs ! k) \<noteq> -1"
    by (elim least_empty) blast
  have "next_empty rs' (nat (max (max_taken l) (first_empty l) + 1)) (length rs') (nat (first_empty l) + 1) = Inr (int j)"
    using next_within[OF ok j(1,2,4)] j by (intro next_empty_found) (auto simp: rs'_def)
  then show ?thesis
    using fdrl_add_eq[OF assms(1,2)] fdrl_ok_next[OF assms(1,2) j]
    by (simp add: fdrl_taken_def flip: rs'_def)
qed

lemma fdrl_add_last:
  assumes "fdrl_ok l rs" "0 \<le> fd" "\<not> (\<exists>j<length rs. j \<noteq> nat (first_empty l) \<and> rfd (rs ! j) = -1)"
  shows "fdrl_add F l fd = Inl AssertFailed"
proof -
  define rs' where "rs' = rs[nat (first_empty l) := new_rec fd]"
  have "next_empty rs' (nat (max (max_taken l) (first_empty l) + 1)) (length rs') (nat (first_empty l) + 1) = Inr (-1)"
    using assms(3) by (intro next_empty_none) (auto simp: rs'_def)
  then show ?thesis
    using fdrl_add_eq[OF assms(1,2)] by (simp add: first_empty_ok_def fdrl_taken_def flip: rs'_def)
qed

text \<open>
  A client is entered in the first empty record, if there is another empty one, and
  the list stays well-formed; the client that takes the last record is entered and then fails
  the closing assertion.
\<close>

theorem iorly_new_client:
  assumes "fdrl_ok l rs" and "0 \<le> fd"
  shows "if \<exists>j<length rs. j \<noteq> nat (first_empty l) \<and> rfd (rs ! j) = -1
    then \<exists>l'. fdrl_add F l fd = Inr (l', Some (nat (first_empty l))) \<and>
      fdrl_ok l' (rs[nat (first_empty l) := new_rec fd]) \<and> fcount l' = fcount l + 1
    else fdrl_add F l fd = Inl AssertFailed"
  using fdrl_add_room[OF assms] fdrl_add_last[OF assms] by simp

definition iorly_list :: "nat \<Rightarrow> fdr_list" where
  "iorly_list n = \<lparr>first_empty = 1, max_taken = 0, recs = Some (new_rec 4 # replicate n (new_rec (-1))),
     fcount = 1, fcapacity = Suc n\<rparr>"

theorem iorly_new_client_witness:
  "fdrl_add \<lparr>fdrl_init = \<lambda>l n. None, fdrl_expand = \<lambda>l n. None\<rparr> (iorly_list 1) 7 = Inl AssertFailed"
proof -
  let ?rs = "[new_rec 4, new_rec (-1)]"
  have "fdrl_ok (iorly_list 1) ?rs"
    by (auto simp: fdrl_ok_def iorly_list_def new_rec_def less_Suc_eq nth_Cons')
  moreover have "\<not> (\<exists>j<length ?rs. j \<noteq> nat (first_empty (iorly_list 1)) \<and> rfd (?rs ! j) = -1)"
    by (auto simp: iorly_list_def new_rec_def less_Suc_eq nth_Cons' split: if_splits)
  ultimately show ?thesis
    using iorly_new_client[of "iorly_list 1" ?rs 7] by (simp only: if_False)
qed

text \<open>
  With nothing taken, \<open>max_taken\<close> is -1, which as an unsigned number is not below the capacity: the
  first client makes an empty list grow.
\<close>

lemma empty_list_expands:
  "0 \<le> fd \<Longrightarrow> recs l = Some rs \<Longrightarrow> max_taken l = -1 \<Longrightarrow> fcapacity l < 2 ^ 63 \<Longrightarrow>
   fdrl_expand F l FDRL_EXT = None \<Longrightarrow> fdrl_add F l fd = Inr (l, None)"
  by (simp add: fdrl_add_def to_size_def)

text \<open>The server never ends well: it returns -1 or stays in its empty loop.\<close>

lemma server_end_codes:
  "server_loop F g_kq kq ans fds srv = Inr (srv', e) \<Longrightarrow> e = Returned (-1) \<or> e = Spinning"
  by (auto simp: server_loop_def cbind_eq_Inr split: if_splits prod.splits)

end
