(* ===== verification/DebugSync_Release.thy ===== *)
theory DebugSync_Release
  imports DebugSync_Protocol
begin

text \<open>
  \<open>debugsync/debugsync.c\<close>, from the side of the thread that is held: it is released by as many
  calls of \<open>ds_unblock\<close> as there are blocked sections, and not by fewer.  Then the whole exchange of waiting
  threads and a held one.
\<close>

section \<open>One unblock\<close>

definition outside :: "thread \<Rightarrow> bool" where
  "outside th \<longleftrightarrow> (case th of Outside rc \<Rightarrow> True | _ \<Rightarrow> False)"

lemma outside_simps [simp]:
  "outside (Outside rc)" "outside (woken th) \<longleftrightarrow> outside th" "\<not> outside (ExecAt i b)"
  by (cases th; simp add: outside_def)+

text \<open>Thread \<open>t\<close> is held at point \<open>i\<close>, named \<open>n\<close>, with \<open>k\<close> sections left; with none left it is woken.\<close>

definition held_at :: "string \<Rightarrow> nat \<Rightarrow> nat \<Rightarrow> nat \<Rightarrow> sys \<Rightarrow> bool" where
  "held_at n t i k s \<longleftrightarrow> look_up n (glob s) = Some i \<and> \<not> inactive (glob s) \<and> thr s t = ExecAt i (0 < k) \<and>
     is_enabled (point (glob s) ! i) \<and> in_syncwait (point (glob s) ! i) = (0 < k) \<and>
     nblocked (point (glob s) ! i) = k"

lemma not_inactive_local: "\<not> inactive g \<Longrightarrow> \<not> local_inactive g"
proof -
  have "(DS_ACTIVE OR DS_GLOBAL) AND DS_ACTIVE = DS_ACTIVE"
    by (simp add: DS_ACTIVE_def DS_GLOBAL_def)
  then have "activation g AND DS_ACTIVE = (activation g AND (DS_ACTIVE OR DS_GLOBAL)) AND DS_ACTIVE"
    by (simp only: and.assoc)
  then show "\<not> inactive g \<Longrightarrow> \<not> local_inactive g"
    by (auto simp only: inactive_def local_inactive_def and_zero_eq zero_and_eq)
qed

lemma look_up_from_names:
  "map pname ps = map pname qs \<Longrightarrow> look_up_from n ps k = look_up_from n qs k"
proof (induction ps arbitrary: qs k)
  case (Cons p ps)
  then obtain q qs' where "qs = q # qs'" "pname q = pname p" "map pname ps = map pname qs'"
    by (metis list.simps(9) list.exhaust list.simps(8) list.inject list.distinct(1))
  then show ?case
    using Cons.IH[of qs' "Suc k"] by simp
qed simp

lemma look_up_names: "map pname (point g') = map pname (point g) \<Longrightarrow> look_up n g' = look_up n g"
  unfolding look_up_def by (rule look_up_from_names)

lemma ds_unblock_held:
  assumes "look_up n g = Some i" "\<not> inactive g" "nblocked (point g ! i) = Suc k"
  shows "\<exists>g'. ds_unblock n g = Inr (g', k = 0, Returns 0) \<and> look_up n g' = Some i \<and> \<not> inactive g' \<and>
    is_enabled (point g' ! i) = is_enabled (point g ! i) \<and> nblocked (point g' ! i) = k \<and>
    in_syncwait (point g' ! i) = (in_syncwait (point g ! i) \<and> 0 < k)"
proof -
  define g1 where "g1 = upd i (\<lambda>p. p\<lparr>nblocked := nblocked p - 1\<rparr>) g"
  define g2 where "g2 = upd i (\<lambda>p. p\<lparr>in_syncwait := False\<rparr>) g1"
  note i = look_up_lt[OF assms(1)]
  have n: "map pname (point g1) = map pname (point g)" "map pname (point g2) = map pname (point g)"
    by (simp_all add: g1_def g2_def)
  then have "look_up n g1 = Some i" "look_up n g2 = Some i"
    using assms(1) look_up_names by metis+
  moreover have "ds_unblock n g = (if k = 0 then Inr (g2, True, Returns 0) else Inr (g1, False, Returns 0))"
    using assms i by (simp add: ds_unblock_def g1_def g2_def Let_def)
  ultimately show ?thesis
    using assms(2,3) i
    by (cases "k = 0"; intro exI[of _ "if k = 0 then g2 else g1"]) (simp_all add: g1_def g2_def inactive_def)
qed

lemma held_unblock:
  assumes h: "held_at n t i (Suc k) s" and u: "u \<noteq> t" "outside (thr s u)"
  shows "\<exists>s'. ds_run s [(u, Invoke (CUnblock n)), (u, Lock mem)] = Some s' \<and> held_at n t i k s' \<and>
    thr s' u = Outside 0 \<and> (\<forall>v. v \<noteq> u \<longrightarrow> thr s' v = thr s v \<or> thr s' v = woken (thr s v))"
proof -
  obtain rc where rc: "thr s u = Outside rc"
    using u(2) by (cases "thr s u") (auto simp: outside_def)
  have g: "look_up n (glob s) = Some i" "\<not> inactive (glob s)" "nblocked (point (glob s) ! i) = Suc k"
    using h by (simp_all add: held_at_def)
  obtain g' where g': "ds_unblock n (glob s) = Inr (g', k = 0, Returns 0)" "look_up n g' = Some i" "\<not> inactive g'"
      "is_enabled (point g' ! i) = is_enabled (point (glob s) ! i)" "nblocked (point g' ! i) = k"
      "in_syncwait (point g' ! i) = (in_syncwait (point (glob s) ! i) \<and> 0 < k)"
    using ds_unblock_held[OF g] by blast
  define T where "T = (if k = 0 then woken \<circ> (thr s)(u := Entered (CUnblock n)) else (thr s)(u := Entered (CUnblock n)))
    (u := Outside 0)"
  have "ds_run s [(u, Invoke (CUnblock n)), (u, Lock mem)] = Some \<lparr>glob = g', thr = T\<rparr>"
    using rc g(2) g'(1) not_inactive_local
    by (simp add: invoke_def locked_def after_def settle_def T_def)
  moreover have "held_at n t i k \<lparr>glob = g', thr = T\<rparr>"
    using h g' u(1) by (auto simp: held_at_def T_def)
  moreover have "T v = thr s v \<or> T v = woken (thr s v)" if "v \<noteq> u" for v
    using that by (simp add: T_def)
  moreover have "T u = Outside 0"
    by (simp add: T_def)
  ultimately show ?thesis
    by (intro exI[of _ "\<lparr>glob = g', thr = T\<rparr>"]) simp
qed

text \<open>A wake-up, called for or not.\<close>

lemma held_resume:
  assumes "held_at n t i k s"
  shows "\<exists>s'. ds_run s [(t, Spurious), (t, Resume)] = Some s' \<and>
    thr s' t = (if k = 0 then Outside 0 else ExecAt i True) \<and> nblocked (point (glob s') ! i) = k"
  using assms look_up_lt[of n "glob s" i]
  by (auto simp: held_at_def ds_exec_loop_def after_def settle_def Let_def)

section \<open>Many unblocks\<close>

definition unblocks :: "string \<Rightarrow> nat list \<Rightarrow> (nat \<times> label) list" where
  "unblocks n us = concat (map (\<lambda>u. [(u, Invoke (CUnblock n)), (u, Lock True)]) us)"

lemma ds_run_append:
  "ds_run s (xs @ ys) = (case ds_run s xs of None \<Rightarrow> None | Some s' \<Rightarrow> ds_run s' ys)"
  by (induction xs arbitrary: s) (auto split: option.splits sum.splits)

lemma held_unblocks:
  assumes "held_at n t i k s" "list_all (\<lambda>u. u \<noteq> t \<and> outside (thr s u)) us" "length us \<le> k"
  shows "\<exists>s'. ds_run s (unblocks n us) = Some s' \<and> held_at n t i (k - length us) s'"
  using assms
proof (induction us arbitrary: s k)
  case Nil
  then show ?case
    by (simp add: unblocks_def)
next
  case (Cons u us)
  then obtain j where j: "k = Suc j"
    by (cases k) auto
  obtain s1 where s1: "ds_run s [(u, Invoke (CUnblock n)), (u, Lock True)] = Some s1" "held_at n t i j s1"
      "thr s1 u = Outside 0" "\<forall>v. v \<noteq> u \<longrightarrow> thr s1 v = thr s v \<or> thr s1 v = woken (thr s v)"
    using held_unblock[of n t i j s u True] Cons.prems j by auto
  then have "outside (thr s1 v)" if "outside (thr s v)" for v
    using that by (metis outside_simps(1,2))
  then have "list_all (\<lambda>u. u \<noteq> t \<and> outside (thr s1 u)) us"
    using Cons.prems(2) by (auto simp: list_all_iff)
  then obtain s' where "ds_run s1 (unblocks n us) = Some s'" "held_at n t i (j - length us) s'"
    using Cons.IH[OF s1(2)] Cons.prems(3) j by auto
  moreover have "unblocks n (u # us) = [(u, Invoke (CUnblock n)), (u, Lock True)] @ unblocks n us"
    by (simp add: unblocks_def)
  ultimately show ?case
    using s1(1) j by (simp only: ds_run_append option.case length_Cons diff_Suc_Suc) blast
qed

text \<open>
  C4: a thread asleep in \<open>ds_exec\<close> at a point with \<open>k\<close> blocked sections is released by \<open>k\<close> calls of
  \<open>ds_unblock\<close>, whoever makes them, and by no fewer: after \<open>j\<close> of them, a wake-up lets it return 0
  if \<open>j = k\<close>, and sends it back to sleep otherwise.
\<close>

theorem ds_exec_released:
  assumes "reachable fl s" and "thr s t = ExecAt i True" and "look_up n (glob s) = Some i"
    and "\<not> inactive (glob s)" and "list_all (\<lambda>u. u \<noteq> t \<and> outside (thr s u)) us"
    and "length us \<le> nblocked (point (glob s) ! i)"
  shows "\<exists>s'. ds_run s (unblocks n us @ [(t, Spurious), (t, Resume)]) = Some s' \<and>
    thr s' t = (if length us = nblocked (point (glob s) ! i) then Outside 0 else ExecAt i True)"
proof -
  have "held_at n t i (nblocked (point (glob s) ! i)) s"
    using sync_invD(2,3)[OF reachable_sync_inv[OF assms(1)]] assms(2-4) look_up_lt[OF assms(3)]
    by (auto simp: held_at_def)
  then obtain s1 where "ds_run s (unblocks n us) = Some s1"
      "held_at n t i (nblocked (point (glob s) ! i) - length us) s1"
    using held_unblocks assms(5,6) by blast
  then show ?thesis
    using held_resume assms(6) by (fastforce simp: ds_run_append)
qed

theorem ds_exec_released_witness:
  "\<exists>s'. ds_run held (unblocks ''p'' [2] @ [(1, Spurious), (1, Resume)]) = Some s' \<and> thr s' 1 = Outside 0"
  using ds_exec_released[OF held_reachable, of 1 0 "''p''" "[2]"]
  by (simp add: held_def look_up_def inactive_def DS_ACTIVE_def)

section \<open>The whole exchange\<close>











end
