(* ===== verification/Ftmspec.thy ===== *)
theory Ftmspec
  imports Printf
begin

text \<open>
  \<open>tmtest/ftmspec.c\<close>: the conversion of a number of seconds, given as a \<open>double\<close>, to a
  \<open>struct timespec\<close>.  A finite \<open>double\<close> is its sign, a significand of at most 53 bits and the exponent of
  its last bit; an operation on doubles is the exact one followed by rounding to 53 bits, to the
  nearest, ties to even.  The range of the exponent plays no part: the fraction and its nanoseconds
  are multiples of the last bit of the number, and they do not overflow.  \<open>time_t\<close> and \<open>long\<close> have 64
  bits.  \<open>atof\<close> is an argument.
\<close>

section \<open>Doubles\<close>

datatype double = Finite bool nat int | Infinite bool | NotANumber

text \<open>\<open>Finite s m e\<close> is \<open>m * 2 ^ e\<close>, negated if \<open>s\<close>.\<close>

definition double_ok :: "double \<Rightarrow> bool" where
  "double_ok d \<longleftrightarrow> (case d of Finite s m e \<Rightarrow> m < 2 ^ 53 \<and> - 1074 \<le> e \<and> e \<le> 971 | _ \<Rightarrow> True)"

text \<open>Numerator and denominator of \<open>m * 2 ^ e\<close>.\<close>

definition numer :: "nat \<Rightarrow> int \<Rightarrow> nat" where
  "numer m e = m * 2 ^ nat e"

definition denom :: "int \<Rightarrow> nat" where
  "denom e = 2 ^ nat (- e)"

definition le_zero :: "double \<Rightarrow> bool" where
  "le_zero d = (case d of Finite s m e \<Rightarrow> s \<or> m = 0 | Infinite s \<Rightarrow> s | NotANumber \<Rightarrow> False)"

text \<open>The nearest integer to \<open>a / b\<close>, ties to even.\<close>

definition round_even :: "nat \<Rightarrow> nat \<Rightarrow> nat" where
  "round_even a b =
     (let q = a div b; r = a mod b in if 2 * r < b \<or> (2 * r = b \<and> even q) then q else q + 1)"

text \<open>How many bits of a number are beyond 53, and the number rounded to 53 bits.\<close>

fun excess :: "nat \<Rightarrow> nat" where
  "excess n = (if n < 2 ^ 53 then 0 else Suc (excess (n div 2)))"

declare excess.simps [simp del]

definition round53 :: "nat \<Rightarrow> nat" where
  "round53 n = round_even n (2 ^ excess n) * 2 ^ excess n"

section \<open>The program\<close>

text \<open>
  \<open>floor\<close>, the subtraction and the multiplication are on numbers over the same denominator; the
  conversions to the integers of the struct cut the fraction off.  A value that the integer cannot hold
  leaves the result undefined (\<open>None\<close>).
\<close>

definition to_timespec :: "double \<Rightarrow> (nat \<times> nat) option" where
  "to_timespec dval =
     (case dval of
        Finite s m e \<Rightarrow>
          (let n = numer m e; d = denom e;
               tv_sec = n div d;
               frac = round53 (n - n div d * d);
               tv_nsec = round53 (frac * 1000000000) div d
           in if tv_sec < 2 ^ 63 then Some (tv_sec, tv_nsec) else None)
      | _ \<Rightarrow> None)"

text \<open>\<open>%.09f\<close> of a positive double: the exact value, rounded to nine decimals.\<close>

definition fmt_9f :: "nat \<Rightarrow> int \<Rightarrow> string" where
  "fmt_9f m e =
     (let p = round_even (numer m e * 10 ^ 9) (denom e)
      in fmt_ld (int (p div 10 ^ 9)) @ ''.'' @ fmt_0ld 9 (int (p mod 10 ^ 9)))"

text \<open>What \<open>main\<close> does: its exit code and the text on the two streams, or a value without a meaning.\<close>

datatype ending = Exits int string string | Undefined

definition eol :: string where
  "eol = [CHR 0x0A]"

definition ftmspec_main :: "(string \<Rightarrow> double) \<Rightarrow> string list \<Rightarrow> ending" where
  "ftmspec_main atof argv =
     (case argv of
        [] \<Rightarrow> Undefined
      | [name] \<Rightarrow> Exits 1 [] (''Usage: '' @ name @ '' double'' @ eol)
      | name # arg # _ \<Rightarrow>
          (let dval = atof arg in
           if le_zero dval then Exits 1 [] (''Invalid parameter value: '' @ name @ eol)
           else (case dval of
               Finite s m e \<Rightarrow>
                 (case to_timespec dval of
                    None \<Rightarrow> Undefined
                  | Some (tv_sec, tv_nsec) \<Rightarrow>
                      Exits 0 (''dval = '' @ fmt_9f m e @ eol @
                        ''tv_sec='' @ fmt_ld (int tv_sec) @ '', tv_nsec='' @ fmt_ld (int tv_nsec) @ eol) [])
             | _ \<Rightarrow> Undefined)))"

section \<open>Rounding\<close>

lemma denom_pos [simp]: "0 < denom e"
  by (simp add: denom_def)

text \<open>Rounding goes to one of the two neighbours, and not further than half a step.\<close>

lemma round_even_cases: "round_even a b = a div b \<or> round_even a b = a div b + 1"
  by (simp add: round_even_def Let_def)

lemma round_even_upper:
  assumes "0 < b"
  shows "2 * (round_even a b * b) \<le> 2 * a + b"
proof (cases "round_even a b = a div b")
  case True
  then show ?thesis
    unfolding True using div_times_less_eq_dividend[of a b] by linarith
next
  case False
  then have "b \<le> 2 * (a mod b)" "round_even a b = a div b + 1"
    by (auto simp: round_even_def Let_def split: if_splits)
  moreover have "a div b * b + a mod b = a"
    by simp
  ultimately show ?thesis
    by (simp only: add_mult_distrib mult_1 add_mult_distrib2)
qed

lemma excess_bounds: "n div 2 ^ excess n < 2 ^ 53" "0 < excess n \<Longrightarrow> 2 ^ (excess n + 52) \<le> n"
proof (induction n rule: excess.induct)
  case (1 n)
  { case 1 then show ?case
      using "1.IH"(1) by (subst excess.simps) (auto simp: div_mult2_eq)
  next
    case 2
    then have n: "\<not> n < 2 ^ 53"
      by (subst (asm) excess.simps) (simp split: if_splits)
    show ?case
    proof (cases "excess (n div 2)")
      case 0
      then show ?thesis
        using n by (subst excess.simps) simp
    next
      case (Suc k)
      then have "2 ^ (Suc k + 52) \<le> n div 2"
        using "1.IH"(2)[OF n] by simp
      then have "2 * 2 ^ (Suc k + 52) \<le> n"
        by linarith
      then show ?thesis
        using n Suc by (subst excess.simps) (simp add: power_add)
    qed }
qed

lemma round53_exact [simp]: "n < 2 ^ 53 \<Longrightarrow> round53 n = n"
  by (simp add: round53_def round_even_def excess.simps)

text \<open>On a number of at most 83 bits the error of the rounding is at most \<open>2 ^ 29\<close>.\<close>

lemma excess_le: "n < 2 ^ (53 + k) \<Longrightarrow> excess n \<le> k"
proof (rule ccontr)
  assume n: "n < 2 ^ (53 + k)" and "\<not> excess n \<le> k"
  then have "Suc k \<le> excess n"
    by simp
  then have "2 ^ (53 + k) \<le> (2::nat) ^ (excess n + 52)"
    by (intro power_increasing) simp_all
  then show False
    using n excess_bounds(2)[of n] \<open>Suc k \<le> excess n\<close> by linarith
qed

lemma round53_upper:
  assumes "n < 2 ^ 83"
  shows "round53 n \<le> n + 2 ^ 29"
proof -
  have "(2::nat) ^ excess n \<le> 2 ^ 30"
    using excess_le[of n 30] assms by (intro power_increasing) simp_all
  then show ?thesis
    using round_even_upper[of "2 ^ excess n" n] by (simp add: round53_def)
qed

text \<open>Rounding does not leave the interval between two neighbouring multiples of a larger power of two.\<close>

lemma round53_between:
  assumes "n div 2 ^ k < 2 ^ 52"
  shows "n div 2 ^ k * 2 ^ k \<le> round53 n" and "round53 n \<le> (n div 2 ^ k + 1) * 2 ^ k"
proof -
  define x where "x = excess n"
  have "x \<le> k"
  proof (rule ccontr)
    assume c: "\<not> x \<le> k"
    then have "2 ^ (52 + k) \<le> (2::nat) ^ (x + 52)"
      by (intro power_increasing) simp_all
    also have "\<dots> \<le> n"
      using c excess_bounds(2)[of n] by (simp add: x_def)
    finally have "2 ^ 52 \<le> n div 2 ^ k"
      by (simp add: less_eq_div_iff_mult_less_eq power_add)
    then show False
      using assms by simp
  qed
  then obtain y where k: "k = y + x"
    by (metis le_add_diff_inverse2)
  define q where "q = n div 2 ^ x"
  have nk: "n div 2 ^ (y + x) = q div 2 ^ y"
    by (simp add: q_def power_add div_mult2_eq mult.commute)
  have "q div 2 ^ y * 2 ^ y \<le> q"
    by (rule div_times_less_eq_dividend)
  moreover have "q < (q div 2 ^ y + 1) * 2 ^ y"
    using dividend_less_div_times[of "2 ^ y" q] by simp
  moreover have "q \<le> round_even n (2 ^ x)" "round_even n (2 ^ x) \<le> q + 1"
    using round_even_cases[of n "2 ^ x"] by (auto simp: q_def)
  ultimately have r: "q div 2 ^ y * 2 ^ y \<le> round_even n (2 ^ x)" "round_even n (2 ^ x) \<le> (q div 2 ^ y + 1) * 2 ^ y"
    by linarith+
  show "n div 2 ^ k * 2 ^ k \<le> round53 n"
    using mult_le_mono1[OF r(1), of "2 ^ x"]
    unfolding k nk round53_def x_def[symmetric] by (simp only: mult.assoc power_add)
  show "round53 n \<le> (n div 2 ^ k + 1) * 2 ^ k"
    using mult_le_mono1[OF r(2), of "2 ^ x"]
    unfolding k nk round53_def x_def[symmetric] by (simp only: mult.assoc power_add)
qed

section \<open>The conversion\<close>

lemma floor_part: "n - n div d * d = n mod (d::nat)"
  by (simp add: minus_div_mult_eq_mod)

lemma frac_bounds:
  assumes "m < 2 ^ 53"
  shows "numer m e mod denom e < denom e" and "numer m e mod denom e < 2 ^ 53"
proof -
  show "numer m e mod denom e < denom e"
    by simp
  have "numer m e mod denom e \<le> m"
    by (cases "0 \<le> e") (simp_all add: numer_def denom_def)
  then show "numer m e mod denom e < 2 ^ 53"
    using assms by simp
qed

lemma nsec_product:
  assumes "m < 2 ^ 53"
  shows "round53 (numer m e mod denom e * 1000000000) div denom e < 1000000000"
    and "numer m e mod denom e * 1000000000 div denom e < 1000000000"
proof -
  define f d where "f = numer m e mod denom e" and "d = denom e"
  have f: "f < d" "f < 2 ^ 53" "0 < d"
    using frac_bounds[OF assms] by (simp_all add: f_def d_def)
  then have "(f + 1) * 1000000000 \<le> d * 1000000000"
    by (intro mult_le_mono1) simp
  then have N: "f * 1000000000 + 1000000000 \<le> d * 1000000000"
    by simp
  have "round53 (f * 1000000000) \<le> f * 1000000000 + 2 ^ 29"
    using f by (intro round53_upper) simp
  also have "\<dots> < d * 1000000000"
    using N by simp
  finally show "round53 (numer m e mod denom e * 1000000000) div denom e < 1000000000"
    using f by (simp add: f_def d_def less_mult_imp_div_less mult.commute)
  show "numer m e mod denom e * 1000000000 div denom e < 1000000000"
    using N f by (simp add: f_def d_def less_mult_imp_div_less mult.commute)
qed

lemma nsec_near:
  fixes e :: int
  assumes "m < 2 ^ 53"
  defines "j \<equiv> numer m e mod denom e * 1000000000 div denom e"
  shows "round53 (numer m e mod denom e * 1000000000) div denom e \<in> {j, j + 1}"
proof -
  define N k where "N = numer m e mod denom e * 1000000000" and "k = nat (- e)"
  have d: "denom e = 2 ^ k"
    by (simp add: denom_def k_def)
  have j: "j = N div 2 ^ k"
    by (simp add: j_def N_def d)
  have "j < 2 ^ 52"
    using nsec_product(2)[OF assms(1), of e] by (simp add: j_def)
  then have "j * 2 ^ k \<le> round53 N" "round53 N \<le> (j + 1) * 2 ^ k"
    using round53_between[of N k] by (simp_all add: j)
  then have "j \<le> round53 N div 2 ^ k" "round53 N div 2 ^ k \<le> j + 1"
    using div_le_mono[of "round53 N" "(j + 1) * 2 ^ k" "2 ^ k"] by (simp_all add: less_eq_div_iff_mult_less_eq)
  then show ?thesis
    unfolding N_def d by auto
qed

lemma to_timespec_eq:
  assumes "m < 2 ^ 53" "numer m e div denom e < 2 ^ 63"
  shows "to_timespec (Finite s m e) =
    Some (numer m e div denom e, round53 (numer m e mod denom e * 1000000000) div denom e)"
  using assms frac_bounds(2)[OF assms(1), of e]
  by (simp add: to_timespec_def floor_part Let_def)

lemma scaled_div:
  assumes "0 < (d::nat)"
  shows "n * c div d = n div d * c + n mod d * c div d"
proof -
  have "n * c = (n div d * d + n mod d) * c"
    by simp
  also have "\<dots> = n mod d * c + d * (n div d * c)"
    unfolding add_mult_distrib by (simp only: ac_simps)
  finally show ?thesis
    using assms by (simp only: div_mult_self2 neq0_conv)
qed

text \<open>
  C39: for every double that is positive and whose whole seconds the struct can hold, \<open>ftmspec\<close> prints a
  proper time: the whole seconds are exact, the nanoseconds are below a second, and together they
  are the nanoseconds of the number rounded down or, because the product is rounded, one more.  The number is
  printed with the nearest nanosecond, so the two lines differ by at most one nanosecond.
\<close>

theorem ftmspec_converts:
  assumes "double_ok (Finite False m e)" and "0 < m" and "atof arg = Finite False m e"
    and "numer m e div denom e < 2 ^ 63"
  defines "whole \<equiv> numer m e * 10 ^ 9 div denom e"
  shows "\<exists>p ns. ftmspec_main atof (name # arg # rest) =
      Exits 0 (''dval = '' @ fmt_ld (int (p div 10 ^ 9)) @ ''.'' @ fmt_0ld 9 (int (p mod 10 ^ 9)) @ eol @
        ''tv_sec='' @ fmt_ld (int (numer m e div denom e)) @ '', tv_nsec='' @ fmt_ld (int ns) @ eol) [] \<and>
    ns < 10 ^ 9 \<and> numer m e div denom e * 10 ^ 9 + ns \<in> {whole, whole + 1} \<and> p \<in> {whole, whole + 1}"
proof -
  define ns where "ns = round53 (numer m e mod denom e * 1000000000) div denom e"
  have m: "m < 2 ^ 53"
    using assms(1) by (simp add: double_ok_def)
  have "ns < 10 ^ 9"
    using nsec_product(1)[OF m] by (simp add: ns_def)
  moreover have "whole = numer m e div denom e * 10 ^ 9 + numer m e mod denom e * 10 ^ 9 div denom e"
    unfolding whole_def by (rule scaled_div[OF denom_pos])
  then have "numer m e div denom e * 10 ^ 9 + ns \<in> {whole, whole + 1}"
    using nsec_near[OF m, of e] by (auto simp: ns_def)
  moreover have "round_even (numer m e * 10 ^ 9) (denom e) \<in> {whole, whole + 1}"
    using round_even_cases by (simp add: whole_def)
  moreover have "to_timespec (Finite False m e) = Some (numer m e div denom e, ns)"
    unfolding ns_def by (rule to_timespec_eq[OF m assms(4)])
  then have "ftmspec_main atof (name # arg # rest) = Exits 0 (''dval = '' @ fmt_9f m e @ eol @
      ''tv_sec='' @ fmt_ld (int (numer m e div denom e)) @ '', tv_nsec='' @ fmt_ld (int ns) @ eol) []"
    using assms(2,3) by (simp only: ftmspec_main_def le_zero_def Let_def list.case double.case option.case prod.case) simp
  ultimately show ?thesis
    unfolding fmt_9f_def Let_def append_assoc by blast
qed

text \<open>
  The double nearest to 2.3 lies a little below it: the program prints 2.300000000 and, cutting off,
  the time of 299999999 nanoseconds.
\<close>

lemma ftmspec_cuts:
  "ftmspec_main (\<lambda>_. Finite False 5179139571476070 (- 51)) [''ftmspec'', ''2.3''] =
     Exits 0 (''dval = 2.300000000'' @ eol @ ''tv_sec=2, tv_nsec=299999999'' @ eol) []"
proof -
  have "round53 675539944105574000000000 div 2251799813685248 = 299999999"
    by (simp add: round53_def round_even_def excess.simps Let_def)
  then have "to_timespec (Finite False 5179139571476070 (- 51)) = Some (2, 299999999)"
    by (subst to_timespec_eq) (simp_all add: numer_def denom_def)
  moreover have "round_even (numer 5179139571476070 (- 51) * 10 ^ 9) (denom (- 51)) = 2300000000"
    by (simp add: numer_def denom_def round_even_def Let_def)
  moreover have "fmt_ld (int (2300000000 div 10 ^ 9)) = ''2''" "fmt_0ld 9 (int (2300000000 mod 10 ^ 9)) = ''300000000''"
      "fmt_ld (int 2) = ''2''" "fmt_ld (int 299999999) = ''299999999''"
    by (simp_all add: fmt_ld_def fmt_0ld_def digits.simps digit_def)
  ultimately show ?thesis
    by (simp only: ftmspec_main_def le_zero_def fmt_9f_def Let_def list.case double.case option.case prod.case) simp
qed

theorem ftmspec_converts_witness:
  "\<exists>p ns. ftmspec_main (\<lambda>_. Finite False 5179139571476070 (- 51)) [''ftmspec'', ''2.3''] =
      Exits 0 (''dval = '' @ fmt_ld (int (p div 10 ^ 9)) @ ''.'' @ fmt_0ld 9 (int (p mod 10 ^ 9)) @ eol @
        ''tv_sec='' @ fmt_ld (int 2) @ '', tv_nsec='' @ fmt_ld (int ns) @ eol) [] \<and>
    ns < 10 ^ 9 \<and> 2 * 10 ^ 9 + ns \<in> {2299999999, 2299999999 + 1} \<and> p \<in> {2299999999, 2299999999 + 1}"
proof -
  have n: "numer 5179139571476070 (- 51) div denom (- 51) = 2"
      "numer 5179139571476070 (- 51) * 10 ^ 9 div denom (- 51) = 2299999999"
    by (simp_all add: numer_def denom_def)
  have ok: "double_ok (Finite False 5179139571476070 (- 51))" "(0::nat) < 5179139571476070"
      "numer 5179139571476070 (- 51) div denom (- 51) < 2 ^ 63"
    unfolding n by (simp_all add: double_ok_def)
  show ?thesis
    using ftmspec_converts[where atof = "\<lambda>_. Finite False 5179139571476070 (- 51)" and arg = "''2.3''"
        and name = "''ftmspec''" and rest = "[]", OF ok(1,2) refl ok(3)]
    unfolding n .
qed

text \<open>What is not a positive number ends with 1, but a NaN and an infinity pass the check.\<close>

lemma ftmspec_rejects:
  "le_zero (atof arg) \<Longrightarrow>
     ftmspec_main atof (name # arg # rest) = Exits 1 [] (''Invalid parameter value: '' @ name @ eol)"
  by (simp add: ftmspec_main_def)

lemma ftmspec_undefined:
  "atof arg \<in> {NotANumber, Infinite False} \<Longrightarrow> ftmspec_main atof (name # arg # rest) = Undefined"
  by (auto simp: ftmspec_main_def le_zero_def)

end
