(* ===== verification/Utest.thy ===== *)
theory Utest
  imports DebugSyncDyn
begin

text \<open>
  \<open>debugsync/utest.c\<close>: the unit test of the facility on a growing table, three threads and \<open>main\<close>.
  The file calls \<open>ds_set\<close>, \<open>ds_wait\<close> and \<open>ds_signal\<close> with a further last argument, the name of the calling
  function, which the functions of \<open>debugsync_dyn.c\<close> do not have; it is read as an argument
  they ignore.  A call is a step of \<open>DebugSyncDyn\<close>, where it may block; \<open>sleep\<close> only delays, so every
  interleaving is a run.  Messages are left out.  What \<open>malloc\<close>, \<open>realloc\<close>, \<open>pthread_create\<close> and
  \<open>pthread_cond_signal\<close> do is in the label of a step; a thread that could not be created keeps the identity 0.
\<close>

section \<open>The scripts of the threads\<close>

definition cstr :: "string \<Rightarrow> u8 list" where
  "cstr s = map of_char s"

datatype stm = Nap nat | Set string bool | Wait string | Signal string

definition t1_start :: "stm list" where
  "t1_start = [Set ''ANNY'' True, Wait ''MAIN_DONE'']"

definition t2_start :: "stm list" where
  "t2_start = [Set ''BENNY'' True, Wait ''MAIN_DONE'']"

definition t3_start :: "stm list" where
  "t3_start = [Set ''RABBA'' False, Nap 2, Signal ''ANNY'', Nap 2, Signal ''BENNY'', Wait ''MAIN_DONE'']"

definition thr_tab :: "stm list list" where
  "thr_tab = [t1_start, t2_start, t3_start]"

definition N_THREADS :: nat where
  "N_THREADS = length thr_tab"

section \<open>The program\<close>

text \<open>
  A thread is not created, about to execute the rest of its script with the current \<open>rc\<close> (ended
  when the rest is empty), or inside a call with the rest after it.
\<close>

datatype pc = NotCreated | At "stm list" int | InCall "stm list"

datatype main_pc = MInit | MSet | MCreate nat | MNap | MSignal | MJoin nat int | MDestroy int | MExit int

record world =
  usys :: sys
  pcs :: "pc list"
  umain :: main_pc

definition main_id :: nat where
  "main_id = N_THREADS"

definition utest_start :: world where
  "utest_start = \<lparr>usys = \<lparr>glob = ds_zero, threads = replicate (N_THREADS + 1) (Outside 0)\<rparr>,
     pcs = replicate N_THREADS NotCreated, umain = MInit\<rparr>"

text \<open>
  The next statement, with the answers of the allocator, the thread a signal wakes and the result of
  \<open>pthread_create\<close>, or a step inside a call.
\<close>

datatype move = Proceed answers "nat option" int | Inside label

definition landed :: "thread \<Rightarrow> stm list \<Rightarrow> pc" where
  "landed th ss = (case th of Outside rc \<Rightarrow> (if rc \<noteq> 0 then At [] rc else At ss rc) | _ \<Rightarrow> InCall ss)"

definition call_step :: "nat \<Rightarrow> world \<Rightarrow> nat \<Rightarrow> label \<Rightarrow> stm list \<Rightarrow> world cresult option" where
  "call_step sz w i l ss =
     map_option (\<lambda>r. cbind r (\<lambda>s'.
       Inr (w\<lparr>usys := s', pcs := (pcs w)[i := landed (threads s' ! i) ss]\<rparr>))) (dyn_step sz (usys w) i l)"

fun thread_step :: "nat \<Rightarrow> world \<Rightarrow> nat \<Rightarrow> move \<Rightarrow> world cresult option" where
  "thread_step sz w i (Proceed m wk r) =
     (case pcs w ! i of
        At (Nap n # ss) rc \<Rightarrow> Some (Inr (w\<lparr>pcs := (pcs w)[i := At ss rc]\<rparr>))
      | At (Set n b # ss) rc \<Rightarrow> call_step sz w i (CallSet m (cstr n) b) ss
      | At (Wait n # ss) rc \<Rightarrow> call_step sz w i (CallWait (cstr n)) ss
      | At (Signal n # ss) rc \<Rightarrow> call_step sz w i (CallSignal (cstr n) wk) ss
      | _ \<Rightarrow> None)"
| "thread_step sz w i (Inside l) =
     (case pcs w ! i of
        InCall ss \<Rightarrow> (if l \<in> {Spurious, Resume} then call_step sz w i l ss else None)
      | _ \<Rightarrow> None)"

text \<open>\<open>main\<close> calls the facility where it cannot block: it sets a point to disabled, and signals.\<close>

definition main_call :: "nat \<Rightarrow> world \<Rightarrow> label \<Rightarrow> (int \<Rightarrow> main_pc) \<Rightarrow> world cresult option" where
  "main_call sz w l ret =
     map_option (\<lambda>r. cbind r (\<lambda>s'. Inr (w\<lparr>usys := s',
       umain := (case threads s' ! main_id of Outside rc \<Rightarrow> ret rc | _ \<Rightarrow> umain w)\<rparr>))) (dyn_step sz (usys w) main_id l)"

definition next_join :: "nat \<Rightarrow> int \<Rightarrow> main_pc" where
  "next_join i rc = (if i + 1 < N_THREADS then MJoin (i + 1) rc else MDestroy rc)"

text \<open>Only a thread that was created is joined; its \<open>pthread_join\<close> returns 0 when it has ended.\<close>

definition join_step :: "world \<Rightarrow> nat \<Rightarrow> int \<Rightarrow> world cresult option" where
  "join_step w i rc =
     (case pcs w ! i of
        NotCreated \<Rightarrow> Some (Inr (w\<lparr>umain := next_join i rc\<rparr>))
      | At [] _ \<Rightarrow> Some (Inr (w\<lparr>umain := next_join i 0\<rparr>))
      | _ \<Rightarrow> None)"

fun main_step :: "nat \<Rightarrow> world \<Rightarrow> move \<Rightarrow> world cresult option" where
  "main_step sz w (Proceed m wk r) =
     (case umain w of
        MInit \<Rightarrow> Some (Inr (w\<lparr>usys := (usys w)\<lparr>glob := ds_init (glob (usys w))\<rparr>, umain := MSet\<rparr>))
      | MSet \<Rightarrow> main_call sz w (CallSet m (cstr ''MAIN_DONE'') False) (\<lambda>rc. MCreate 0)
      | MCreate i \<Rightarrow>
          Some (Inr (if r \<noteq> 0 then w\<lparr>umain := MNap\<rparr>
            else w\<lparr>pcs := (pcs w)[i := At (thr_tab ! i) 0],
                   umain := (if i + 1 < N_THREADS then MCreate (i + 1) else MNap)\<rparr>))
      | MNap \<Rightarrow> Some (Inr (w\<lparr>umain := MSignal\<rparr>))
      | MSignal \<Rightarrow> main_call sz w (CallSignal (cstr ''MAIN_DONE'') wk) (MJoin 0)
      | MJoin i rc \<Rightarrow> join_step w i rc
      | MDestroy rc \<Rightarrow> Some (cbind (ds_destroy (glob (usys w))) (\<lambda>g. Inr (w\<lparr>usys := (usys w)\<lparr>glob := g\<rparr>, umain := MExit rc\<rparr>)))
      | MExit rc \<Rightarrow> None)"
| "main_step sz w (Inside l) = None"

text \<open>A label names who moves, \<open>main\<close> or thread \<open>i\<close>, and how.\<close>

fun ustep :: "nat \<Rightarrow> world \<Rightarrow> nat option \<times> move \<Rightarrow> world cresult option" where
  "ustep sz w (None, mv) = main_step sz w mv"
| "ustep sz w (Some i, mv) = (if i < N_THREADS then thread_step sz w i mv else None)"

inductive ureachable :: "nat \<Rightarrow> world \<Rightarrow> bool" for sz where
  init: "ureachable sz utest_start"
| step: "ureachable sz w \<Longrightarrow> ustep sz w l = Some (Inr w') \<Longrightarrow> ureachable sz w'"

section \<open>With the size the facility allocates\<close>

text \<open>A call that returns at all fails; the thread is outside with -1.\<close>

lemma set_step_fails:
  assumes "dyn_step sizeof_pointer s t (CallSet m n b) = Some (Inr s')"
  shows "t < length (threads s) \<and> (\<exists>d. s' = \<lparr>glob = d, threads = (threads s)[t := Outside (-1)]\<rparr>)"
proof -
  have t: "t < length (threads s)"
    using assms by (simp split: if_splits)
  then obtain d pt rc where r: "ds_set m n b (glob s) = Inr (d, pt, rc)" "s' = settle s t n pt (d, rc)"
    using assms by (auto simp: ds_set_def cres split: if_splits)
  then show ?thesis
    using ds_set_fails[OF r(1)] t by (simp add: settle_def)
qed

definition fresh_or_failed :: "nat \<Rightarrow> pc \<Rightarrow> bool" where
  "fresh_or_failed i p \<longleftrightarrow> p = NotCreated \<or> p = At (thr_tab ! i) 0 \<or> p = At [] (-1)"

definition over :: "pc \<Rightarrow> bool" where
  "over p \<longleftrightarrow> p = NotCreated \<or> p = At [] (-1)"

definition joined_upto :: "main_pc \<Rightarrow> nat" where
  "joined_upto m = (case m of MJoin i _ \<Rightarrow> i | MDestroy _ \<Rightarrow> N_THREADS | MExit _ \<Rightarrow> N_THREADS | _ \<Rightarrow> 0)"

fun main_zero :: "main_pc \<Rightarrow> bool" where
  "main_zero (MJoin i rc) \<longleftrightarrow> rc = 0 \<and> i < N_THREADS"
| "main_zero (MDestroy rc) \<longleftrightarrow> rc = 0"
| "main_zero (MExit rc) \<longleftrightarrow> rc = 0"
| "main_zero (MCreate i) \<longleftrightarrow> i < N_THREADS"
| "main_zero _ \<longleftrightarrow> True"

definition test_inv :: "world \<Rightarrow> bool" where
  "test_inv w \<longleftrightarrow> length (pcs w) = N_THREADS \<and> (\<forall>i<N_THREADS. fresh_or_failed i (pcs w ! i)) \<and>
     (\<forall>i<joined_upto (umain w). over (pcs w ! i)) \<and> main_zero (umain w)"

lemma N_THREADS_eq: "N_THREADS = 3"
  by (simp add: N_THREADS_def thr_tab_def)

text \<open>Every script begins with a \<open>ds_set\<close>.\<close>

lemma script_starts: "i < N_THREADS \<Longrightarrow> \<exists>n b ss. thr_tab ! i = Set n b # ss"
  by (auto simp: N_THREADS_eq thr_tab_def t1_start_def t2_start_def t3_start_def less_Suc_eq numeral_3_eq_3)

lemma thread_step_fails:
  assumes "test_inv w" "i < N_THREADS" "thread_step sizeof_pointer w i mv = Some (Inr w')"
  shows "pcs w ! i = At (thr_tab ! i) 0 \<and> pcs w' = (pcs w)[i := At [] (-1)] \<and> umain w' = umain w"
proof -
  obtain n b ss where ss: "thr_tab ! i = Set n b # ss"
    using script_starts[OF assms(2)] by blast
  have "pcs w ! i = NotCreated \<or> pcs w ! i = At (Set n b # ss) 0 \<or> pcs w ! i = At [] (-1)"
    using assms(1,2) unfolding test_inv_def fresh_or_failed_def ss[symmetric] by blast
  then have at: "pcs w ! i = At (Set n b # ss) 0"
    using assms(3) by (cases mv) auto
  obtain m wk r where "mv = Proceed m wk r"
    using assms(3) at by (cases mv) simp_all
  then have "call_step sizeof_pointer w i (CallSet m (cstr n) b) ss = Some (Inr w')"
    using assms(3) at by simp
  then obtain s' where "dyn_step sizeof_pointer (usys w) i (CallSet m (cstr n) b) = Some (Inr s')"
      "w' = w\<lparr>usys := s', pcs := (pcs w)[i := landed (threads s' ! i) ss]\<rparr>"
    unfolding call_step_def by (auto simp only: map_option_eq_Some cbind_eq_Inr sum.inject)
  then show ?thesis
    using set_step_fails[of "usys w" i m "cstr n" b s'] at ss by (auto simp: landed_def simp del: dyn_step.simps)
qed

lemma test_invD:
  assumes "test_inv w"
  shows "length (pcs w) = N_THREADS" and "i < N_THREADS \<Longrightarrow> fresh_or_failed i (pcs w ! i)"
    and "i < joined_upto (umain w) \<Longrightarrow> over (pcs w ! i)" and "main_zero (umain w)"
  using assms by (simp_all add: test_inv_def)

lemma test_inv_thread:
  assumes "test_inv w" "i < N_THREADS" "thread_step sizeof_pointer w i mv = Some (Inr w')"
  shows "test_inv w'"
proof -
  note t = thread_step_fails[OF assms]
  have "fresh_or_failed j (pcs w' ! j)" if "j < N_THREADS" for j
    using t test_invD(1,2)[OF assms(1)] that by (cases "j = i") (simp_all add: fresh_or_failed_def)
  moreover have "over (pcs w' ! j)" if "j < joined_upto (umain w')" for j
    using t test_invD(1,3)[OF assms(1)] that assms(2) by (cases "j = i") (auto simp: over_def)
  ultimately show ?thesis
    using t test_invD(1,4)[OF assms(1)] by (simp add: test_inv_def)
qed

lemma main_call_frame:
  assumes "main_call sz w l ret = Some (Inr w')"
  obtains s' where "dyn_step sz (usys w) main_id l = Some (Inr s')" and "pcs w' = pcs w"
    and "umain w' = (case threads s' ! main_id of Outside rc \<Rightarrow> ret rc | _ \<Rightarrow> umain w)"
  using assms by (auto simp: main_call_def cres simp del: dyn_step.simps)

lemma signal_returns:
  assumes "dyn_step sz s t (CallSignal n wk) = Some (Inr s')" "threads s' ! t = Outside rc"
  shows "rc = 0"
  using assms by (auto split: if_splits)

text \<open>A join goes on to the next thread.\<close>

lemma test_inv_join:
  assumes "test_inv w" "umain w = MJoin i rc" "join_step w i rc = Some (Inr w')"
  shows "test_inv w'"
proof -
  have i: "i < N_THREADS" "rc = 0"
    using test_invD(4)[OF assms(1)] assms(2) by simp_all
  obtain n b ss where "thr_tab ! i = Set n b # ss"
    using script_starts[OF i(1)] by blast
  then have w': "over (pcs w ! i)" "w' = w\<lparr>umain := next_join i 0\<rparr>"
    using assms(3) i test_invD(2)[OF assms(1) i(1)]
    by (auto simp: join_step_def fresh_or_failed_def over_def split: pc.splits list.splits)
  have "over (pcs w ! j)" if "j < Suc i" for j
    using test_invD(3)[OF assms(1), of j] w'(1) that assms(2) by (cases "j = i") (simp_all add: joined_upto_def)
  moreover have "joined_upto (next_join i 0) \<le> Suc i" "main_zero (next_join i 0)"
    using i(1) by (auto simp: next_join_def joined_upto_def)
  ultimately show ?thesis
    using test_invD(1,2)[OF assms(1)] w'(2) by (simp add: test_inv_def)
qed

text \<open>\<open>main\<close> creates a thread.\<close>

lemma test_inv_create:
  assumes "test_inv w" "umain w = MCreate i"
  shows "test_inv (w\<lparr>pcs := (pcs w)[i := At (thr_tab ! i) 0], umain := (if i + 1 < N_THREADS then MCreate (i + 1) else MNap)\<rparr>)"
proof -
  have "fresh_or_failed j ((pcs w)[i := At (thr_tab ! i) 0] ! j)" if "j < N_THREADS" for j
    using test_invD(1,2)[OF assms(1)] that by (cases "j = i") (simp_all add: fresh_or_failed_def)
  then show ?thesis
    using test_invD(1)[OF assms(1)] by (simp add: test_inv_def joined_upto_def)
qed

lemma test_inv_main:
  assumes "test_inv w" "main_step sizeof_pointer w mv = Some (Inr w')"
  shows "test_inv w'"
proof -
  have same: "test_inv w'" if "pcs w' = pcs w" "joined_upto (umain w') = 0" "main_zero (umain w')"
    using assms(1) that by (simp add: test_inv_def)
  obtain m wk r where mv: "mv = Proceed m wk r"
    using assms(2) by (cases mv) auto
  show ?thesis
  proof (cases "umain w")
    case MSet
    then have "main_call sizeof_pointer w (CallSet m (cstr ''MAIN_DONE'') False) (\<lambda>rc. MCreate 0) = Some (Inr w')"
      using assms(2) mv by simp
    then show ?thesis
      by (rule main_call_frame) (rule same; use MSet in \<open>simp add: joined_upto_def N_THREADS_eq split: thread.splits\<close>)
  next
    case MSignal
    then have "main_call sizeof_pointer w (CallSignal (cstr ''MAIN_DONE'') wk) (MJoin 0) = Some (Inr w')"
      using assms(2) mv by simp
    then show ?thesis
    proof (rule main_call_frame)
      fix s'
      assume s': "dyn_step sizeof_pointer (usys w) main_id (CallSignal (cstr ''MAIN_DONE'') wk) = Some (Inr s')"
          "pcs w' = pcs w" "umain w' = (case threads s' ! main_id of Outside rc \<Rightarrow> MJoin 0 rc | _ \<Rightarrow> umain w)"
      then have "umain w' = MJoin 0 0 \<or> umain w' = MSignal"
        using MSignal signal_returns[OF s'(1)] by (auto split: thread.splits)
      then show "test_inv w'"
        using s'(2) by (intro same) (auto simp: joined_upto_def N_THREADS_eq)
    qed
  next
    case (MCreate i)
    then show ?thesis
      using assms test_inv_create[OF assms(1) MCreate] mv same by (auto simp: joined_upto_def split: if_splits)
  next
    case (MJoin i rc)
    then show ?thesis
      using test_inv_join[OF assms(1) MJoin] assms(2) mv by simp
  next
    case (MDestroy rc)
    then show ?thesis
      using assms mv by (auto simp: test_inv_def cres joined_upto_def)
  qed (use assms(2) mv same in \<open>auto simp: joined_upto_def\<close>)
qed

lemma reachable_test_inv: "ureachable sizeof_pointer w \<Longrightarrow> test_inv w"
proof (induction rule: ureachable.induct)
  case init
  then show ?case
    by (simp add: test_inv_def utest_start_def fresh_or_failed_def joined_upto_def)
next
  case (step w l w')
  obtain u mv where l: "l = (u, mv)"
    by (cases l)
  show ?case
  proof (cases u)
    case None
    then show ?thesis
      using step l test_inv_main by simp
  next
    case (Some i)
    then have "i < N_THREADS" "thread_step sizeof_pointer w i mv = Some (Inr w')"
      using step.hyps(2) l by (simp_all split: if_splits)
    then show ?thesis
      using test_inv_thread step.IH by blast
  qed
qed

text \<open>
  A run of the unit test that ends has tested nothing, and says that all is well: every thread that was
  created ended with -1 at its first call, and the exit code is 0.
\<close>

theorem utest_tests_nothing:
  assumes "ureachable sizeof_pointer w" and "umain w = MExit rc"
  shows "rc = 0 \<and> length (pcs w) = 3 \<and> list_all over (pcs w)"
  using test_invD[OF reachable_test_inv[OF assms(1)]] assms(2)
  by (auto simp: joined_upto_def list_all_length N_THREADS_eq)

text \<open>When memory can be had the first call of the facility writes behind its object.\<close>

lemma first_set_traps:
  "realloc_ok m \<Longrightarrow> malloc_ok m \<Longrightarrow> ds_set m n b (ds_init ds_zero) = Inl OutOfBounds"
  by (simp add: ds_set_def ds_set_with_def ds_lookup_eq ds_init_def ds_zero_def ds_add_with_def grow_table_def
      place_point_def sizeof_pointer_def sizeof_point_def DS_MAXLEN_def DS_EXPAND_BY_def pwrite_def pread_def Let_def)

theorem utest_traps:
  assumes "realloc_ok m" and "malloc_ok m"
  shows "\<exists>w. ustep sizeof_pointer utest_start (None, Proceed m' wk' r') = Some (Inr w) \<and>
    ustep sizeof_pointer w (None, Proceed m wk r) = Some (Inl OutOfBounds)"
  using first_set_traps[OF assms, of "cstr ''MAIN_DONE''" False]
  by (simp add: utest_start_def main_call_def main_id_def N_THREADS_eq is_outside_def ds_set_def)

section \<open>A run to the end\<close>

fun urun :: "nat \<Rightarrow> world \<Rightarrow> (nat option \<times> move) list \<Rightarrow> world option" where
  "urun sz w [] = Some w"
| "urun sz w (l # ls) = (case ustep sz w l of Some (Inr w') \<Rightarrow> urun sz w' ls | _ \<Rightarrow> None)"

lemma reachable_urun: "ureachable sz w \<Longrightarrow> urun sz w ls = Some w' \<Longrightarrow> ureachable sz w'"
  by (induction ls arbitrary: w) (auto split: option.splits sum.splits intro: ureachable.step)

text \<open>There is no memory: every \<open>ds_set\<close> fails, and the test ends.\<close>

definition no_memory :: move where
  "no_memory = Proceed \<lparr>realloc_ok = False, malloc_ok = False\<rparr> None 0"

definition poor_run :: "(nat option \<times> move) list" where
  "poor_run = map (\<lambda>u. (u, no_memory))
     [None, None, None, None, None, Some 2, Some 0, Some 1, None, None, None, None, None, None]"

definition poor_end :: world where
  "poor_end = \<lparr>usys = \<lparr>glob = ds_zero\<lparr>signal_name := cstr ''MAIN_DONE''\<rparr>,
       threads = [Outside (-1), Outside (-1), Outside (-1), Outside 0]\<rparr>,
     pcs = [At [] (-1), At [] (-1), At [] (-1)], umain = MExit 0\<rparr>"

lemma poor_run_ends: "urun sizeof_pointer utest_start poor_run = Some poor_end"
  by code_simp

theorem utest_tests_nothing_witness:
  "urun sizeof_pointer utest_start poor_run = Some poor_end \<and> length (pcs poor_end) = 3 \<and> list_all over (pcs poor_end)"
  using utest_tests_nothing[OF reachable_urun[OF ureachable.init poor_run_ends]] poor_run_ends
  by (simp add: poor_end_def)

lemma utest_traps_witness:
  "\<exists>w. ustep sizeof_pointer utest_start (None, Proceed \<lparr>realloc_ok = True, malloc_ok = True\<rparr> None 0) = Some (Inr w) \<and>
    ustep sizeof_pointer w (None, Proceed \<lparr>realloc_ok = True, malloc_ok = True\<rparr> None 0) = Some (Inl OutOfBounds)"
  by (rule utest_traps) simp_all

end
