(* ===== verification/DebugSync_Disable.thy ===== *)
theory DebugSync_Disable
  imports DebugSync_Protocol
begin

text \<open>
  \<open>debugsync/debugsync.c\<close>: disabling all points, by \<open>ds_disable_all\<close> or on the way of \<open>ds_activate\<close>,
  ends every pending wait with an error, when threads unblock only what they waited for.
\<close>

section \<open>The threads inside a wait\<close>

definition inside :: "thread \<Rightarrow> bool" where
  "inside th \<longleftrightarrow> (case th of ExecAt i b \<Rightarrow> True | WaitAt i b \<Rightarrow> True | _ \<Rightarrow> False)"

text \<open>All points are disabled, and the thread is awake at one of them.\<close>

definition all_off :: "ds_global \<Rightarrow> bool" where
  "all_off g \<longleftrightarrow> list_all (\<lambda>p. \<not> is_enabled p) (point g)"

definition roused :: "sys \<Rightarrow> nat \<Rightarrow> bool" where
  "roused s w \<longleftrightarrow> (\<exists>i<length (point (glob s)). thr s w = ExecAt i False \<or> thr s w = WaitAt i False)"

lemma all_off_nth: "all_off g \<Longrightarrow> i < length (point g) \<Longrightarrow> \<not> is_enabled (point g ! i)"
  by (simp add: all_off_def list_all_length)

lemma all_off_upd: "all_off g \<Longrightarrow> all_off (upd i (\<lambda>p. p\<lparr>in_syncwait := b\<rparr>) g)"
  unfolding all_off_def list_all_length
  by (cases "i < length (point g)") (auto simp: upd_def nth_list_update)

text \<open>A roused thread returns -1, and leaves the others as they are.\<close>

lemma roused_returns:
  assumes "all_off (glob s)" "roused s w"
  shows "\<exists>s'. ds_step s w Resume = Some (Inr s') \<and> thr s' = (thr s)(w := Outside (-1)) \<and> all_off (glob s') \<and>
    length (point (glob s')) = length (point (glob s))"
proof -
  obtain i where i: "i < length (point (glob s))" "thr s w = ExecAt i False \<or> thr s w = WaitAt i False"
    using assms(2) by (auto simp: roused_def)
  note off = all_off_nth[OF assms(1) i(1)]
  show ?thesis
    using i(2)
  proof
    assume "thr s w = ExecAt i False"
    then show ?thesis
      using i(1) off all_off_upd[OF assms(1), of i False] by (simp add: ds_exec_loop_def Let_def after_def settle_def)
  next
    assume "thr s w = WaitAt i False"
    then show ?thesis
      using off assms(1) by (simp add: ds_wait_loop_def after_def settle_def)
  qed
qed

lemma roused_run:
  assumes "all_off (glob s)" "list_all (roused s) ws" "distinct ws"
  shows "\<exists>s'. ds_run s (map (\<lambda>w. (w, Resume)) ws) = Some s' \<and> list_all (\<lambda>w. thr s' w = Outside (-1)) ws \<and>
    (\<forall>v. v \<notin> set ws \<longrightarrow> thr s' v = thr s v)"
  using assms
proof (induction ws arbitrary: s)
  case (Cons w ws)
  obtain s1 where s1: "ds_step s w Resume = Some (Inr s1)" "thr s1 = (thr s)(w := Outside (-1))" "all_off (glob s1)"
      "length (point (glob s1)) = length (point (glob s))"
    using roused_returns[of s w] Cons.prems by auto
  have "list_all (roused s1) ws"
    using Cons.prems(2,3) s1(2,4) by (auto simp: list_all_iff roused_def)
  then obtain s' where "ds_run s1 (map (\<lambda>w. (w, Resume)) ws) = Some s'" "list_all (\<lambda>w. thr s' w = Outside (-1)) ws"
      "\<forall>v. v \<notin> set ws \<longrightarrow> thr s' v = thr s1 v"
    using Cons.IH[OF s1(3)] Cons.prems(3) by auto
  then show ?case
    using s1(1,2) Cons.prems(3) by (simp del: ds_step.simps)
qed simp

section \<open>Disabling\<close>

text \<open>The calls that disable every point: the second one on its way.\<close>

definition disables :: "call \<Rightarrow> bool" where
  "disables c \<longleftrightarrow> c = CDisableAll \<or> (\<exists>b. c = CActivate b)"

lemma all_off_disabled: "all_off (fst (disable_all g))" "length (point (fst (disable_all g))) = length (point g)"
  by (simp_all add: all_off_def disable_all_def list_all_iff)

lemma locked_disables:
  assumes "disables c" "\<not> inactive (glob s)"
  shows "\<exists>s'. locked mem s u c = Inr s' \<and> all_off (glob s') \<and> length (point (glob s')) = length (point (glob s)) \<and>
    thr s' = (if snd (disable_all (glob s)) then woken \<circ> thr s else thr s)(u := Outside 0)"
  using assms all_off_disabled[of "glob s"]
  by (auto simp: disables_def locked_def after_def settle_def ds_disable_all_def ds_activate_def do_activate_def all_off_def
      split: prod.splits)

text \<open>A thread that sleeps does so at an enabled point with a blocked section, so that the broadcast is made.\<close>

lemma sleeper_broadcast:
  assumes ob: "obedient fl N s owed" and w: "thr s w = ExecAt i True \<or> thr s w = WaitAt i True"
  shows "snd (disable_all (glob s))"
proof -
  note inv = reachable_sync_inv[OF obedient_reachable[OF ob]]
  have i: "i < length (point (glob s))"
    using sync_invD(1)[OF inv, of w i True] w by blast
  have "is_enabled (point (glob s) ! i) \<and> 0 < nblocked (point (glob s) ! i)"
    using w
  proof
    assume "thr s w = ExecAt i True"
    then show ?thesis
      using sync_invD(2,3)[OF inv] i by blast
  next
    assume "thr s w = WaitAt i True"
    then show ?thesis
      using obedient_disc_inv[OF ob] disc_waiter(2)[OF obedient_disc_inv[OF ob] inv]
      by (auto simp: disc_inv_def wait_inv_def)
  qed
  then show ?thesis
    using i by (auto simp: disable_all_def list_ex_length)
qed

lemma disabled_roused:
  assumes ob: "obedient fl N s owed" and w: "inside (thr s w)" "w \<noteq> u"
    and s': "thr s' = (if snd (disable_all (glob s)) then woken \<circ> thr s else thr s)(u := Outside 0)"
      "length (point (glob s')) = length (point (glob s))"
  shows "roused s' w"
proof -
  obtain i b where i: "thr s w = ExecAt i b \<or> thr s w = WaitAt i b"
    using w(1) by (auto simp: inside_def split: thread.splits)
  have "i < length (point (glob s))"
    using sync_invD(1)[OF reachable_sync_inv[OF obedient_reachable[OF ob]], of w i b] i by blast
  moreover have "thr s' w = ExecAt i False \<or> thr s' w = WaitAt i False"
    using i w(2) sleeper_broadcast[OF ob, of w i] by (cases b) (auto simp: s'(1))
  ultimately show ?thesis
    using s'(2) by (auto simp: roused_def)
qed

text \<open>
  C30: when threads unblock only what they have waited for, a call of \<open>ds_disable_all\<close>, or of \<open>ds_activate\<close>,
  on an active facility ends every pending wait: the threads inside \<open>ds_exec\<close> and \<open>ds_wait\<close>, asleep or
  not, at whatever points, all return -1 as soon as they have the mutex again, in any order, without a
  wake-up from elsewhere.
\<close>

theorem ds_disable_all_frees:
  assumes "obedient fl N s owed" and "thr s u = Entered c" and "disables c" and "\<not> inactive (glob s)"
    and "distinct ws" and "list_all (\<lambda>w. inside (thr s w)) ws"
  shows "\<exists>s'. ds_run s ((u, Lock mem) # map (\<lambda>w. (w, Resume)) ws) = Some s' \<and>
    list_all (\<lambda>w. thr s' w = Outside (-1)) ws \<and> thr s' u = Outside 0"
proof -
  obtain s1 where s1: "locked mem s u c = Inr s1" "all_off (glob s1)" "length (point (glob s1)) = length (point (glob s))"
      "thr s1 = (if snd (disable_all (glob s)) then woken \<circ> thr s else thr s)(u := Outside 0)"
    using locked_disables[OF assms(3,4)] by blast
  have u: "w \<noteq> u" if "w \<in> set ws" for w
    using that assms(2,6) by (auto simp: list_all_iff inside_def)
  then have "list_all (roused s1) ws"
    using disabled_roused[OF assms(1) _ _ s1(4,3)] assms(6) by (auto simp: list_all_iff)
  then obtain s' where "ds_run s1 (map (\<lambda>w. (w, Resume)) ws) = Some s'" "list_all (\<lambda>w. thr s' w = Outside (-1)) ws"
      "\<forall>v. v \<notin> set ws \<longrightarrow> thr s' v = thr s1 v"
    using roused_run[OF s1(2) _ assms(5)] by blast
  moreover have "u \<notin> set ws"
    using u by blast
  ultimately show ?thesis
    using s1(1,4) assms(2) by auto
qed

definition held_and_closing :: sys where
  "held_and_closing = held\<lparr>thr := (thr held)(0 := WaitAt 0 False, 2 := Entered CDisableAll)\<rparr>"

theorem ds_disable_all_frees_witness:
  "\<exists>s'. ds_run held_and_closing [(2, Lock True), (1, Resume), (0, Resume)] = Some s' \<and>
    thr s' 1 = Outside (-1) \<and> thr s' 0 = Outside (-1) \<and> thr s' 2 = Outside 0"
proof -
  have "obedient 1 3 held_and_closing (\<lambda>_ _. 0)"
  proof (rule obedient_runI[OF obedient.init])
    show "obedient_run (sys_init 1) (\<lambda>_ _. 0) (handshake @ [(2, Invoke CDisableAll)]) = Some (held_and_closing, \<lambda>_ _. 0)"
      by (simp add: handshake_def held_and_closing_def held_def run_defs fun_eq_iff allowed_def debts_after_def)
  qed (simp add: handshake_def)
  then show ?thesis
    using ds_disable_all_frees[of 1 3 held_and_closing "\<lambda>_ _. 0" 2 CDisableAll "[1, 0]" True]
    by (simp add: held_and_closing_def held_def disables_def inside_def inactive_def DS_ACTIVE_def del: ds_run.simps)
qed

end
