(* ===== verification/Wal_Errors.thy ===== *)
theory Wal_Errors
  imports Wal
begin

text \<open>
  \<open>wal/wbuft.c\<close>: what becomes of errors of the synchronizing calls.  The result of \<open>do_sync\<close> is not
  used by the writers, and the thread that meets an error ends: neither ever reaches the exit code.
\<close>

section \<open>Two runs that differ in the results of the synchronizing calls\<close>











section \<open>The whole run\<close>






section \<open>The thread after an error\<close>

text \<open>
  A call that fails ends the thread; whatever is requested afterwards is not done, and nobody is told:
  the requests are accepted as before.
\<close>

lemma finished_stays:
  assumes "worker g = Finished" and "sync_step g e = Some (Inr g')"
  shows "worker g' = Finished \<and> calls g' = calls g"
proof (cases e)
  case (Request fd fl)
  then have "g' = toggle_sync_thread fd fl sSYNC g"
    using assms(2) by simp
  then show ?thesis
    using assms(1) by (simp add: toggle_sync_thread_def)
next
  case Stop
  then have "g' = stop_request g"
    using assms(2) by simp
  then show ?thesis
    using assms(1) by (simp add: toggle_sync_thread_def stop_request_def)
qed (use assms in simp_all)

fun sync_steps :: "sync_state \<Rightarrow> event list \<Rightarrow> sync_state option" where
  "sync_steps g [] = Some g"
| "sync_steps g (e # es) = (case sync_step g e of Some (Inr g') \<Rightarrow> sync_steps g' es | _ \<Rightarrow> None)"

lemma finished_for_good: "worker g = Finished \<Longrightarrow> sync_steps g es = Some g' \<Longrightarrow> worker g' = Finished \<and> calls g' = calls g"
proof (induction es arbitrary: g)
  case (Cons e es)
  then obtain g1 where g1: "sync_step g e = Some (Inr g1)" "sync_steps g1 es = Some g'"
    by (auto split: option.splits sum.splits simp del: sync_step.simps)
  then show ?case
    using finished_stays [OF Cons.prems(1) g1(1)] Cons.IH [of g1] by simp
qed simp

theorem failed_sync_ends_thread:
  assumes "mode_ok fl" and "fl AND SYNC_TYPE \<noteq> 0" and "worker g \<noteq> Finished" and "ans \<noteq> 0"
    and "sync_steps (toggle_sync_thread fd fl sSYNC g) (Turn ans # es) = Some g'"
  shows "worker g' = Finished \<and> calls g' = calls g @ [Fdatasync fd]"
proof -
  let ?g = "toggle_sync_thread fd fl sSYNC g"
  have "thread_turn ans ?g = Inr (?g\<lparr>calls := calls g @ [Fdatasync fd], worker := Finished\<rparr>)"
    using assms(1,2,4) by (simp add: thread_turn_def toggle_sync_thread_def fd_sync_ok state_codes Let_def)
  moreover have "worker ?g = Ready"
    using assms(3) by (cases "worker g") (simp_all add: toggle_sync_thread_def)
  ultimately show ?thesis
    using assms(5) finished_for_good [of "?g\<lparr>calls := calls g @ [Fdatasync fd], worker := Finished\<rparr>" es g'] by simp
qed

lemma failed_sync_ends_thread_witness:
  "worker (the (sync_steps (toggle_sync_thread 3 SYNC_DATA sSYNC sync_start) [Turn (-1), Request 3 SYNC_DATA])) = Finished"
  using failed_sync_ends_thread [of SYNC_DATA sync_start "-1" 3 "[Request 3 SYNC_DATA]"
      "the (sync_steps (toggle_sync_thread 3 SYNC_DATA sSYNC sync_start) [Turn (-1), Request 3 SYNC_DATA])"]
  by (simp add: mode_ok_def mode_defs sync_start_def toggle_sync_thread_def thread_turn_def fd_sync_def state_codes)

end
