(* ===== verification/Small.thy ===== *)
theory Small
  imports Printf
begin

text \<open>
  The two smallest programs.  \<open>pthr_cleanup/pthrc.c\<close> and \<open>pthrm.c\<close> register what a forked child does first; the
  program itself never forks.  \<open>hi/hi.c\<close> is one \<open>write\<close>.
\<close>

section \<open>Fork handlers\<close>

text \<open>The two static variables, and the handlers the child of a fork runs, in the order of their registration.\<close>

datatype handler = DoSomething | DoSomethingElse

record process =
  g_exit :: u32
  m_exit :: u32
  at_child :: "handler list"

definition process_start :: process where
  "process_start = \<lparr>g_exit = 0, m_exit = 0, at_child = []\<rparr>"

definition do_something :: "process \<Rightarrow> process" where
  "do_something p = p\<lparr>g_exit := 1\<rparr>"

definition do_something_else :: "process \<Rightarrow> process" where
  "do_something_else p = p\<lparr>m_exit := 1\<rparr>"

text \<open>\<open>pthread_atfork\<close> with a handler for the child only; it registers nothing when it fails.\<close>

definition atfork_child :: "int \<Rightarrow> handler \<Rightarrow> process \<Rightarrow> process" where
  "atfork_child rc h p = (if rc = 0 then p\<lparr>at_child := at_child p @ [h]\<rparr> else p)"

definition another_ref :: "int \<Rightarrow> process \<Rightarrow> process" where
  "another_ref rc p = atfork_child rc DoSomethingElse p"

text \<open>The thread returns its argument, and \<open>main\<close> drops it.\<close>

definition thr_start :: "'a \<Rightarrow> 'a" where
  "thr_start arg = arg"

text \<open>\<open>main\<close>, with the results of \<open>pthread_atfork\<close> and \<open>pthread_create\<close>: exit code, output, the process at its end.\<close>

definition pthrc_main :: "int \<Rightarrow> int \<Rightarrow> process \<Rightarrow> int \<times> string \<times> process" where
  "pthrc_main atfork_rc create_rc p =
     (let p = atfork_child atfork_rc DoSomething p; rc = create_rc in
      if rc \<noteq> 0 then (rc, [], p)
      else (rc, ''Over and out, rc='' @ fmt_ld rc @ [CHR 0x0A], p))"

text \<open>A fork, as a later version of the program might make: the child runs the handlers.\<close>

primrec handle :: "handler \<Rightarrow> process \<Rightarrow> process" where
  "handle DoSomething p = do_something p"
| "handle DoSomethingElse p = do_something_else p"

definition child_of :: "process \<Rightarrow> process" where
  "child_of p = fold handle (at_child p) p"

text \<open>
  Handlers act in the child and only there; the second module's one has to be asked for, which \<open>main\<close>
  does not do, and a registration that failed goes unnoticed.
\<close>

theorem pthrc_handlers:
  "pthrc_main a c process_start = (c, if c = 0 then ''Over and out, rc=0'' @ [CHR 0x0A] else [], p) \<Longrightarrow>
     g_exit p = 0 \<and> m_exit p = 0 \<and> (g_exit (child_of p) = 1 \<longleftrightarrow> a = 0) \<and> m_exit (child_of p) = 0 \<and>
     m_exit (child_of (another_ref 0 p)) = 1"
  by (auto simp: pthrc_main_def Let_def process_start_def atfork_child_def another_ref_def child_of_def
      do_something_def do_something_else_def split: if_splits)

lemma pthrc_main_eq:
  "fst (pthrc_main a c p) = c" "c = 0 \<Longrightarrow> fst (snd (pthrc_main a c p)) = ''Over and out, rc=0'' @ [CHR 0x0A]"
  by (simp_all add: pthrc_main_def Let_def fmt_ld_def fmt_0ld_def digits.simps digit_def)

lemma pthrc_handlers_witness:
  "g_exit (child_of (snd (snd (pthrc_main 0 0 process_start)))) = 1"
  using pthrc_handlers[of 0 0 "snd (snd (pthrc_main 0 0 process_start))"] pthrc_main_eq[of 0 0 process_start]
  by (metis prod.collapse)

section \<open>A greeting\<close>

text \<open>The answer of \<open>write\<close> (minus one, or the number of bytes taken): what reaches the output, and the exit code.\<close>

definition HI :: string where
  "HI = ''Hi!'' @ [CHR 0x0A]"

definition hi_main :: "int \<Rightarrow> string \<times> int" where
  "hi_main nwr = (take (nat nwr) HI, 0)"

text \<open>The exit code says nothing of the output: only a write of all four bytes shows the greeting.\<close>

lemma hi_greets: "nwr \<le> 4 \<Longrightarrow> hi_main nwr = (HI, rc) \<longleftrightarrow> nwr = 4 \<and> rc = 0"
  by (auto simp: hi_main_def HI_def take_Cons' nat_eq_iff split: if_splits)

end
