(* ===== verification/Pipeline.thy ===== *)
theory Pipeline
  imports Relay Follow "HOL-Library.Sublist"
begin

text \<open>
  Two programs of \<open>fdwatch\<close> at work on one file: \<open>frelay\<close> or \<open>writer\<close> writes it, moving it away when it
  has grown, and \<open>reader -p\<close> prints what it finds there.
\<close>

section \<open>The output file and what has been written\<close>

text \<open>
  A turn leaves the file \<open>pump\<close> has written, or, after a rollover, a new and empty one under the same
  path.
\<close>

locale rolling_turn = relay_turn turn len
  for turn :: "turn_env \<Rightarrow> relay \<Rightarrow> turned option cresult" and len :: nat +
  fixes dst :: string
  assumes turn_file: "turn e r = Inr (Some (Goes_on r')) \<Longrightarrow> pump len e r = Inr (Some (r1, Inr n)) \<Longrightarrow>
    fs r' = fs r1 \<and> out_fd r' = out_fd r1 \<or> fresh_file dst (fs r') (out_fd r')"
begin

text \<open>The path names the open file, and its contents are the last bytes that have been written.\<close>

definition tailed :: "relay \<Rightarrow> bool" where
  "tailed r \<longleftrightarrow> errno (ios r) = 0 \<and>
     (\<exists>i. out_fd r = Some i \<and> dir (fs r) dst = Some i \<and> suffix (data (fs r) i) (sink (ios r)))"

lemma tailed_start: "tailed (relay_start dst src 0 f)"
  by (auto simp: tailed_def relay_start_def fs_open_def split: option.splits)

lemma turn_tailed:
  assumes "turn e r = Inr (Some (Goes_on r'))" and "tailed r" and "list_all real_answer (answers e)"
  shows "tailed r'"
proof -
  obtain i where i: "out_fd r = Some i" "dir (fs r) dst = Some i" "suffix (data (fs r) i) (sink (ios r))"
    and err: "errno (ios r) = 0"
    using assms(2) by (auto simp: tailed_def)
  obtain r1 n where r1: "pump len e r = Inr (Some (r1, Inr n))" "ios r' = ios r1"
    using turn_pump [OF assms(1)] by blast
  note pr = pump_real [OF r1(1) assms(3) err]
  from turn_file [OF assms(1) r1(1)] show ?thesis
  proof
    assume "fs r' = fs r1 \<and> out_fd r' = out_fd r1"
    then show ?thesis
      using pr i r1(2) by (simp add: tailed_def)
  next
    assume "fresh_file dst (fs r') (out_fd r')"
    then show ?thesis
      using pr r1(2) by (auto simp: tailed_def fresh_file_def split: option.splits)
  qed
qed

text \<open>Whoever opens the path finds a piece of the source repeated for ever.\<close>

lemma file_piece:
  assumes "relay_loop turn es (relay_start dst src 0 f) = Inr (r, None)"
    and "\<forall>e\<in>set es. list_all real_answer (answers e)"
  shows "\<exists>i k. dir (fs r) dst = Some i \<and> sublist (data (fs r) i) (concat (replicate k src))"
proof -
  have "tailed r"
    by (rule loop_invariant [where P = tailed, OF assms(1) tailed_start assms(2)]) (rule turn_tailed)
  then obtain i where i: "dir (fs r) dst = Some i" "suffix (data (fs r) i) (sink (ios r))"
    by (auto simp: tailed_def)
  obtain k p where "sink (ios r) = concat (replicate k src) @ take p src"
    using loop_cyclic [OF assms(1) start_facts(1) assms(2)] by (auto simp: cyclic_def)
  then have "prefix (sink (ios r)) (concat (replicate (Suc k) src))"
    unfolding concat_replicate_snoc by (simp add: take_is_prefix)
  then show ?thesis
    using i by (meson prefix_imp_sublist suffix_imp_sublist sublist_order.order.trans)
qed

end

interpretation frelay_file: rolling_turn "frelay_turn dst max_len" "MTU_DEFAULT * 10" dst for dst max_len
proof
  fix e r r' r1 n
  assume "frelay_turn dst max_len e r = Inr (Some (Goes_on r'))" "pump (MTU_DEFAULT * 10) e r = Inr (Some (r1, Inr n))"
  then show "fs r' = fs r1 \<and> out_fd r' = out_fd r1 \<or> fresh_file dst (fs r') (out_fd r')"
    by (cases rule: frelay_goes_on) (auto dest: frelay_rollover_fresh)
qed

interpretation writer_file: rolling_turn "writer_turn dst" MTU_DEFAULT dst for dst
proof
  fix e r r' r1 n
  assume "writer_turn dst e r = Inr (Some (Goes_on r'))" "pump MTU_DEFAULT e r = Inr (Some (r1, Inr n))"
  then show "fs r' = fs r1 \<and> out_fd r' = out_fd r1 \<or> fresh_file dst (fs r') (out_fd r')"
    by (cases rule: writer_goes_on) (auto dest: writer_rollover_fresh)
qed

section \<open>The two programs together\<close>

text \<open>
  What the other program gets when it opens the path: the contents at that moment. What is written
  later is not part of its run.
\<close>

definition open_path :: "int \<Rightarrow> string \<Rightarrow> relay \<Rightarrow> (int \<times> u8 list) option" where
  "open_path f dst r = map_option (\<lambda>i. (f, data (fs r) i)) (dir (fs r) dst)"

text \<open>
  C12: the programs work together.  When \<open>reader -p\<close> opens the file that \<open>frelay\<close> or \<open>writer\<close> is writing
  from a source without NUL bytes, after any number of turns and rollovers, it finds one, and the
  text it has printed at its end is a consecutive piece of the source repeated for ever, whatever
  the reader and, within what \<open>write\<close> is documented to answer, the writing program are answered:
  nothing is lost, doubled or reordered on the way. The reader follows the contents the file has
  when it is opened; turns of the writing program after that are not part of its run.
\<close>

theorem relayed_text_shown:
  assumes "turn = frelay_turn dst max_len \<or> turn = writer_turn dst"
    and "relay_loop turn es (relay_start dst src 0 f) = Inr (r, None)"
    and "\<forall>e\<in>set es. list_all real_answer (answers e)" and "0 \<notin> set src"
    and "CHR ''p'' \<in> fst ` set opts"
    and "reader_main argc opts words (open_path h dst r) kq_ok vnode_ok read_ok ws = res"
  shows "open_path h dst r \<noteq> None \<and> (res = Inr None \<or>
    (\<exists>rc out k. res = Inr (Some (rc, out)) \<and> sublist (concat out) (concat (replicate k src))))"
proof -
  obtain i k where i: "dir (fs r) dst = Some i" "sublist (data (fs r) i) (concat (replicate k src))"
    using assms(1-3) frelay_file.file_piece writer_file.file_piece by metis
  have "0 \<notin> set (data (fs r) i)"
    using set_mono_sublist [OF i(2)] assms(4) by auto
  then have "res = Inr None \<or> (\<exists>rc out. res = Inr (Some (rc, out)) \<and>
      (out = [] \<or> (\<exists>f rest. open_path h dst r = Some (f, concat out @ rest))))"
    by (intro reader_main_prefix [OF assms(5) _ assms(6)]) (auto simp: open_path_def i(1))
  moreover have "sublist (concat out) (concat (replicate k src))"
    if "out = [] \<or> (\<exists>f rest. open_path h dst r = Some (f, concat out @ rest))" for out
    using that
  proof
    assume "\<exists>f rest. open_path h dst r = Some (f, concat out @ rest)"
    then have "sublist (concat out) (data (fs r) i)"
      using i(1) by (auto simp: open_path_def intro: prefix_imp_sublist)
    then show ?thesis
      using i(2) by (rule sublist_order.order.trans)
  qed simp
  moreover have "open_path h dst r \<noteq> None"
    using i(1) by (simp add: open_path_def)
  ultimately show ?thesis
    by blast
qed

text \<open>Three bytes on their way: \<open>reader\<close> is woken once, then the time is up.\<close>

definition reader_events :: "woken list" where
  "reader_events = [Kq_events [(\<lparr>kfilter = EVFILT_READ, ident = 3, kdata = 3, fflags = 0\<rparr>, [Accept 1, Accept 2])], Kq_timeout]"

lemma reader_run:
  "reader_main 3 [(CHR ''p'', 0)] 1 (Some (3, [1, 2, 3])) True True True reader_events = Inr (Some (0, [[1, 2, 3]]))"
  by code_simp

lemma open_run: "open_path 3 ''o'' (relay_run [1, 2, 3]) = Some (3, [1, 2, 3])"
  by (simp add: open_path_def relay_run_def)

theorem relayed_text_shown_witness:
  "reader_main 3 [(CHR ''p'', 0)] 1 (open_path 3 ''o'' (relay_run [1, 2, 3])) True True True reader_events =
      Inr (Some (0, [[1, 2, 3]])) \<and>
    (\<exists>k. sublist [1, 2, 3] (concat (replicate k [1, 2, 3 :: u8])))"
  using relayed_text_shown [where opts = "[(CHR ''p'', 0)]" and argc = 3 and words = 1 and h = 3 and kq_ok = True
      and vnode_ok = True and read_ok = True and ws = reader_events, OF disjI1 [OF refl] frelay_run _ _ _ refl]
  unfolding open_run reader_run by (simp add: real_run)

end
