(* ===== verification/Spec2Isabelle.thy ===== *)
theory Spec2Isabelle
  imports Pqueue Base64_Correct CpuFeature Xvdat Fdio DebugSync_Protocol Wal Prof Sorting Relay Kqfile Memtools DebugSyncDyn XvdatTest Testq Rsymb PrfmTest LibTests Utest2
    PrfmDump Iorly DebugSync_Release Ftmspec Utest DebugSync_Disable Wal_Errors Small Pipeline
begin

text \<open>
  A verification development of the repository bsl45-misc.tools: small C libraries and tools, each in
  a directory of its own under \<open>src/\<close>.  The libraries are called by the programs beside them
  (\<open>queue.c\<close> by \<open>testq.c\<close>, \<open>fdio.c\<close> by the programs of \<open>fdwatch\<close>, \<open>xvdat.c\<close> by its test, \<open>prfm.c\<close> by
  \<open>prfm_test.c\<close>, \<open>crc32.c\<close> by the tests of the hardware routines); beyond that the directories do not
  depend on each other.

  \<^bold>\<open>How C is modelled.\<close>  A struct is a record, an enum a datatype, an integer type a word where its
  width matters (\<open>u8\<close>, \<open>u32\<close>, \<open>u64\<close>), else \<open>nat\<close> with the wrapping written out (\<open>size_add\<close>,
  \<open>size_sub\<close>, \<open>size_mul\<close>, \<open>to_ssize\<close>) or \<open>int\<close>.  A function that can fail an assertion, leave an
  object, follow a bad pointer or abort has the type \<open>cresult\<close>: \<open>Inl\<close> a fault or \<open>Inr\<close> its result, in
  sequence by \<open>cbind\<close> (theory \<open>Prelude\<close>, with the array accesses \<open>aget\<close> and \<open>aset\<close>, \<open>cstrlen\<close> and
  the numbers of errno).  Return codes and errno are part of the result.  What is outside the
  sources (the kernel, the allocator, libraries, the processor) is an argument: a predicate, a record
  of answers, or a script with one entry for each call.

  \<^bold>\<open>The theories.\<close>
  \<^item> \<open>Pqueue\<close>: \<open>queue/queue.c\<close> and the inline functions of \<open>queue.h\<close>, on the struct and on handles.  The locale
    \<open>bounded_fifo\<close> is what a client relies on; it is interpreted by the ring buffer and, in \<open>Testq\<close>, by the queue
    behind a handle.  \<open>Testq\<close>: \<open>queue/testq.c\<close> from the characters of its input to the exit code.
  \<^item> \<open>Base64\<close>, \<open>Base64_Correct\<close>: \<open>base64/b64.c\<close>.  The coder as it is written, with its buffers, then
    the text it produces, what it accepts, and the round trip, against a definition of base64 by
    arithmetic that shares nothing with the shifts and tables of the code.
  \<^item> \<open>CrcTables\<close>, \<open>Crc32\<close>, \<open>CpuFeature\<close>: \<open>crc32.intel/\<close>.  The tables, the two table-driven sums against the
    shift register, the routines with the processor's instruction (a parameter with its documented
    meaning), and the detection of features by \<open>cpuid\<close> and the flags register.  \<open>LibTests\<close>: the test
    programs of \<open>base64/\<close> and \<open>crc32.intel/\<close> (\<open>ucrc32hw.c\<close> among them), as runs over these models.
  \<^item> \<open>Xvdat\<close>, \<open>XvdatTest\<close>: \<open>fdwatch/xvdat.c\<close> and \<open>test_xvdat.c\<close>.  The growing array and the list of
    slots, whose contract is the locale \<open>slot_table\<close> (with what becomes of it when the allocator refuses
    either of its blocks), and the unit tests with every access they make.
  \<^item> \<open>Fdio\<close>: \<open>fdwatch/fdio.c\<close>, the loops around \<open>read\<close>, \<open>write\<close>, \<open>writev\<close> and \<open>sendfile\<close>.
  \<^item> \<open>Relay\<close>, \<open>Follow\<close>, \<open>Kqfile\<close>: the programs \<open>frelay.c\<close> and \<open>writer.c\<close> (their turns share the locale
    \<open>relay_turn\<close>), \<open>reader.c\<close> and \<open>evrdr.c\<close> with their command lines, and \<open>kqfile.c\<close>.
    \<open>Pipeline\<close>: a writing and a reading program on one file; the locale \<open>rolling_turn\<close> extends \<open>relay_turn\<close>.
  \<^item> \<open>Iorly\<close>: \<open>fdwatch/iorly.c\<close>, an unfinished relay that does not compile; the theory says how the undeclared
    names are read.
  \<^item> \<open>DebugSync\<close>, \<open>DebugSync_Protocol\<close>: \<open>debugsync/debugsync.c\<close>.  The operations under the mutex, the
    threads as an inductive step relation with wake-ups by broadcast or without cause, and what
    holds in all reachable states, with and without the protocol that a thread unblocks only what it waited for.
    \<open>DebugSync_Release\<close>: what it takes to let a held thread go, and the whole exchange.
    \<open>DebugSync_Disable\<close>: disabling all points ends every pending wait.
    \<open>Utest2\<close>: \<open>debugsync/utest2.c\<close>, its seven threads over these steps in every interleaving; the locale
    \<open>countdown\<close> is the argument that a program whose every step counts down ends.
  \<^item> \<open>DebugSyncDyn\<close>: \<open>debugsync/debugsync_dyn.c\<close>, the variant on a growing sorted table and one signal
    name, again first under the mutex and then with threads.  The size a point is allocated with is an
    argument of some definitions; the code passes \<open>sizeof_pointer\<close>, and with it no point can be set.  \<open>Utest\<close>: its unit test \<open>debugsync/utest.c\<close>; the
    theory says how the calls with one argument too many are read.
  \<^item> \<open>Wal\<close>, \<open>Wal_Errors\<close>: \<open>wal/wbuft.c\<close>, the writers, the synchronizing thread and the requests to it, the
    options; what becomes of errors of the synchronizing calls.
  \<^item> \<open>Prof\<close>, \<open>Printf\<close>, \<open>PrfmDump\<close>, \<open>PrfmTest\<close>: \<open>prof/\<close> and \<open>tmtest/clkgtm.c\<close>.  The times are instances of \<open>linorder\<close>; the locale
    \<open>carry_time\<close> gives the laws of their arithmetic, once for seconds and nanoseconds and once for
    seconds and microseconds.  The dump of a probe is a text, over the conversions of \<open>printf\<close> in \<open>Printf\<close>.
  \<^item> \<open>Ftmspec\<close>: \<open>tmtest/ftmspec.c\<close>, the conversion of a double to a time, with the rounding of every operation.
  \<^item> \<open>Sorting\<close>: \<open>sort/simple_sort.c\<close>.  \<open>Memtools\<close>: \<open>memalign/unalign.c\<close>, \<open>memalign/unalcalc.c\<close> and
    \<open>memcached/mmcu.c\<close>.  \<open>Rsymb\<close>: \<open>bfd/rsymb.c\<close>.
    \<open>Small\<close>: \<open>pthr_cleanup/\<close> and \<open>hi/hi.c\<close>.

  \<^bold>\<open>What the lemmas show.\<close>  For each component: its invariant and that every operation keeps it, the
  result of every operation on every branch, absence of faults or the exact condition for one, and
  where there is a contract a refinement of it (a bounded list, a set of slots that hands out the lowest free
  one, a shift register, a stream that is copied).  The properties of the development are the
  theorems marked C1 to C40; each of those with hypotheses is followed by a witness, the same theorem at a
  concrete input.  The theorems without a mark are of the same kind; many show a behaviour that
  the code hardly means: an overflow that is not checked, a wait that never ends, an assertion that
  fails, an exit code that hides an error.

  \<^bold>\<open>Bounds and termination.\<close>  Loops over data are recursive functions with a measure.  A loop that
  waits for the kernel runs on a script of answers and has not returned (\<open>None\<close>) when the script ends;
  the statements about such a loop either hold for every script or say which scripts are long enough.
  A loop that may not end by itself is a \<open>partial_function\<close> whose value \<open>None\<close> means that it
  does not return (\<open>fill_loop\<close> in \<open>Memtools\<close>).  Where a product of sizes could wrap, the theorems have the bound
  as a hypothesis (\<open>grow_ok\<close>, \<open>plenty\<close>), and the case beyond the bound is a theorem of its own.

  \<^bold>\<open>Assumptions.\<close>  The mutex and the condition variables work as documented on initialised objects.
  The \<open>crc32\<close> instruction divides by the Castagnoli polynomial.  \<open>popf\<close> writes a fixed set of flags and
  keeps the others.  A \<open>long\<close> that holds a time or a count of a resource does not overflow.  Memory that is
  allocated holds junk; memory beyond an object is never readable.

  \<^bold>\<open>Not modelled.\<close>  The text of messages (what they read is modelled where it can leave an
  object); the conversion of the words of the command line in most programs, which start from the numbers;
  timing and sleeping, which only delay.  \<open>frameaddr.c\<close> prints where the compiler has put a stack frame;
  \<open>corocond.c\<close> is a sketch without bodies;
  \<open>debugsync/coro\<close> is a library of a third party; the assembler files are compiler output.
  \<open>cpu_feature2.c\<close> is the same file as \<open>cpu_feature.c\<close>, byte for byte.
\<close>

end
